(* ===== verification/Prelude.thy ===== *)
theory Prelude
  imports Main "HOL-Library.Word" "HOL-Library.Monad_Syntax"
begin

unbundle bit_operations_syntax

section \<open>Shared types, macros and lemmas\<close>

text \<open>
  The vocabulary of the development: the machine integers of the i386 port (the only
  architecture with a complete port under \<^verbatim>\<open>src/arch\<close>), the macros of
  \<^verbatim>\<open>include/kora/mcrs.h\<close>, the error numbers of \<^verbatim>\<open>include/sys/errno.h\<close> that the
  modelled code uses, and the generic lemmas on bits, words and lists that the component
  theories share.

  Conventions. Code that can fail to return (a failed \<^verbatim>\<open>assert\<close>, an endless loop, a
  null or wild pointer access) is modelled with \<open>'a option\<close>, \<open>None\<close> standing for "does not
  return"; error codes that the C code returns are ordinary values. Memory is a total
  function from addresses to cells, so that a write outside an object is a visible effect
  that a frame property has to exclude.
\<close>

type_synonym u8 = "8 word"
type_synonym u16 = "16 word"
type_synonym u32 = "32 word"
type_synonym u64 = "64 word"

text \<open>\<^verbatim>\<open>size_t\<close> and addresses are 32 bits wide on i386.\<close>

type_synonym size_t = "32 word"

text \<open>A byte-addressed memory, and the bytes reached from a \<^verbatim>\<open>uint8_t *\<close>.\<close>

type_synonym bytes = "nat \<Rightarrow> u8"

named_theorems bits_simps "rewrite rules that turn bit-level definitions into tests of single bits"
named_theorems heap_simps "rewrite rules for reads after writes in a pointer heap"

subsection \<open>Macros of mcrs.h\<close>

definition ALIGN_UP :: "'a::ring_bit_operations \<Rightarrow> 'a \<Rightarrow> 'a" where
  "ALIGN_UP v a = (v + (a - 1)) AND (NOT (a - 1))"

definition ALIGN_DW :: "'a::ring_bit_operations \<Rightarrow> 'a \<Rightarrow> 'a" where
  "ALIGN_DW v a = v AND (NOT (a - 1))"

definition POW2 :: "'a::ring_bit_operations \<Rightarrow> bool" where
  "POW2 v \<longleftrightarrow> v \<noteq> 0 \<and> v AND (v - 1) = 0"

definition MIN3 :: "'a::linorder \<Rightarrow> 'a \<Rightarrow> 'a \<Rightarrow> 'a" where
  "MIN3 a b c = (if a \<le> (if b \<le> c then b else c) then a else (if b \<le> c then b else c))"

abbreviation PAGE_SIZE :: "'a::numeral" where
  "PAGE_SIZE \<equiv> 4096"

subsection \<open>Error numbers\<close>

datatype errno = EOK | EPERM | ENOENT | E2BIG | EAGAIN | ENOMEM | EINVAL | EPIPE | ERANGE | EOVERFLOW

abbreviation EWOULDBLOCK :: errno where
  "EWOULDBLOCK \<equiv> EAGAIN"

subsection \<open>Alignment\<close>

lemma and_not_mask_int: "(v::int) AND (NOT (2 ^ n - 1)) = (v div 2 ^ n) * 2 ^ n"
proof -
  have "v AND (NOT (mask n)) = push_bit n (drop_bit n v)"
    by (rule bit_eqI) (auto simp: bit_simps)
  then show ?thesis
    by (simp add: mask_eq_exp_minus_1 push_bit_eq_mult drop_bit_eq_div)
qed

lemma ALIGN_DW_int: "ALIGN_DW (v::int) (2 ^ n) = (v div 2 ^ n) * 2 ^ n"
  unfolding ALIGN_DW_def by (rule and_not_mask_int)

lemma ALIGN_UP_int: "ALIGN_UP (v::int) (2 ^ n) = ((v + (2 ^ n - 1)) div 2 ^ n) * 2 ^ n"
  unfolding ALIGN_UP_def by (rule and_not_mask_int)

lemma ALIGN_DW_int_8 [simp]: "ALIGN_DW (v::int) 8 = (v div 8) * 8"
  using ALIGN_DW_int [of v 3] by simp

lemma ALIGN_UP_int_8 [simp]: "ALIGN_UP (v::int) 8 = ((v + 7) div 8) * 8"
  using ALIGN_UP_int [of v 3] by simp

lemma ALIGN_DW_int_page [simp]: "ALIGN_DW (v::int) PAGE_SIZE = (v div PAGE_SIZE) * PAGE_SIZE"
  using ALIGN_DW_int [of v 12] by simp

lemma ALIGN_UP_int_page [simp]:
  "ALIGN_UP (v::int) PAGE_SIZE = ((v + 4095) div PAGE_SIZE) * PAGE_SIZE"
  using ALIGN_UP_int [of v 12] by simp

subsection \<open>Bits of bytes\<close>

text \<open>Bit \<open>k\<close> of a byte array, as \<^verbatim>\<open>(ptr[k / 8] >> (k % 8)) & 1\<close> reads it.\<close>

definition bit_at :: "bytes \<Rightarrow> nat \<Rightarrow> bool" where
  "bit_at p k = bit (p (k div 8)) (k mod 8)"

lemma u8_eq_iff: "(a::u8) = b \<longleftrightarrow> (\<forall>j<8. bit a j = bit b j)"
  using bit_word_eqI [of a b] by auto

lemma u8_ones [simp]: "bit (- 1 :: u8) j \<longleftrightarrow> j < 8"
  by (simp add: bit_simps)

lemma div_mod_eq_iff: "(0::nat) < n \<Longrightarrow> (k div n = i \<and> k mod n = j) \<longleftrightarrow> (k = i * n + j \<and> j < n)"
  by auto

subsection \<open>Words\<close>

lemma unat_u32: "unat (w :: u32) < 4294967296"
  using unsigned_less [where w = w and 'a = nat] by simp

end
