(* ===== verification/Bits.thy ===== *)
theory Bits
  imports Prelude
begin

section \<open>Bitmaps (\<^verbatim>\<open>src/stdc/bits.c\<close>)\<close>

text \<open>
  The bitmap routines used by the physical page allocator. The array is a total memory
  \<^typ>\<open>bytes\<close> read from the pointer, indices and counts are natural numbers (the loops of
  the C code do nothing on a negative count, and a negative start is out of the array).
  Each of the three loops of a routine is one recursive function: the bits up to the next
  byte boundary, the whole bytes, and the bits of the last byte.
\<close>

unbundle bit_operations_syntax

subsection \<open>Model\<close>

definition clr_bit :: "bytes \<Rightarrow> nat \<Rightarrow> nat \<Rightarrow> bytes" where
  "clr_bit p i j = p(i := p i AND NOT (push_bit j 1))"

definition set_byte :: "bytes \<Rightarrow> nat \<Rightarrow> u8 \<Rightarrow> bytes" where
  "set_byte p i b = p(i := b)"

definition set_bit_at :: "bytes \<Rightarrow> nat \<Rightarrow> nat \<Rightarrow> bytes" where
  "set_bit_at p i j = p(i := p i OR push_bit j 1)"

fun bitsclr_head :: "bytes \<Rightarrow> nat \<Rightarrow> nat \<Rightarrow> nat \<Rightarrow> bytes \<times> nat" where
  "bitsclr_head p i j count =
     (if 0 < count \<and> j \<noteq> 0 then bitsclr_head (clr_bit p i j) i ((j + 1) mod 8) (count - 1)
      else (p, count))"

fun bitsclr_body :: "bytes \<Rightarrow> nat \<Rightarrow> nat \<Rightarrow> bytes \<times> nat \<times> nat" where
  "bitsclr_body p i count =
     (if 8 < count then bitsclr_body (set_byte p i 0) (i + 1) (count - 8) else (p, i, count))"

fun bitsclr_tail :: "bytes \<Rightarrow> nat \<Rightarrow> nat \<Rightarrow> nat \<Rightarrow> bytes" where
  "bitsclr_tail p i j count =
     (if 0 < count then bitsclr_tail (clr_bit p i j) i (j + 1) (count - 1) else p)"

definition bitsclr :: "bytes \<Rightarrow> nat \<Rightarrow> nat \<Rightarrow> bytes" where
  "bitsclr p start count =
     (let (p, count) = bitsclr_head p (start div 8) (start mod 8) count;
          (p, i, count) = bitsclr_body p (nat (ALIGN_UP (int start) 8) div 8) count
      in bitsclr_tail p i 0 count)"

fun bitsset_head :: "bytes \<Rightarrow> nat \<Rightarrow> nat \<Rightarrow> nat \<Rightarrow> bytes \<times> nat" where
  "bitsset_head p i j count =
     (if 0 < count \<and> j \<noteq> 0 then bitsset_head (set_bit_at p i j) i ((j + 1) mod 8) (count - 1)
      else (p, count))"

fun bitsset_body :: "bytes \<Rightarrow> nat \<Rightarrow> nat \<Rightarrow> bytes \<times> nat \<times> nat" where
  "bitsset_body p i count =
     (if 8 < count then bitsset_body (set_byte p i (NOT 0)) (i + 1) (count - 8) else (p, i, count))"

fun bitsset_tail :: "bytes \<Rightarrow> nat \<Rightarrow> nat \<Rightarrow> nat \<Rightarrow> bytes" where
  "bitsset_tail p i j count =
     (if 0 < count then bitsset_tail (set_bit_at p i j) i (j + 1) (count - 1) else p)"

definition bitsset :: "bytes \<Rightarrow> nat \<Rightarrow> nat \<Rightarrow> bytes" where
  "bitsset p start count =
     (let (p, count) = bitsset_head p (start div 8) (start mod 8) count;
          (p, i, count) = bitsset_body p (nat (ALIGN_UP (int start) 8) div 8) count
      in bitsset_tail p i 0 count)"

text \<open>The two loops of \<^verbatim>\<open>bitschrz\<close>: skip the full bytes, then count the ones of a byte.\<close>

function skip_full :: "bytes \<Rightarrow> nat \<Rightarrow> nat \<Rightarrow> nat" where
  "skip_full p i n = (if i < n \<and> p i = 0xFF then skip_full p (i + 1) n else i)"
  by pat_completeness auto
termination
  by (relation "measure (\<lambda>(p, i, n). n - i)") auto

function low_ones :: "u8 \<Rightarrow> nat \<Rightarrow> nat" where
  "low_ones by j = (if by AND 1 \<noteq> 0 then low_ones (drop_bit 1 by) (j + 1) else j)"
  by pat_completeness auto
termination
proof (relation "measure (\<lambda>(by, j). unat by)")
  fix w :: u8 and j :: nat
  assume "w AND 1 \<noteq> 0"
  then have "w \<noteq> 0" by auto
  then have "0 < unat w" by (simp add: unat_gt_0)
  then have "unat w div 2 < unat w" by simp
  then show "((drop_bit 1 w, j + 1), w, j) \<in> measure (\<lambda>(by, j). unat by)"
    by (simp add: drop_bit_eq_div unat_div)
qed simp

definition bitschrz :: "bytes \<Rightarrow> nat \<Rightarrow> int" where
  "bitschrz p len =
     (let i = skip_full p 0 (len div 8)
      in if i \<ge> len div 8 then - 1 else int (i * 8 + low_ones (p i) 0))"

text \<open>
  \<^verbatim>\<open>bitstest\<close> returns the tested value and the array: its first loop writes to it.
\<close>

fun bitstest_body :: "bytes \<Rightarrow> bool \<Rightarrow> nat \<Rightarrow> nat \<Rightarrow> bool \<times> nat \<times> nat" where
  "bitstest_body p test i count =
     (if 8 < count then bitstest_body p (if p i = 0 then False else test) (i + 1) (count - 8)
      else (test, i, count))"

fun bitstest_tail :: "bytes \<Rightarrow> bool \<Rightarrow> nat \<Rightarrow> nat \<Rightarrow> nat \<Rightarrow> bool" where
  "bitstest_tail p test i j count =
     (if 0 < count then
        bitstest_tail p (if p i AND push_bit j 1 = 0 then False else test) i (j + 1) (count - 1)
      else test)"

definition bitstest :: "bytes \<Rightarrow> nat \<Rightarrow> nat \<Rightarrow> bool \<times> bytes" where
  "bitstest p start count =
     (let (p, count) = bitsclr_head p (start div 8) (start mod 8) count;
          (test, i, count) = bitstest_body p True (nat (ALIGN_UP (int start) 8) div 8) count
      in (bitstest_tail p test i 0 count, p))"

declare bitsclr_head.simps [simp del] bitsclr_body.simps [simp del] bitsclr_tail.simps [simp del]
  bitsset_head.simps [simp del] bitsset_body.simps [simp del] bitsset_tail.simps [simp del]
  skip_full.simps [simp del] low_ones.simps [simp del]
  bitstest_body.simps [simp del] bitstest_tail.simps [simp del]

subsection \<open>Single bits\<close>

lemma bit_pos_iff: "j < 8 \<Longrightarrow> k = i * 8 + j \<longleftrightarrow> k div 8 = i \<and> k mod 8 = j" for i j k :: nat
  by auto

lemma bit_at_clr_bit [simp]: "j < 8 \<Longrightarrow> bit_at (clr_bit p i j) k \<longleftrightarrow> bit_at p k \<and> k \<noteq> i * 8 + j"
  unfolding bit_pos_iff by (auto simp: bit_at_def clr_bit_def bit_simps)

lemma bit_at_set_bit [simp]: "j < 8 \<Longrightarrow> bit_at (set_bit_at p i j) k \<longleftrightarrow> bit_at p k \<or> k = i * 8 + j"
  unfolding bit_pos_iff by (auto simp: bit_at_def set_bit_at_def bit_simps)

lemma bit_at_byte_upd:
  "bit_at (set_byte p i b) k = (if i * 8 \<le> k \<and> k < i * 8 + 8 then bit b (k - i * 8) else bit_at p k)"
proof -
  have "k div 8 = i \<longleftrightarrow> i * 8 \<le> k \<and> k < i * 8 + 8" by auto
  then show ?thesis by (auto simp: bit_at_def set_byte_def minus_mult_div_eq_mod mult.commute)
qed

lemma bit_at_byte_full:
  "bit_at (set_byte p i 0) k \<longleftrightarrow> bit_at p k \<and> \<not> (i * 8 \<le> k \<and> k < i * 8 + 8)"
  "bit_at (set_byte p i (NOT 0)) k \<longleftrightarrow> bit_at p k \<or> (i * 8 \<le> k \<and> k < i * 8 + 8)"
  by (auto simp: bit_at_byte_upd bit_simps)

subsection \<open>The three loops\<close>

lemma loop_stop [simp]:
  "bitsclr_head p i 0 c = (p, c)" "bitsset_head p i 0 c = (p, c)"
  "bitsclr_head p i j 0 = (p, 0)" "bitsset_head p i j 0 = (p, 0)"
  "bitsclr_tail p i j 0 = p" "bitsset_tail p i j 0 = p" "bitstest_tail p t i j 0 = t"
  "n \<le> 8 \<Longrightarrow> bitstest_body p t i n = (t, i, n)"
  by (simp_all add: bitsclr_head.simps bitsset_head.simps bitsclr_tail.simps bitsset_tail.simps
      bitstest_tail.simps bitstest_body.simps)

lemma bitsclr_head_bits:
  assumes "bitsclr_head p i j count = (p', c')" "j < 8"
  shows "c' = (if j = 0 then count else count - (8 - j)) \<and>
    (\<forall>k. bit_at p' k \<longleftrightarrow> bit_at p k \<and> \<not> (i * 8 + j \<le> k \<and> k < i * 8 + j + (count - c')))"
  using assms
proof (induction p i j count arbitrary: p' c' rule: bitsclr_head.induct)
  case (1 p i j count)
  consider "\<not> (0 < count \<and> j \<noteq> 0)" | "0 < count" "j = 7" | "0 < count" "j \<noteq> 0" "j < 7"
    using 1(3) by linarith
  then show ?case
  proof cases
    case 1
    with "1.prems" show ?thesis by (auto simp: bitsclr_head.simps [of p i j count])
  next
    case 2
    with "1.prems" show ?thesis by (auto simp: bitsclr_head.simps [of p i 7 count])
  next
    case 3
    then have step: "bitsclr_head (clr_bit p i j) i (j + 1) (count - 1) = (p', c')"
      using "1.prems" by (simp add: bitsclr_head.simps [of p i j count])
    have c': "c' = count - (8 - j)"
      and IH: "bit_at p' k \<longleftrightarrow> bit_at (clr_bit p i j) k \<and> \<not>
        (i * 8 + (j + 1) \<le> k \<and> k < i * 8 + (j + 1) + (count - 1 - c'))" for k
      using "1.IH" [of p' c'] step 3 by simp_all
    have "i * 8 + (j + 1) + (count - 1 - c') = i * 8 + j + (count - c')"
      using 3 c' by simp
    then have "(i * 8 + j \<le> k \<and> k < i * 8 + j + (count - c')) \<longleftrightarrow>
        k = i * 8 + j \<or> (i * 8 + (j + 1) \<le> k \<and> k < i * 8 + (j + 1) + (count - 1 - c'))" for k
      by linarith
    with IH c' 3 show ?thesis by auto
  qed
qed

lemma bitsset_head_bits:
  assumes "bitsset_head p i j count = (p', c')" "j < 8"
  shows "c' = (if j = 0 then count else count - (8 - j)) \<and>
    (\<forall>k. bit_at p' k \<longleftrightarrow> bit_at p k \<or> (i * 8 + j \<le> k \<and> k < i * 8 + j + (count - c')))"
  using assms
proof (induction p i j count arbitrary: p' c' rule: bitsset_head.induct)
  case (1 p i j count)
  consider "\<not> (0 < count \<and> j \<noteq> 0)" | "0 < count" "j = 7" | "0 < count" "j \<noteq> 0" "j < 7"
    using 1(3) by linarith
  then show ?case
  proof cases
    case 1
    with "1.prems" show ?thesis by (auto simp: bitsset_head.simps [of p i j count])
  next
    case 2
    with "1.prems" show ?thesis by (auto simp: bitsset_head.simps [of p i 7 count])
  next
    case 3
    then have step: "bitsset_head (set_bit_at p i j) i (j + 1) (count - 1) = (p', c')"
      using "1.prems" by (simp add: bitsset_head.simps [of p i j count])
    have c': "c' = count - (8 - j)"
      and IH: "bit_at p' k \<longleftrightarrow> bit_at (set_bit_at p i j) k \<or>
        (i * 8 + (j + 1) \<le> k \<and> k < i * 8 + (j + 1) + (count - 1 - c'))" for k
      using "1.IH" [of p' c'] step 3 by simp_all
    have "i * 8 + (j + 1) + (count - 1 - c') = i * 8 + j + (count - c')"
      using 3 c' by simp
    then have "(i * 8 + j \<le> k \<and> k < i * 8 + j + (count - c')) \<longleftrightarrow>
        k = i * 8 + j \<or> (i * 8 + (j + 1) \<le> k \<and> k < i * 8 + (j + 1) + (count - 1 - c'))" for k
      by linarith
    with IH c' 3 show ?thesis by auto
  qed
qed

lemma bitsclr_body_bits:
  assumes "bitsclr_body p i count = (p', i', c')"
  shows "c' \<le> 8 \<and> c' \<le> count \<and> i' * 8 + c' = i * 8 + count \<and> i \<le> i' \<and>
    (\<forall>k. bit_at p' k \<longleftrightarrow> bit_at p k \<and> \<not> (i * 8 \<le> k \<and> k < i' * 8))"
  using assms
proof (induction p i count arbitrary: p' i' c' rule: bitsclr_body.induct)
  case (1 p i count)
  show ?case
  proof (cases "8 < count")
    case True
    then have step: "bitsclr_body (set_byte p i 0) (i + 1) (count - 8) = (p', i', c')"
      using "1.prems" by (simp add: bitsclr_body.simps [of p i count])
    note IH = "1.IH" [OF True step]
    have "(i * 8 \<le> k \<and> k < i' * 8) \<longleftrightarrow>
        (i * 8 \<le> k \<and> k < i * 8 + 8) \<or> ((i + 1) * 8 \<le> k \<and> k < i' * 8)" for k
      using IH [THEN conjunct2, THEN conjunct2, THEN conjunct2, THEN conjunct1] by presburger
    with IH True show ?thesis unfolding bit_at_byte_full by simp
  next
    case False
    with "1.prems" show ?thesis by (auto simp: bitsclr_body.simps [of p i count])
  qed
qed

lemma bitsset_body_bits:
  assumes "bitsset_body p i count = (p', i', c')"
  shows "c' \<le> 8 \<and> c' \<le> count \<and> i' * 8 + c' = i * 8 + count \<and> i \<le> i' \<and>
    (\<forall>k. bit_at p' k \<longleftrightarrow> bit_at p k \<or> (i * 8 \<le> k \<and> k < i' * 8))"
  using assms
proof (induction p i count arbitrary: p' i' c' rule: bitsset_body.induct)
  case (1 p i count)
  show ?case
  proof (cases "8 < count")
    case True
    then have step: "bitsset_body (set_byte p i (NOT 0)) (i + 1) (count - 8) = (p', i', c')"
      using "1.prems" by (simp add: bitsset_body.simps [of p i count])
    note IH = "1.IH" [OF True step]
    have "(i * 8 \<le> k \<and> k < i' * 8) \<longleftrightarrow>
        (i * 8 \<le> k \<and> k < i * 8 + 8) \<or> ((i + 1) * 8 \<le> k \<and> k < i' * 8)" for k
      using IH [THEN conjunct2, THEN conjunct2, THEN conjunct2, THEN conjunct1] by presburger
    with IH True show ?thesis unfolding bit_at_byte_full by simp
  next
    case False
    with "1.prems" show ?thesis by (auto simp: bitsset_body.simps [of p i count])
  qed
qed

lemma bitsclr_tail_bits:
  "j + count \<le> 8 \<Longrightarrow> bit_at (bitsclr_tail p i j count) k \<longleftrightarrow>
     bit_at p k \<and> \<not> (i * 8 + j \<le> k \<and> k < i * 8 + j + count)"
proof (induction p i j count rule: bitsclr_tail.induct)
  case (1 p i j count)
  show ?case
  proof (cases "count = 0")
    case False
    have "(i * 8 + j \<le> k \<and> k < i * 8 + j + count) \<longleftrightarrow>
        k = i * 8 + j \<or> (i * 8 + (j + 1) \<le> k \<and> k < i * 8 + (j + 1) + (count - 1))"
      using False by presburger
    with "1.IH" "1.prems" False show ?thesis by (simp add: bitsclr_tail.simps [of p i j count])
  qed auto
qed

lemma bitsset_tail_bits:
  "j + count \<le> 8 \<Longrightarrow> bit_at (bitsset_tail p i j count) k \<longleftrightarrow>
     bit_at p k \<or> (i * 8 + j \<le> k \<and> k < i * 8 + j + count)"
proof (induction p i j count rule: bitsset_tail.induct)
  case (1 p i j count)
  show ?case
  proof (cases "count = 0")
    case False
    have "(i * 8 + j \<le> k \<and> k < i * 8 + j + count) \<longleftrightarrow>
        k = i * 8 + j \<or> (i * 8 + (j + 1) \<le> k \<and> k < i * 8 + (j + 1) + (count - 1))"
      using False by presburger
    with "1.IH" "1.prems" False show ?thesis by (simp add: bitsset_tail.simps [of p i j count])
  qed auto
qed

text \<open>The byte where the second loop starts: the first boundary at or above \<open>start\<close>.\<close>

lemma align_byte: "nat (ALIGN_UP (int s) 8) div 8 = (s + 7) div 8"
  by (simp add: nat_mult_distrib nat_div_distrib zdiv_int)

subsection \<open>Functional correctness\<close>

lemma byte_up: "(s + 7) div 8 = (if s mod 8 = 0 then s div 8 else Suc (s div 8))" for s :: nat
proof -
  define q r where "q = s div 8" and "r = s mod 8"
  have s: "s = 8 * q + r" and r: "r < 8" by (simp_all add: q_def r_def)
  have "(s + 7) div 8 = (if r = 0 then q else Suc q)"
    by (rule div_nat_eqI) (use s r in simp_all)
  then show ?thesis by (simp add: q_def r_def)
qed

lemma loop_intervals:
  fixes s c c1 c2 i2 k :: nat
  assumes "c1 = (if s mod 8 = 0 then c else c - (8 - s mod 8))"
    and "i2 * 8 + c2 = (s + 7) div 8 * 8 + c1" and "(s + 7) div 8 \<le> i2"
  shows "(s \<le> k \<and> k < s + c) \<longleftrightarrow>
    (s \<le> k \<and> k < s + (c - c1)) \<or> ((s + 7) div 8 * 8 \<le> k \<and> k < i2 * 8) \<or>
    (i2 * 8 \<le> k \<and> k < i2 * 8 + c2)"
proof -
  define d where "d = (if s mod 8 = 0 then 0 else 8 - s mod 8)"
  define m where "m = i2 * 8"
  have up: "(s + 7) div 8 * 8 = s + d"
  proof -
    have "s div 8 * 8 = s - s mod 8" by (simp add: minus_mod_eq_div_mult)
    moreover have "s mod 8 \<le> s" "s mod 8 < 8" by simp_all
    ultimately show ?thesis unfolding byte_up d_def by (simp add: add.commute)
  qed
  have c1: "c1 = c - d" using assms(1) by (simp add: d_def)
  have "m + c2 = s + d + c1" unfolding m_def up [symmetric] by (rule assms(2))
  moreover have "s + d \<le> m"
    unfolding m_def up [symmetric] by (rule mult_le_mono1 [OF assms(3)])
  ultimately show ?thesis unfolding up c1 m_def [symmetric] by auto
qed

lemma bit_at_bitsclr: "bit_at (bitsclr p s c) k \<longleftrightarrow> bit_at p k \<and> \<not> (s \<le> k \<and> k < s + c)"
proof -
  obtain p1 c1 where h: "bitsclr_head p (s div 8) (s mod 8) c = (p1, c1)" by fastforce
  obtain p2 i2 c2 where b: "bitsclr_body p1 ((s + 7) div 8) c1 = (p2, i2, c2)"
    by (metis prod_cases3)
  have H: "c1 = (if s mod 8 = 0 then c else c - (8 - s mod 8))"
      "bit_at p1 k \<longleftrightarrow> bit_at p k \<and> \<not> (s \<le> k \<and> k < s + (c - c1))"
    using bitsclr_head_bits [OF h] by simp_all
  have B: "c2 \<le> 8" "i2 * 8 + c2 = (s + 7) div 8 * 8 + c1" "(s + 7) div 8 \<le> i2"
      "bit_at p2 k \<longleftrightarrow> bit_at p1 k \<and> \<not> ((s + 7) div 8 * 8 \<le> k \<and> k < i2 * 8)"
    using bitsclr_body_bits [OF b] by simp_all
  have "bitsclr p s c = bitsclr_tail p2 i2 0 c2"
    by (simp add: bitsclr_def h align_byte b del: ALIGN_UP_int_8)
  then have "bit_at (bitsclr p s c) k \<longleftrightarrow> bit_at p2 k \<and> \<not> (i2 * 8 \<le> k \<and> k < i2 * 8 + c2)"
    using bitsclr_tail_bits [of 0 c2 p2 i2 k] B(1) by simp
  then show ?thesis using H(2) B(4) loop_intervals [OF H(1) B(2,3)] by blast
qed

lemma bit_at_bitsset: "bit_at (bitsset p s c) k \<longleftrightarrow> bit_at p k \<or> (s \<le> k \<and> k < s + c)"
proof -
  obtain p1 c1 where h: "bitsset_head p (s div 8) (s mod 8) c = (p1, c1)" by fastforce
  obtain p2 i2 c2 where b: "bitsset_body p1 ((s + 7) div 8) c1 = (p2, i2, c2)"
    by (metis prod_cases3)
  have H: "c1 = (if s mod 8 = 0 then c else c - (8 - s mod 8))"
      "bit_at p1 k \<longleftrightarrow> bit_at p k \<or> (s \<le> k \<and> k < s + (c - c1))"
    using bitsset_head_bits [OF h] by simp_all
  have B: "c2 \<le> 8" "i2 * 8 + c2 = (s + 7) div 8 * 8 + c1" "(s + 7) div 8 \<le> i2"
      "bit_at p2 k \<longleftrightarrow> bit_at p1 k \<or> ((s + 7) div 8 * 8 \<le> k \<and> k < i2 * 8)"
    using bitsset_body_bits [OF b] by simp_all
  have "bitsset p s c = bitsset_tail p2 i2 0 c2"
    by (simp add: bitsset_def h align_byte b del: ALIGN_UP_int_8)
  then have "bit_at (bitsset p s c) k \<longleftrightarrow> bit_at p2 k \<or> (i2 * 8 \<le> k \<and> k < i2 * 8 + c2)"
    using bitsset_tail_bits [of 0 c2 p2 i2 k] B(1) by simp
  then show ?thesis using H(2) B(4) loop_intervals [OF H(1) B(2,3)] by blast
qed

subsection \<open>Searching a zero bit\<close>

lemma skip_full_spec:
  "i \<le> n \<Longrightarrow> i \<le> skip_full p i n \<and> skip_full p i n \<le> n \<and>
     (\<forall>x. i \<le> x \<and> x < skip_full p i n \<longrightarrow> p x = 0xFF) \<and>
     (skip_full p i n < n \<longrightarrow> p (skip_full p i n) \<noteq> 0xFF)"
proof (induction p i n rule: skip_full.induct)
  case (1 p i n)
  show ?case
  proof (cases "i < n \<and> p i = 0xFF")
    case True
    then have eq: "skip_full p i n = skip_full p (i + 1) n"
      by (simp add: skip_full.simps [of p i n])
    have "p x = 0xFF" if "i \<le> x" "x < skip_full p (i + 1) n" for x
      using that "1.IH" [OF True] True by (cases "x = i") auto
    with "1.IH" [OF True] True show ?thesis unfolding eq by auto
  next
    case False
    with "1.prems" show ?thesis by (auto simp: skip_full.simps [of p i n])
  qed
qed

lemma low_ones_spec:
  "b \<noteq> 0xFF \<Longrightarrow> \<exists>m<8. low_ones b j = j + m \<and> \<not> bit b m \<and> (\<forall>i<m. bit b i)" for b :: u8
proof (induction b j rule: low_ones.induct)
  case (1 b j)
  have odd: "b AND 1 \<noteq> 0 \<longleftrightarrow> bit b 0"
    by (simp add: and_one_eq odd_iff_mod_2_eq_one bit_0)
  show ?case
  proof (cases "bit b 0")
    case False
    then have "low_ones b j = j" using odd by (simp add: low_ones.simps [of b j])
    with False show ?thesis by (intro exI [of _ 0]) simp
  next
    case True
    have "drop_bit 1 b \<noteq> 0xFF"
    proof
      assume "drop_bit 1 b = 0xFF"
      then have "bit (drop_bit 1 b) 7" by (simp add: bit_numeral_rec)
      then show False using bit_imp_le_length [of b 8] by (simp add: bit_simps)
    qed
    with "1.IH" True odd obtain m where m: "m < 8" "low_ones (drop_bit 1 b) (j + 1) = j + 1 + m"
      "\<not> bit (drop_bit 1 b) m" "\<forall>i<m. bit (drop_bit 1 b) i" by blast
    have all: "\<forall>i<Suc m. bit b i"
      using m(4) True by (auto simp: bit_simps less_Suc_eq_0_disj)
    have "\<not> bit b (Suc m)" using m(3) by (simp add: bit_simps)
    moreover have "Suc m < 8"
    proof (rule ccontr)
      assume "\<not> Suc m < 8"
      then have "\<forall>i<8. bit b i" using all m(1) by simp
      then have "b = - 1" by (simp add: u8_eq_iff)
      with "1.prems" show False by simp
    qed
    ultimately show ?thesis using all m(2) True odd
      by (intro exI [of _ "Suc m"]) (simp add: low_ones.simps [of b j])
  qed
qed

lemma full_byte_bits: "p (k div 8) = 0xFF \<Longrightarrow> bit_at p k"
proof -
  assume "p (k div 8) = 0xFF"
  then have "p (k div 8) = - 1" by simp
  then show ?thesis unfolding bit_at_def by simp
qed

lemma bitschrz_spec:
  "if \<forall>k < len div 8 * 8. bit_at p k then bitschrz p len = - 1
   else \<exists>k < len div 8 * 8. bitschrz p len = int k \<and> \<not> bit_at p k \<and> (\<forall>k'<k. bit_at p k')"
proof -
  define i where "i = skip_full p 0 (len div 8)"
  have sk: "i \<le> len div 8" "\<forall>x<i. p x = 0xFF" "i < len div 8 \<Longrightarrow> p i \<noteq> 0xFF"
    using skip_full_spec [of 0 "len div 8" p] by (auto simp: i_def)
  have low: "bit_at p k" if "k < i * 8" for k
    using that sk(2) by (intro full_byte_bits) (simp add: less_mult_imp_div_less)
  show ?thesis
  proof (cases "i < len div 8")
    case False
    with sk(1) have "i = len div 8" by simp
    with low show ?thesis by (auto simp: bitschrz_def Let_def simp flip: i_def)
  next
    case True
    then obtain m where m: "m < 8" "low_ones (p i) 0 = m" "\<not> bit (p i) m" "\<forall>j<m. bit (p i) j"
      using low_ones_spec [OF sk(3), of 0] by auto
    have zero: "\<not> bit_at p (i * 8 + m)" using m by (simp add: bit_at_def)
    have below: "bit_at p k'" if "k' < i * 8 + m" for k'
    proof (cases "k' < i * 8")
      case False
      define j where "j = k' - i * 8"
      have j: "k' = i * 8 + j" "j < m" using False that by (simp_all add: j_def)
      then have "k' div 8 = i" "k' mod 8 = j" using m(1) by auto
      with m(4) j(2) show ?thesis by (simp add: bit_at_def)
    qed (rule low)
    have lt: "i * 8 + m < len div 8 * 8" using True m(1) by linarith
    have "bitschrz p len = int (i * 8 + m)"
      using True m(2) by (simp add: bitschrz_def Let_def flip: i_def)
    with zero below lt show ?thesis by auto
  qed
qed

lemma bitstest_one:
  "bitstest p s 1 = (if s mod 8 = 0 then (bit_at p s, p) else (True, clr_bit p (s div 8) (s mod 8)))"
proof -
  have test0: "p (s div 8) AND push_bit 0 1 = 0 \<longleftrightarrow> \<not> bit (p (s div 8)) 0" for p :: bytes
    by (simp add: and_one_eq even_iff_mod_2_eq_zero bit_0)
  show ?thesis
    using test0 [of p]
    by (simp add: bitstest_def align_byte byte_up bitsclr_head.simps [of p "s div 8" "s mod 8" "Suc 0"]
        bitstest_tail.simps [of p True "s div 8" 0 "Suc 0"] bit_at_def del: ALIGN_UP_int_8)
qed

subsection \<open>Properties\<close>

text \<open>
  C40: \<^verbatim>\<open>bitsset\<close> and \<^verbatim>\<open>bitsclr\<close> set and clear exactly the \<open>c\<close> bits from bit \<open>s\<close> on, whatever
  the alignment and the length of the range, and keep every other bit of the memory.
\<close>

theorem bitmap_ranges_correct:
  "bit_at (bitsset p s c) k = (bit_at p k \<or> k \<in> {s ..< s + c}) \<and>
   bit_at (bitsclr p s c) k = (bit_at p k \<and> k \<notin> {s ..< s + c})"
  by (simp add: bit_at_bitsset bit_at_bitsclr)

text \<open>
  \<^verbatim>\<open>bitschrz\<close> returns the index of the first clear bit among the whole bytes of a bitmap of
  \<open>len\<close> bits, and \<open>-1\<close> exactly when all of them are set; both of its loops end.
\<close>

theorem bitschrz_first_zero:
  "bitschrz p len =
     (if list_all (bit_at p) [0 ..< len div 8 * 8] then - 1
      else int (length (takeWhile (bit_at p) [0 ..< len div 8 * 8])))"
proof (cases "\<forall>k < len div 8 * 8. bit_at p k")
  case True
  then show ?thesis using bitschrz_spec [of len p] by (auto simp: list_all_iff)
next
  case False
  then obtain k where k: "k < len div 8 * 8" "bitschrz p len = int k" "\<not> bit_at p k" "\<forall>k'<k. bit_at p k'"
    using bitschrz_spec [of len p] by (simp only: if_False) blast
  have "[0 ..< len div 8 * 8] = [0 ..< k] @ k # [Suc k ..< len div 8 * 8]"
    using upt_add_eq_append [of 0 k "len div 8 * 8 - k"] upt_conv_Cons [OF k(1)] k(1) by simp
  then have "takeWhile (bit_at p) [0 ..< len div 8 * 8] = [0 ..< k]"
    using k(3,4) takeWhile_append2 [of "[0 ..< k]" "bit_at p" "k # [Suc k ..< len div 8 * 8]"] by simp
  moreover have "\<not> list_all (bit_at p) [0 ..< len div 8 * 8]"
    using k by (auto simp: list_all_iff)
  ultimately show ?thesis using k(2) by simp
qed

end
