(* ===== verification/Pages.thy ===== *)
theory Pages
  imports Bits "HOL-Library.Signed_Division"
begin

section \<open>Physical page allocator (\<^verbatim>\<open>src/mem/pages.c\<close>)\<close>

text \<open>
  The zones registered by \<^verbatim>\<open>page_range\<close>, their lazily allocated bitmaps, and the allocation
  and release of single pages. The spin-lock of a zone is held around each access and is
  not part of the state; \<^verbatim>\<open>lzone\<close> is the list of zones in link order, and a zone's
  \<^verbatim>\<open>ptr\<close> is \<open>None\<close> for the null pointer. An address is a \<^verbatim>\<open>size_t\<close> of 32 bits; the page
  numbers, which are \<^verbatim>\<open>long\<close>, are integers that are narrowed where the code narrows a \<^verbatim>\<open>long long\<close>. Numbers from
  \<open>2 ^ 20\<close> have no address of their own. \<open>None\<close> as a result is a failed
  \<^verbatim>\<open>assert\<close> or the endless loop that \<^verbatim>\<open>page_new\<close> enters when no page is left.
\<close>

subsection \<open>Model\<close>

record mzone =
  mz_offset :: int
  mz_reserved :: int
  mz_available :: int
  mz_count :: int
  mz_free :: int
  mz_ptr :: "bytes option"

record kmmu =
  upper_physical_page :: size_t
  pages_amount :: size_t
  free_pages :: int
  lzone :: "mzone list"

definition new_zone :: "int \<Rightarrow> int \<Rightarrow> mzone" where
  "new_zone start pgs =
     \<lparr>mz_offset = start sdiv 8 * 8, mz_reserved = start smod 8, mz_available = pgs,
      mz_count = ALIGN_UP (pgs + start smod 8) 8, mz_free = pgs, mz_ptr = None\<rparr>"

function page_range_loop :: "int \<Rightarrow> int \<Rightarrow> mzone list \<Rightarrow> mzone list" where
  "page_range_loop start count zones =
     (if count > 0 then
        let j = start smod 8;
            pgs = (if count + j > PAGE_SIZE * 4 then PAGE_SIZE * 4 - j else count);
            zn = new_zone start pgs
        in page_range_loop (mz_offset zn + mz_count zn) (count - pgs) (zones @ [zn])
      else zones)"
  by pat_completeness auto
termination
proof (relation "measure (\<lambda>(start, count, zones). nat count)", goal_cases)
  case (2 start count zones j pgs zn)
  then have "0 < pgs" using smod_int_range [of 8 start] by auto
  with 2(1) show ?case by simp
qed simp

text \<open>The conversion of a \<^verbatim>\<open>long long\<close> to a \<^verbatim>\<open>long\<close> of 32 bits.\<close>

definition to_long32 :: "int \<Rightarrow> int" where
  "to_long32 v = signed_take_bit 31 v"

definition page_range :: "int \<Rightarrow> int \<Rightarrow> kmmu \<Rightarrow> kmmu option" where
  "page_range base0 length0 st =
     (if \<not> (base0 \<ge> 0 \<and> length0 > 0) then None
      else
        let base = ALIGN_UP base0 PAGE_SIZE;
            len = ALIGN_DW (length0 - (base - base0)) PAGE_SIZE;
            count = to_long32 (len sdiv PAGE_SIZE);
            start = to_long32 (base sdiv PAGE_SIZE)
        in Some (st\<lparr>upper_physical_page := max (upper_physical_page st) (of_int (start + count)),
                    pages_amount := pages_amount st + of_int count,
                    free_pages := free_pages st + count,
                    lzone := page_range_loop start count (lzone st)\<rparr>))"

definition fresh_bitmap :: "mzone \<Rightarrow> bytes" where
  "fresh_bitmap mz =
     bitsclr (\<lambda>i. if i < nat (mz_count mz) div 8 then 0xFF else 0)
       (nat (mz_reserved mz)) (nat (mz_available mz))"

text \<open>The address \<^verbatim>\<open>idx * PAGE_SIZE\<close> as it is returned.\<close>

definition frame_addr :: "int \<Rightarrow> size_t" where
  "frame_addr idx = of_int (idx * PAGE_SIZE)"

definition zone_alloc :: "mzone \<Rightarrow> (size_t \<times> mzone) option" where
  "zone_alloc mz =
     (let p = (case mz_ptr mz of None \<Rightarrow> fresh_bitmap mz | Some p \<Rightarrow> p);
          idx = bitschrz p (nat (mz_count mz))
      in if idx < 0 then None
         else Some (frame_addr (idx + mz_offset mz),
                    mz\<lparr>mz_free := mz_free mz - 1, mz_ptr := Some (bitsset p (nat idx) 1)\<rparr>))"

fun page_new_zones :: "mzone list \<Rightarrow> (size_t \<times> mzone list) option" where
  "page_new_zones [] = None"
| "page_new_zones (mz # zs) =
     (if mz_free mz = 0 then
        do { (pg, zs') \<leftarrow> page_new_zones zs; Some (pg, mz # zs') }
      else do { (pg, mz') \<leftarrow> zone_alloc mz; Some (pg, mz' # zs) })"

definition page_new :: "kmmu \<Rightarrow> (size_t \<times> kmmu) option" where
  "page_new st =
     do { (pg, zs) \<leftarrow> page_new_zones (lzone st);
          Some (pg, st\<lparr>free_pages := free_pages st - 1, lzone := zs\<rparr>) }"

definition in_zone :: "int \<Rightarrow> mzone \<Rightarrow> bool" where
  "in_zone idx mz \<longleftrightarrow> \<not> (idx < mz_offset mz + mz_reserved mz \<or>
     idx \<ge> mz_offset mz + mz_reserved mz + mz_available mz)"

definition zone_release :: "int \<Rightarrow> mzone \<Rightarrow> mzone option" where
  "zone_release idx mz =
     (case mz_ptr mz of
        None \<Rightarrow> None
      | Some p \<Rightarrow>
          let (ok, p) = bitstest p (nat (idx - mz_offset mz)) 1
          in if \<not> ok then None
             else Some (mz\<lparr>mz_free := mz_free mz + 1,
                           mz_ptr := Some (bitsclr p (nat (idx - mz_offset mz)) 1)\<rparr>))"

text \<open>The flag of the result tells whether a zone was found (and \<^verbatim>\<open>free_pages\<close> incremented).\<close>

fun page_release_zones :: "int \<Rightarrow> mzone list \<Rightarrow> (bool \<times> mzone list) option" where
  "page_release_zones idx [] = Some (False, [])"
| "page_release_zones idx (mz # zs) =
     (if \<not> in_zone idx mz then
        do { (ok, zs') \<leftarrow> page_release_zones idx zs; Some (ok, mz # zs') }
      else do { mz' \<leftarrow> zone_release idx mz; Some (True, mz' # zs) })"

definition page_release :: "size_t \<Rightarrow> kmmu \<Rightarrow> kmmu option" where
  "page_release paddress st =
     do { (ok, zs) \<leftarrow> page_release_zones (uint paddress div PAGE_SIZE) (lzone st);
          Some (if ok then st\<lparr>free_pages := free_pages st + 1, lzone := zs\<rparr> else st) }"

declare page_range_loop.simps [simp del]

subsection \<open>The contract of a page allocator\<close>

text \<open>
  What the memory manager relies on: a set of managed frames, a set of free ones, an
  allocation that takes a free frame whenever there is one, and a release that gives an
  allocated frame back.
\<close>

locale frame_allocator =
  fixes inv :: "'s \<Rightarrow> bool"
    and frames :: "'s \<Rightarrow> int set"
    and free :: "'s \<Rightarrow> int set"
    and alloc :: "'s \<Rightarrow> (size_t \<times> 's) option"
    and release :: "size_t \<Rightarrow> 's \<Rightarrow> 's option"
  assumes free_frames: "inv s \<Longrightarrow> free s \<subseteq> frames s"
    and small_frames: "inv s \<Longrightarrow> frames s \<subseteq> {0 ..< 2 ^ 20}"
    and alloc_free: "inv s \<Longrightarrow> free s \<noteq> {} \<Longrightarrow> \<exists>f s'. alloc s = Some (frame_addr f, s') \<and>
      f \<in> free s \<and> inv s' \<and> free s' = free s - {f} \<and> frames s' = frames s"
    and alloc_none: "inv s \<Longrightarrow> free s = {} \<Longrightarrow> alloc s = None"
    and release_used: "inv s \<Longrightarrow> f \<in> frames s - free s \<Longrightarrow> \<exists>s'. release (frame_addr f) s = Some s' \<and>
      inv s' \<and> free s' = insert f (free s) \<and> frames s' = frames s"
begin

fun alloc_many :: "nat \<Rightarrow> 's \<Rightarrow> (size_t list \<times> 's) option" where
  "alloc_many 0 s = Some ([], s)"
| "alloc_many (Suc n) s =
     do { (pg, s1) \<leftarrow> alloc s; (pgs, s2) \<leftarrow> alloc_many n s1; Some (pg # pgs, s2) }"

lemma alloc_many_distinct:
  "inv s \<Longrightarrow> n \<le> card (free s) \<Longrightarrow> \<exists>fs s'. alloc_many n s = Some (map frame_addr fs, s') \<and>
     inv s' \<and> distinct fs \<and> length fs = n \<and> set fs \<subseteq> free s \<and> free s' = free s - set fs \<and>
     frames s' = frames s"
proof (induction n arbitrary: s)
  case 0
  then show ?case by auto
next
  case (Suc n)
  then have "free s \<noteq> {}" by auto
  then obtain f s1 where f: "alloc s = Some (frame_addr f, s1)" "f \<in> free s" "inv s1"
    "free s1 = free s - {f}" "frames s1 = frames s"
    using alloc_free [OF Suc.prems(1)] by blast
  have "finite (free s)"
    using free_frames small_frames Suc.prems(1) finite_atLeastLessThan_int by (meson finite_subset)
  with f Suc.prems have "n \<le> card (free s1)" by simp
  then obtain fs s' where "alloc_many n s1 = Some (map frame_addr fs, s')" "inv s'"
    "distinct fs" "length fs = n" "set fs \<subseteq> free s1" "free s' = free s1 - set fs"
    "frames s' = frames s1"
    using Suc.IH [OF f(3)] by blast
  with f show ?case by (intro exI [of _ "f # fs"] exI [of _ s']) auto
qed

lemma alloc_release:
  assumes "inv s" "alloc s = Some (pg, s1)"
  shows "\<exists>s2. release pg s1 = Some s2 \<and> inv s2 \<and> free s2 = free s \<and> frames s2 = frames s"
proof -
  have "free s \<noteq> {}" using alloc_none assms by fastforce
  then obtain f where "pg = frame_addr f" "f \<in> free s" "inv s1" "free s1 = free s - {f}"
    "frames s1 = frames s"
    using alloc_free [OF assms(1)] assms(2) by auto
  moreover have "f \<in> frames s" using free_frames [OF assms(1)] calculation(2) by blast
  ultimately show ?thesis using release_used [of s1 f] by (auto simp: insert_absorb)
qed

end

subsection \<open>Frames of a zone\<close>

text \<open>Page numbers and addresses.\<close>

lemma uint_frame_addr: "0 \<le> f \<Longrightarrow> f < 2 ^ 20 \<Longrightarrow> uint (frame_addr f) = f * PAGE_SIZE"
  by (simp add: frame_addr_def uint_word_of_int take_bit_eq_mod del: of_int_mult)

lemma frame_addr_wraps: "frame_addr (f + 2 ^ 20) = frame_addr f"
  unfolding frame_addr_def word_of_int_eq_iff by (simp add: take_bit_eq_mod algebra_simps)

lemma sdiv_nonneg: "0 \<le> (a :: int) \<Longrightarrow> 0 < b \<Longrightarrow> a sdiv b = a div b" "0 \<le> a \<Longrightarrow> 0 < b \<Longrightarrow> a smod b = a mod b"
  by (simp_all add: signed_divide_int_def signed_modulo_int_def sgn_if minus_div_mult_eq_mod)

lemma sdiv_exact: "0 < b \<Longrightarrow> ((a :: int) * b) sdiv b = a"
  by (simp add: signed_divide_int_def sgn_mult abs_mult sgn_mult_abs)

definition zone_frames :: "mzone \<Rightarrow> int set" where
  "zone_frames mz = {mz_offset mz + mz_reserved mz ..< mz_offset mz + mz_reserved mz + mz_available mz}"

definition zone_bitmap :: "mzone \<Rightarrow> bytes" where
  "zone_bitmap mz = (case mz_ptr mz of None \<Rightarrow> fresh_bitmap mz | Some p \<Rightarrow> p)"

definition zone_free :: "mzone \<Rightarrow> int set" where
  "zone_free mz = {f \<in> zone_frames mz. \<not> bit_at (zone_bitmap mz) (nat (f - mz_offset mz))}"

text \<open>
  Well-formed zones: the bitmap covers the zone, the bits outside the managed pages are
  set (they are never handed out), and \<^verbatim>\<open>free\<close> counts the clear bits.
\<close>

definition zone_ok :: "mzone \<Rightarrow> bool" where
  "zone_ok mz \<longleftrightarrow> 0 \<le> mz_reserved mz \<and> 0 \<le> mz_available mz \<and>
     mz_count mz = ALIGN_UP (mz_available mz + mz_reserved mz) 8 \<and>
     (\<forall>k < nat (mz_count mz). \<not> bit_at (zone_bitmap mz) k \<longrightarrow>
        mz_offset mz + int k \<in> zone_frames mz) \<and>
     mz_free mz = int (card (zone_free mz))"

lemma zone_frames_count:
  "zone_ok mz \<Longrightarrow> f \<in> zone_frames mz \<Longrightarrow> mz_offset mz \<le> f \<and> nat (f - mz_offset mz) < nat (mz_count mz)"
  by (auto simp: zone_ok_def zone_frames_def)

lemma finite_zone_free [simp]: "finite (zone_free mz)"
  by (rule finite_subset [of _ "zone_frames mz"]) (auto simp: zone_free_def zone_frames_def)

lemma in_zone_iff: "in_zone f mz \<longleftrightarrow> f \<in> zone_frames mz"
  by (auto simp: in_zone_def zone_frames_def)

lemma zone_free_subset: "zone_free mz \<subseteq> zone_frames mz"
  by (auto simp: zone_free_def)

text \<open>Changing one bit of the bitmap changes the free set by one frame.\<close>

lemma zone_free_upd:
  assumes "zone_ok mz" "f \<in> zone_frames mz"
    and "\<And>k. bit_at p k \<longleftrightarrow> (if k = nat (f - mz_offset mz) then b else bit_at (zone_bitmap mz) k)"
    and "mz' = mz\<lparr>mz_free := n, mz_ptr := Some p\<rparr>"
  shows "zone_frames mz' = zone_frames mz"
    and "zone_free mz' = (if b then zone_free mz - {f} else insert f (zone_free mz))"
    and "n = int (card (zone_free mz')) \<Longrightarrow> zone_ok mz'"
proof -
  show fr: "zone_frames mz' = zone_frames mz" by (simp add: assms(4) zone_frames_def)
  have bm: "zone_bitmap mz' = p" by (simp add: assms(4) zone_bitmap_def)
  have off: "mz_offset mz' = mz_offset mz" by (simp add: assms(4))
  have same: "nat (g - mz_offset mz) = nat (f - mz_offset mz) \<longleftrightarrow> g = f" if "g \<in> zone_frames mz" for g
    using zone_frames_count [OF assms(1)] that assms(2) by (auto simp: nat_eq_iff)
  show free: "zone_free mz' = (if b then zone_free mz - {f} else insert f (zone_free mz))"
    unfolding zone_free_def fr bm off assms(3) using same assms(2) by auto
  have "mz_offset mz + int k \<in> zone_frames mz" if "k < nat (mz_count mz)" "\<not> bit_at p k" for k
    using that assms(1,2,3) zone_frames_count [OF assms(1,2)]
    by (cases "k = nat (f - mz_offset mz)") (auto simp: zone_ok_def)
  then show "n = int (card (zone_free mz')) \<Longrightarrow> zone_ok mz'"
    using assms(1) by (simp add: zone_ok_def fr bm off) (simp add: assms(4))
qed

lemma zone_alloc_spec:
  assumes ok: "zone_ok mz" and ne: "mz_free mz \<noteq> 0"
  shows "\<exists>f mz'. zone_alloc mz = Some (frame_addr f, mz') \<and> f \<in> zone_free mz \<and> zone_ok mz' \<and>
    zone_free mz' = zone_free mz - {f} \<and> zone_frames mz' = zone_frames mz"
proof -
  define p where "p = zone_bitmap mz"
  have cnt: "nat (mz_count mz) div 8 * 8 = nat (mz_count mz)"
  proof -
    obtain m where "mz_count mz = m * 8" using ok by (auto simp: zone_ok_def)
    then show ?thesis by (cases "m \<ge> 0") (simp_all add: nat_mult_distrib nat_mult_distrib_neg)
  qed
  have "zone_free mz \<noteq> {}" using ok ne by (auto simp: zone_ok_def)
  then obtain g where g: "g \<in> zone_free mz" by blast
  have "\<not> (\<forall>k < nat (mz_count mz). bit_at p k)"
    using g zone_frames_count [OF ok, of g] unfolding zone_free_def p_def by blast
  then obtain k where k: "k < nat (mz_count mz)" "bitschrz p (nat (mz_count mz)) = int k" "\<not> bit_at p k"
    using bitschrz_spec [of "nat (mz_count mz)" p] by (auto simp: cnt split: if_splits)
  define f where "f = mz_offset mz + int k"
  have f: "f \<in> zone_frames mz" using ok k by (auto simp: zone_ok_def f_def p_def)
  define mz' where "mz' = mz\<lparr>mz_free := mz_free mz - 1, mz_ptr := Some (bitsset p k 1)\<rparr>"
  have fk: "nat (f - mz_offset mz) = k" by (simp add: f_def)
  have upd: "bit_at (bitsset p k 1) x \<longleftrightarrow>
      (if x = nat (f - mz_offset mz) then True else bit_at (zone_bitmap mz) x)" for x
    by (auto simp: bit_at_bitsset fk p_def)
  note U = zone_free_upd [OF ok f upd mz'_def]
  have mem: "f \<in> zone_free mz" using f k(3) by (simp add: zone_free_def fk p_def)
  then have "mz_free mz - 1 = int (card (zone_free mz - {f}))"
    using ok card_Diff_singleton [OF mem] card_gt_0_iff [of "zone_free mz"]
    by (auto simp: zone_ok_def of_nat_diff Suc_leI)
  then have "zone_ok mz'" using U by simp
  moreover have "zone_alloc mz = Some (frame_addr f, mz')"
    using k(2) by (simp add: zone_alloc_def Let_def mz'_def f_def add.commute
        flip: zone_bitmap_def p_def)
  ultimately show ?thesis using mem U(1,2) by auto
qed

lemma zone_release_spec:
  assumes ok: "zone_ok mz" and f: "f \<in> zone_frames mz - zone_free mz"
  shows "\<exists>mz'. zone_release f mz = Some mz' \<and> zone_ok mz' \<and>
    zone_free mz' = insert f (zone_free mz) \<and> zone_frames mz' = zone_frames mz"
proof -
  define k where "k = nat (f - mz_offset mz)"
  have set: "bit_at (zone_bitmap mz) k" using f by (simp add: zone_free_def k_def)
  have "mz_ptr mz \<noteq> None"
  proof
    assume "mz_ptr mz = None"
    then have "bit_at (fresh_bitmap mz) k" using set by (simp add: zone_bitmap_def)
    then show False
      using f ok by (auto simp: fresh_bitmap_def bit_at_bitsclr k_def zone_frames_def zone_ok_def)
  qed
  then obtain p where p: "mz_ptr mz = Some p" "zone_bitmap mz = p" by (auto simp: zone_bitmap_def)
  define q where "q = bitsclr (snd (bitstest p k 1)) k 1"
  define mz' where "mz' = mz\<lparr>mz_free := mz_free mz + 1, mz_ptr := Some q\<rparr>"
  have upd: "bit_at q x \<longleftrightarrow> (if x = nat (f - mz_offset mz) then False else bit_at (zone_bitmap mz) x)" for x
    unfolding k_def [symmetric] q_def bitstest_one by (auto simp: bit_at_bitsclr p)
  note U = zone_free_upd [OF ok _ upd mz'_def]
  have "zone_ok mz'"
    using U f ok by (simp add: zone_ok_def)
  moreover have "fst (bitstest p k 1)" using set p unfolding bitstest_one by simp
  then have "zone_release f mz = Some mz'"
    using p by (simp add: zone_release_def mz'_def q_def split_beta flip: k_def)
  ultimately show ?thesis using U f by auto
qed

subsection \<open>The zone list\<close>

definition all_frames :: "mzone list \<Rightarrow> int set" where
  "all_frames zs = (\<Union>mz\<in>set zs. zone_frames mz)"

definition all_free :: "mzone list \<Rightarrow> int set" where
  "all_free zs = (\<Union>mz\<in>set zs. zone_free mz)"

fun zones_ok :: "mzone list \<Rightarrow> bool" where
  "zones_ok [] = True"
| "zones_ok (mz # zs) = (zone_ok mz \<and> zone_frames mz \<inter> all_frames zs = {} \<and> zones_ok zs)"

lemma all_frames_simps [simp]:
  "all_frames [] = {}" "all_frames (mz # zs) = zone_frames mz \<union> all_frames zs"
  "all_frames (xs @ ys) = all_frames xs \<union> all_frames ys"
  by (auto simp: all_frames_def)

lemma all_free_simps [simp]:
  "all_free [] = {}" "all_free (mz # zs) = zone_free mz \<union> all_free zs"
  "all_free (xs @ ys) = all_free xs \<union> all_free ys"
  by (auto simp: all_free_def)

lemma all_free_subset: "all_free zs \<subseteq> all_frames zs"
  using zone_free_subset by (fastforce simp: all_frames_def all_free_def)

lemma finite_all [simp]: "finite (all_frames zs)" "finite (all_free zs)"
  by (simp_all add: all_frames_def all_free_def zone_frames_def)

lemma zones_ok_snoc:
  "zones_ok (zs @ [mz]) \<longleftrightarrow> zones_ok zs \<and> zone_ok mz \<and> zone_frames mz \<inter> all_frames zs = {}"
  by (induction zs) auto

lemma page_new_zones_spec:
  "zones_ok zs \<Longrightarrow> all_free zs \<noteq> {} \<Longrightarrow> \<exists>f zs'. page_new_zones zs = Some (frame_addr f, zs') \<and>
     f \<in> all_free zs \<and> zones_ok zs' \<and> all_free zs' = all_free zs - {f} \<and> all_frames zs' = all_frames zs"
proof (induction zs)
  case Nil
  then show ?case by simp
next
  case (Cons mz zs)
  have disj: "zone_frames mz \<inter> all_frames zs = {}" and ok: "zone_ok mz" "zones_ok zs"
    using Cons.prems by auto
  have sep: "zone_free mz \<inter> all_free zs = {}"
    using disj zone_free_subset all_free_subset by blast
  show ?case
  proof (cases "mz_free mz = 0")
    case True
    then have empty: "zone_free mz = {}" using ok by (auto simp: zone_ok_def)
    with Cons.prems have "all_free zs \<noteq> {}" by auto
    with Cons.IH ok obtain f zs' where "page_new_zones zs = Some (frame_addr f, zs')" "f \<in> all_free zs"
      "zones_ok zs'" "all_free zs' = all_free zs - {f}" "all_frames zs' = all_frames zs" by blast
    with True empty disj ok show ?thesis by auto
  next
    case False
    from zone_alloc_spec [OF ok(1) False] obtain f mz' where "zone_alloc mz = Some (frame_addr f, mz')"
      "f \<in> zone_free mz" "zone_ok mz'" "zone_free mz' = zone_free mz - {f}"
      "zone_frames mz' = zone_frames mz" by blast
    with False disj ok sep show ?thesis by auto
  qed
qed

lemma page_new_zones_none: "zones_ok zs \<Longrightarrow> all_free zs = {} \<Longrightarrow> page_new_zones zs = None"
  by (induction zs) (auto simp: zone_ok_def)

lemma page_release_zones_spec:
  "zones_ok zs \<Longrightarrow> f \<in> all_frames zs - all_free zs \<Longrightarrow>
     \<exists>zs'. page_release_zones f zs = Some (True, zs') \<and> zones_ok zs' \<and>
       all_free zs' = insert f (all_free zs) \<and> all_frames zs' = all_frames zs"
proof (induction zs)
  case Nil
  then show ?case by simp
next
  case (Cons mz zs)
  show ?case
  proof (cases "f \<in> zone_frames mz")
    case True
    then have "f \<in> zone_frames mz - zone_free mz" using Cons.prems by auto
    with zone_release_spec [of mz f] Cons.prems obtain mz' where "zone_release f mz = Some mz'"
      "zone_ok mz'" "zone_free mz' = insert f (zone_free mz)" "zone_frames mz' = zone_frames mz" by auto
    with True Cons.prems show ?thesis by (auto simp: in_zone_iff)
  next
    case False
    then obtain zs' where "page_release_zones f zs = Some (True, zs')" "zones_ok zs'"
      "all_free zs' = insert f (all_free zs)" "all_frames zs' = all_frames zs"
      using Cons by auto
    with False Cons.prems show ?thesis by (auto simp: in_zone_iff)
  qed
qed

lemma page_release_zones_unknown: "f \<notin> all_frames zs \<Longrightarrow> page_release_zones f zs = Some (False, zs)"
  by (induction zs) (auto simp: in_zone_iff)

subsection \<open>The allocator implements its contract\<close>

text \<open>The zones and the counter are consistent; and, for the contract, every frame has an address of its own.\<close>

definition mm_wf :: "kmmu \<Rightarrow> bool" where
  "mm_wf st \<longleftrightarrow> zones_ok (lzone st) \<and> free_pages st = int (card (all_free (lzone st)))"

definition mm_ok :: "kmmu \<Rightarrow> bool" where
  "mm_ok st \<longleftrightarrow> mm_wf st \<and> all_frames (lzone st) \<subseteq> {0 ..< 2 ^ 20}"

abbreviation mm_frames :: "kmmu \<Rightarrow> int set" where
  "mm_frames st \<equiv> all_frames (lzone st)"

abbreviation mm_free :: "kmmu \<Rightarrow> int set" where
  "mm_free st \<equiv> all_free (lzone st)"

lemma page_new_wf:
  assumes "mm_wf st" "mm_free st \<noteq> {}"
  shows "\<exists>f st'. page_new st = Some (frame_addr f, st') \<and> f \<in> mm_free st \<and> mm_wf st' \<and>
    mm_free st' = mm_free st - {f} \<and> mm_frames st' = mm_frames st"
proof -
  obtain f zs' where z: "page_new_zones (lzone st) = Some (frame_addr f, zs')" "f \<in> mm_free st"
    "zones_ok zs'" "all_free zs' = mm_free st - {f}" "all_frames zs' = mm_frames st"
    using page_new_zones_spec [of "lzone st"] assms unfolding mm_wf_def by blast
  then have "free_pages st - 1 = int (card (mm_free st - {f}))"
    using assms card_gt_0_iff [of "mm_free st"] by (auto simp: mm_wf_def of_nat_diff Suc_leI)
  with z show ?thesis by (auto simp: page_new_def mm_wf_def)
qed

lemma page_new_spec:
  assumes "mm_ok st" "mm_free st \<noteq> {}"
  shows "\<exists>f st'. page_new st = Some (frame_addr f, st') \<and> f \<in> mm_free st \<and> mm_ok st' \<and>
    mm_free st' = mm_free st - {f} \<and> mm_frames st' = mm_frames st"
  using page_new_wf [of st] assms by (fastforce simp: mm_ok_def)

lemma page_release_wf:
  assumes "mm_wf st" "f \<in> mm_frames st - mm_free st" "uint (frame_addr f) div PAGE_SIZE = f"
  shows "\<exists>st'. page_release (frame_addr f) st = Some st' \<and> mm_wf st' \<and>
    mm_free st' = insert f (mm_free st) \<and> mm_frames st' = mm_frames st"
proof -
  obtain zs' where "page_release_zones f (lzone st) = Some (True, zs')" "zones_ok zs'"
    "all_free zs' = insert f (mm_free st)" "all_frames zs' = mm_frames st"
    using page_release_zones_spec [of "lzone st" f] assms(1,2) unfolding mm_wf_def by blast
  then show ?thesis using assms by (auto simp: page_release_def mm_wf_def)
qed

lemma page_release_spec:
  assumes "mm_ok st" "f \<in> mm_frames st - mm_free st"
  shows "\<exists>st'. page_release (frame_addr f) st = Some st' \<and> mm_ok st' \<and>
    mm_free st' = insert f (mm_free st) \<and> mm_frames st' = mm_frames st"
proof -
  have "uint (frame_addr f) div PAGE_SIZE = f" using assms uint_frame_addr [of f] by (auto simp: mm_ok_def)
  then show ?thesis using page_release_wf [of st f] assms by (fastforce simp: mm_ok_def)
qed

interpretation pages: frame_allocator mm_ok mm_frames mm_free page_new page_release
proof
  show "page_new s = None" if "mm_ok s" "mm_free s = {}" for s
    using that by (simp add: page_new_def page_new_zones_none mm_ok_def mm_wf_def)
  show "mm_free s \<subseteq> mm_frames s" for s by (rule all_free_subset)
  show "mm_frames s \<subseteq> {0 ..< 2 ^ 20}" if "mm_ok s" for s using that by (simp add: mm_ok_def)
qed (fact page_new_spec page_release_spec)+

subsection \<open>Registering memory\<close>

lemma bit_at_fresh:
  assumes "0 \<le> mz_reserved mz" "0 \<le> mz_available mz" "k < nat (mz_count mz)"
    "nat (mz_count mz) div 8 * 8 = nat (mz_count mz)"
  shows "bit_at (fresh_bitmap mz) k \<longleftrightarrow> \<not> (mz_reserved mz \<le> int k \<and> int k < mz_reserved mz + mz_available mz)"
proof -
  have "k div 8 < nat (mz_count mz) div 8" using assms(3,4) by linarith
  then have "bit_at (\<lambda>i. if i < nat (mz_count mz) div 8 then 0xFF else 0) k"
    by (intro full_byte_bits) simp
  then show ?thesis using assms(1,2) by (auto simp: fresh_bitmap_def bit_at_bitsclr)
qed

lemma new_zone_nonneg:
  "0 \<le> start \<Longrightarrow> new_zone start pgs = \<lparr>mz_offset = start div 8 * 8, mz_reserved = start mod 8, mz_available = pgs,
     mz_count = ALIGN_UP (pgs + start mod 8) 8, mz_free = pgs, mz_ptr = None\<rparr>"
  by (simp add: new_zone_def sdiv_nonneg)

lemma new_zone_spec:
  assumes "0 \<le> start" "0 \<le> pgs"
  shows "zone_frames (new_zone start pgs) = {start ..< start + pgs}"
    and "zone_free (new_zone start pgs) = {start ..< start + pgs}"
    and "zone_ok (new_zone start pgs)"
proof -
  let ?z = "new_zone start pgs"
  have pos: "mz_offset ?z + mz_reserved ?z = start" by (simp add: new_zone_nonneg [OF assms(1)])
  then show fr: "zone_frames ?z = {start ..< start + pgs}"
    by (simp add: zone_frames_def) (simp add: new_zone_nonneg [OF assms(1)])
  have cnt: "nat (mz_count ?z) div 8 * 8 = nat (mz_count ?z)" "0 \<le> mz_reserved ?z"
      "0 \<le> mz_available ?z" "mz_available ?z = pgs"
      "mz_count ?z = ALIGN_UP (mz_available ?z + mz_reserved ?z) 8"
    using assms by (simp_all add: new_zone_nonneg [OF assms(1)] nat_mult_distrib pos_imp_zdiv_nonneg_iff)
  have bits: "bit_at (fresh_bitmap ?z) k \<longleftrightarrow> mz_offset ?z + int k \<notin> {start ..< start + pgs}"
    if "k < nat (mz_count ?z)" for k
    using bit_at_fresh [OF cnt(2,3) that cnt(1)] pos cnt(4) by auto
  have bm: "zone_bitmap ?z = fresh_bitmap ?z" by (simp add: zone_bitmap_def new_zone_nonneg [OF assms(1)])
  have "\<not> bit_at (fresh_bitmap ?z) (nat (f - mz_offset ?z))" if "f \<in> {start ..< start + pgs}" for f
  proof -
    have "mz_offset ?z \<le> f" using that pos cnt(2) by auto
    moreover have "nat (f - mz_offset ?z) < nat (mz_count ?z)"
      using that pos cnt by auto
    ultimately show ?thesis using bits that by auto
  qed
  then show free: "zone_free ?z = {start ..< start + pgs}"
    by (auto simp: zone_free_def fr bm)
  show "zone_ok ?z"
    unfolding zone_ok_def bm fr free
  proof (intro conjI)
    show "\<forall>k < nat (mz_count ?z). \<not> bit_at (fresh_bitmap ?z) k \<longrightarrow>
        mz_offset ?z + int k \<in> {start ..< start + pgs}"
      using bits by blast
    show "mz_free ?z = int (card {start ..< start + pgs})" using assms by (simp add: new_zone_nonneg [OF assms(1)])
  qed (fact cnt(2,3,5))+
qed

lemma page_range_loop_spec:
  assumes "0 \<le> start" "0 \<le> count" "zones_ok zs" "{start ..< start + count} \<inter> all_frames zs = {}"
  shows "zones_ok (page_range_loop start count zs) \<and>
    all_frames (page_range_loop start count zs) = all_frames zs \<union> {start ..< start + count} \<and>
    all_free (page_range_loop start count zs) = all_free zs \<union> {start ..< start + count}"
  using assms
proof (induction start count zs rule: page_range_loop.induct)
  case (1 start count zs)
  show ?case
  proof (cases "count > 0")
    case False
    then have "page_range_loop start count zs = zs" by (simp add: page_range_loop.simps [of start count zs])
    with False "1.prems" show ?thesis by simp
  next
    case True
    define j where "j = start smod 8"
    define pgs where "pgs = (if count + j > PAGE_SIZE * 4 then PAGE_SIZE * 4 - j else count)"
    define zn where "zn = new_zone start pgs"
    define nxt0 where "nxt0 = mz_offset zn + mz_count zn"
    have jm: "j = start mod 8" using "1.prems"(1) by (simp add: j_def sdiv_nonneg)
    have j: "0 \<le> j" "j < 8" by (simp_all add: jm)
    then have pgs: "0 < pgs" "pgs \<le> count" using True by (auto simp: pgs_def)
    note nz = new_zone_spec [OF "1.prems"(1) less_imp_le [OF pgs(1)], folded zn_def]
    have nxt: "nxt0 = start + pgs" if "pgs < count"
      using that by (auto simp: nxt0_def zn_def new_zone_nonneg [OF "1.prems"(1)] pgs_def jm minus_mod_eq_div_mult split: if_splits)
    have step: "page_range_loop start count zs = page_range_loop nxt0 (count - pgs) (zs @ [zn])"
      using True by (simp add: page_range_loop.simps [of start count zs] Let_def
          j_def pgs_def zn_def nxt0_def)
    have "{start ..< start + pgs} \<inter> all_frames zs = {}"
      using "1.prems"(4) pgs by fastforce
    then have zok: "zones_ok (zs @ [zn])" using "1.prems"(3) nz by (simp add: zones_ok_snoc)
    show ?thesis
    proof (cases "pgs < count")
      case False
      then have "count - pgs = 0" "pgs = count" using pgs by auto
      then show ?thesis using zok nz step by (simp add: page_range_loop.simps [of nxt0 0 "zs @ [zn]"])
    next
      case nlast: True
      note nx = nxt [OF nlast]
      have "{nxt0 ..< nxt0 + (count - pgs)} \<inter> all_frames (zs @ [zn]) = {}"
      proof -
        have "{nxt0 ..< nxt0 + (count - pgs)} \<subseteq> {start ..< start + count}"
          "{nxt0 ..< nxt0 + (count - pgs)} \<inter> {start ..< start + pgs} = {}"
          using nx pgs by auto
        moreover have "all_frames (zs @ [zn]) = all_frames zs \<union> {start ..< start + pgs}"
          using nz(1) by simp
        ultimately show ?thesis using "1.prems"(4) by blast
      qed
      then have "zones_ok (page_range_loop nxt0 (count - pgs) (zs @ [zn])) \<and>
          all_frames (page_range_loop nxt0 (count - pgs) (zs @ [zn])) =
            all_frames (zs @ [zn]) \<union> {nxt0 ..< nxt0 + (count - pgs)} \<and>
          all_free (page_range_loop nxt0 (count - pgs) (zs @ [zn])) =
            all_free (zs @ [zn]) \<union> {nxt0 ..< nxt0 + (count - pgs)}"
        using "1.IH" [OF True j_def pgs_def zn_def] "1.prems"(1) zok nx pgs nxt0_def by simp
      moreover have "{start ..< start + pgs} \<union> {nxt0 ..< nxt0 + (count - pgs)} = {start ..< start + count}"
        using nx pgs by auto
      ultimately show ?thesis unfolding step using nz by auto
    qed
  qed
qed

text \<open>The range in whole pages. The count is \<open>- 1\<close> for a range that lies inside a page.\<close>

lemma page_range_spec:
  fixes base len :: int
  defines "start \<equiv> (base + 4095) div PAGE_SIZE" and "stop \<equiv> (base + len) div PAGE_SIZE"
  assumes "mm_wf st" "0 \<le> base" "0 < len" "base + len < 2 ^ 42" "{start ..< stop} \<inter> mm_frames st = {}"
  shows "\<exists>st'. page_range base len st = Some st' \<and> zones_ok (lzone st') \<and>
    mm_frames st' = mm_frames st \<union> {start ..< stop} \<and> mm_free st' = mm_free st \<union> {start ..< stop} \<and>
    pages_amount st' = pages_amount st + of_int (stop - start) \<and> free_pages st' = free_pages st + (stop - start) \<and>
    (mm_wf st' \<longleftrightarrow> start \<le> stop)"
proof -
  have b: "0 \<le> start" "start < 2 ^ 31" "start - 1 \<le> stop" "stop < 2 ^ 31" using assms(4-6) by (auto simp: start_def stop_def)
  have "ALIGN_DW (len - (ALIGN_UP base PAGE_SIZE - base)) PAGE_SIZE = (stop - start) * PAGE_SIZE"
    using div_mult_self1 [of PAGE_SIZE "base + len" "- start"] by (simp add: start_def stop_def algebra_simps)
  moreover have "ALIGN_UP base PAGE_SIZE = start * PAGE_SIZE" unfolding ALIGN_UP_int_page start_def by simp
  moreover have "to_long32 start = start" "to_long32 (stop - start) = stop - start"
    using b by (auto simp: to_long32_def intro!: signed_take_bit_int_eq_self)
  moreover have "(stop - start) * PAGE_SIZE sdiv PAGE_SIZE = stop - start" "start * PAGE_SIZE sdiv PAGE_SIZE = start"
    by (rule sdiv_exact, simp)+
  ultimately have pr: "page_range base len st =
      Some (st\<lparr>upper_physical_page := max (upper_physical_page st) (of_int (start + (stop - start))),
        pages_amount := pages_amount st + of_int (stop - start), free_pages := free_pages st + (stop - start),
        lzone := page_range_loop start (stop - start) (lzone st)\<rparr>)"
    using assms(4,5) by (simp only: page_range_def Let_def) simp
  let ?zs = "page_range_loop start (stop - start) (lzone st)"
  have z: "zones_ok ?zs" "all_frames ?zs = mm_frames st \<union> {start ..< stop}" "all_free ?zs = mm_free st \<union> {start ..< stop}"
  proof -
    consider "start \<le> stop" | "?zs = lzone st" "{start ..< stop} = {}"
      by (cases "start \<le> stop") (simp_all add: page_range_loop.simps)
    then have "zones_ok ?zs \<and> all_frames ?zs = mm_frames st \<union> {start ..< stop} \<and> all_free ?zs = mm_free st \<union> {start ..< stop}"
      using page_range_loop_spec [OF b(1), of "stop - start" "lzone st"] assms(3,7) by cases (auto simp: mm_wf_def)
    then show "zones_ok ?zs" "all_frames ?zs = mm_frames st \<union> {start ..< stop}" "all_free ?zs = mm_free st \<union> {start ..< stop}" by blast+
  qed
  have "card (mm_free st \<union> {start ..< stop}) = card (mm_free st) + nat (stop - start)"
    using assms(7) all_free_subset [of "lzone st"] by (subst card_Un_disjoint) auto
  then have "free_pages st + (stop - start) = int (card (all_free ?zs)) \<longleftrightarrow> start \<le> stop"
    using assms(3) z(3) by (auto simp: mm_wf_def)
  with pr z show ?thesis by (simp add: mm_wf_def)
qed

subsection \<open>Properties\<close>

text \<open>
  C29: registering a range of memory below 4 GiB that no managed frame lies in returns (the loop that cuts the range into
  zones ends) and makes exactly its whole pages available: every page that lies entirely inside \<open>[base, base + len)\<close> becomes a
  managed and free frame, no other frame changes, and the counters follow. The state is consistent afterwards except when the
  range lies strictly inside one page: then the number of pages is \<open>- 1\<close>, and both counters are decremented although no frame is lost.
\<close>

theorem page_range_correct:
  assumes "mm_ok st" "0 \<le> base" "0 < len" "base + len \<le> 2 ^ 32"
    "{(base + 4095) div PAGE_SIZE ..< (base + len) div PAGE_SIZE} \<inter> mm_frames st = {}"
  shows "\<exists>st'. page_range base len st = Some st' \<and>
    mm_frames st' = mm_frames st \<union> {(base + 4095) div PAGE_SIZE ..< (base + len) div PAGE_SIZE} \<and>
    mm_free st' = mm_free st \<union> {(base + 4095) div PAGE_SIZE ..< (base + len) div PAGE_SIZE} \<and>
    pages_amount st' = pages_amount st + of_int ((base + len) div PAGE_SIZE - (base + 4095) div PAGE_SIZE) \<and>
    free_pages st' = free_pages st + ((base + len) div PAGE_SIZE - (base + 4095) div PAGE_SIZE) \<and>
    (mm_ok st' \<longleftrightarrow> (base + 4095) div PAGE_SIZE \<le> (base + len) div PAGE_SIZE)"
proof -
  have "base + len < 2 ^ 42" "mm_wf st" "mm_frames st \<subseteq> {0 ..< 2 ^ 20}" using assms(1,4) by (simp_all add: mm_ok_def)
  moreover have "{(base + 4095) div PAGE_SIZE ..< (base + len) div PAGE_SIZE} \<subseteq> {0 ..< 2 ^ 20}"
  proof
    fix f assume f: "f \<in> {(base + 4095) div PAGE_SIZE ..< (base + len) div PAGE_SIZE}"
    have "0 \<le> (base + 4095) div PAGE_SIZE" "(base + len) div PAGE_SIZE \<le> 2 ^ 20" using assms(2,4) by auto
    then show "f \<in> {0 ..< 2 ^ 20}" using f by simp
  qed
  ultimately show ?thesis using page_range_spec [OF _ assms(2,3) _ assms(5)] by (auto simp: mm_ok_def)
qed

definition boot_mmu :: kmmu where
  "boot_mmu = \<lparr>upper_physical_page = 0, pages_amount = 0, free_pages = 0, lzone = []\<rparr>"

lemma boot_mmu_ok [simp]:
  "mm_ok boot_mmu" "mm_wf boot_mmu" "mm_frames boot_mmu = {}" "mm_free boot_mmu = {}" "free_pages boot_mmu = 0"
  by (simp_all add: boot_mmu_def mm_ok_def mm_wf_def)

theorem page_range_correct_witness:
  "(\<exists>st'. page_range 100 20000 boot_mmu = Some st' \<and> mm_ok st' \<and> mm_free st' = {1 ..< 4}) \<and>
   (\<exists>st'. page_range 100 20 boot_mmu = Some st' \<and> \<not> mm_ok st' \<and> free_pages st' = - 1)"
  using page_range_correct [of boot_mmu 100 20000] page_range_correct [of boot_mmu 100 20] by auto

text \<open>
  C23: in a consistent state whose frames lie below 4 GiB \<^verbatim>\<open>page_new\<close> returns the address of a frame that was free, marks
  exactly that frame as used and keeps the state consistent; it only fails to return (the
  endless loop at its end) when no frame is free.
\<close>

theorem page_new_correct:
  assumes "mm_ok st"
  shows "case page_new st of
      Some (pg, st') \<Rightarrow> uint pg mod PAGE_SIZE = 0 \<and> uint pg div PAGE_SIZE \<in> mm_free st \<and> mm_ok st' \<and>
        mm_free st' = mm_free st - {uint pg div PAGE_SIZE} \<and> mm_frames st' = mm_frames st
    | None \<Rightarrow> mm_free st = {}"
proof (cases "mm_free st = {}")
  case True
  with pages.alloc_none [OF assms] show ?thesis by simp
next
  case False
  then obtain f st' where f: "page_new st = Some (frame_addr f, st')" "f \<in> mm_free st" "mm_ok st'"
      "mm_free st' = mm_free st - {f}" "mm_frames st' = mm_frames st"
    using page_new_spec [OF assms] by blast
  have "f \<in> {0 ..< 2 ^ 20}" using pages.free_frames [OF assms] pages.small_frames [OF assms] f(2) by blast
  then have "uint (frame_addr f) = f * PAGE_SIZE" by (intro uint_frame_addr) auto
  then show ?thesis using f by simp
qed

definition two_pages :: kmmu where
  "two_pages = boot_mmu\<lparr>pages_amount := 2, free_pages := 2, lzone := [new_zone 1 2]\<rparr>"

lemma two_pages_ok [simp]: "mm_ok two_pages" "mm_free two_pages = {1 ..< 3}" "mm_frames two_pages = {1 ..< 3}"
  using new_zone_spec [of 1 2] zones_ok_snoc [of "[]" "new_zone 1 2"]
  by (simp_all add: two_pages_def mm_ok_def mm_wf_def)

theorem page_new_correct_witness:
  "\<exists>pg st'. page_new two_pages = Some (pg, st') \<and> uint pg div PAGE_SIZE \<in> {1 ..< 3} \<and> mm_free st' = {1 ..< 3} - {uint pg div PAGE_SIZE}"
  using page_new_correct [of two_pages] by (auto split: option.splits)

text \<open>
  C25: when the frames lie below 4 GiB, any number of pages up to the number of free frames can be allocated in a row, and the
  addresses returned are those of free frames and pairwise distinct: no frame and no address is handed out twice.
\<close>

theorem page_new_many_distinct:
  assumes "mm_ok st" "n \<le> card (mm_free st)"
  shows "\<exists>fs st'. pages.alloc_many n st = Some (map frame_addr fs, st') \<and> distinct (map frame_addr fs) \<and>
    mm_ok st' \<and> distinct fs \<and> length fs = n \<and> set fs \<subseteq> mm_free st \<and>
    mm_free st' = mm_free st - set fs \<and> mm_frames st' = mm_frames st"
proof -
  obtain fs st' where a: "pages.alloc_many n st = Some (map frame_addr fs, st')" "mm_ok st'" "distinct fs" "length fs = n"
      "set fs \<subseteq> mm_free st" "mm_free st' = mm_free st - set fs" "mm_frames st' = mm_frames st"
    using pages.alloc_many_distinct [OF assms] by blast
  have "set fs \<subseteq> {0 ..< 2 ^ 20}" using a(5) pages.free_frames [OF assms(1)] pages.small_frames [OF assms(1)] by blast
  then have "inj_on frame_addr (set fs)" by (intro inj_onI) (metis atLeastLessThan_iff mult_cancel_right subsetD uint_frame_addr zero_neq_numeral)
  then show ?thesis using a by (auto simp: distinct_map)
qed

theorem page_new_many_distinct_witness:
  "\<exists>fs st'. pages.alloc_many 2 two_pages = Some (map frame_addr fs, st') \<and>
    mm_ok st' \<and> distinct fs \<and> length fs = 2 \<and> set fs \<subseteq> {1 ..< 3}"
  using page_new_many_distinct [of two_pages 2] by auto

text \<open>
  C27: when the frames lie below 4 GiB, releasing the address of a page that is in use makes exactly its frame free again and keeps the
  state consistent; both asserts of \<^verbatim>\<open>page_release\<close> hold.
\<close>

theorem page_release_correct:
  assumes "mm_ok st" "f \<in> mm_frames st - mm_free st"
  shows "\<exists>st'. page_release (frame_addr f) st = Some st' \<and> mm_ok st' \<and>
    mm_free st' = insert f (mm_free st) \<and> mm_frames st' = mm_frames st"
  by (rule page_release_spec [OF assms])

theorem page_release_correct_witness:
  "\<exists>pg st st'. page_new two_pages = Some (pg, st) \<and> page_release pg st = Some st' \<and> mm_ok st' \<and>
     mm_free st' = {1 ..< 3}"
proof -
  obtain f st where f: "page_new two_pages = Some (frame_addr f, st)" "f \<in> {1 ..< 3}" "mm_ok st"
    "mm_free st = {1 ..< 3} - {f}" "mm_frames st = {1 ..< 3}"
    using page_new_spec [of two_pages] by auto
  then show ?thesis using page_release_correct [of st f] by auto
qed

text \<open>
  Memory above 4 GiB is registered like any other, since the boot code (\<^verbatim>\<open>mboot_memory\<close>) sets no upper limit, but its frames have
  no address of their own. With one page at 4 KiB and one 4 GiB above it, two allocations in a row return the same address.
\<close>

theorem page_new_collides:
  "\<exists>st st' st1 st2 pg. page_range 0x1000 0x1000 boot_mmu = Some st \<and> page_range (2 ^ 32 + 0x1000) 0x1000 st = Some st' \<and>
     page_new st' = Some (pg, st1) \<and> page_new st1 = Some (pg, st2)"
proof -
  obtain st where st: "page_range 0x1000 0x1000 boot_mmu = Some st" "mm_wf st" "mm_frames st = {1}" "mm_free st = {1}"
  proof -
    have "{1 ..< 2} = {1 :: int}" by auto
    then show ?thesis using that page_range_spec [of boot_mmu "0x1000" "0x1000"] by auto
  qed
  obtain st' where st': "page_range (2 ^ 32 + 0x1000) 0x1000 st = Some st'" "mm_wf st'" "mm_free st' = {1, 1 + 2 ^ 20}"
  proof -
    have "{1 + 2 ^ 20 ..< 2 + 2 ^ 20} = {1 + 2 ^ 20 :: int}" by auto
    then show ?thesis using that page_range_spec [OF st(2), of "2 ^ 32 + 0x1000" "0x1000"] st(3,4) by (auto simp: insert_commute)
  qed
  obtain f st1 where f: "page_new st' = Some (frame_addr f, st1)" "f \<in> mm_free st'" "mm_wf st1" "mm_free st1 = mm_free st' - {f}"
    using page_new_wf [OF st'(2)] st'(3) by auto
  have "mm_free st1 \<noteq> {}" using f(2,4) st'(3) by auto
  from page_new_wf [OF f(3) this] obtain g st2 where g: "page_new st1 = Some (frame_addr g, st2)" "g \<in> mm_free st1" by blast
  have "f = 1 \<and> g = 1 + 2 ^ 20 \<or> g = 1 \<and> f = 1 + 2 ^ 20" using f(2,4) g(2) st'(3) by auto
  then have "frame_addr g = frame_addr f" using frame_addr_wraps [of 1] by auto
  then show ?thesis using st(1) st'(1) f(1) g(1) by auto
qed

text \<open>
  The guard of \<^verbatim>\<open>page_release\<close> against a double release is void except on every eighth
  page: releasing a free page of a zone whose bitmap exists succeeds whenever its index in
  the zone is not a multiple of 8, and the free counter of the zone is then one too large.
\<close>

theorem double_release_undetected:
  assumes "zone_ok mz" "mz_ptr mz = Some p" "f \<in> zone_free mz" "nat (f - mz_offset mz) mod 8 \<noteq> 0"
  shows "\<exists>mz'. zone_release f mz = Some mz' \<and> zone_free mz' = zone_free mz \<and>
    mz_free mz' = mz_free mz + 1 \<and> \<not> zone_ok mz'"
proof -
  define k where "k = nat (f - mz_offset mz)"
  define p' where "p' = bitsclr (clr_bit p (k div 8) (k mod 8)) k 1"
  define mz' where "mz' = mz\<lparr>mz_free := mz_free mz + 1, mz_ptr := Some p'\<rparr>"
  have rel: "zone_release f mz = Some mz'"
    using assms(2,4) unfolding zone_release_def mz'_def p'_def k_def bitstest_one by simp
  have "\<not> bit_at p k" using assms(2,3) by (simp add: k_def zone_free_def zone_bitmap_def)
  then have "bit_at p' i \<longleftrightarrow> bit_at p i" for i
    by (cases "i = k") (auto simp: p'_def bit_at_bitsclr)
  then have free: "zone_free mz' = zone_free mz"
    using assms(2) by (simp add: zone_free_def zone_frames_def zone_bitmap_def mz'_def)
  then have "\<not> zone_ok mz'" using assms(1) by (auto simp: zone_ok_def mz'_def)
  with rel free show ?thesis by (simp add: mz'_def)
qed

theorem double_release_undetected_witness:
  "\<exists>p mz'. mz_ptr (new_zone 1 2) = None \<and>
     zone_release 1 ((new_zone 1 2)\<lparr>mz_ptr := Some p\<rparr>) = Some mz' \<and> mz_free mz' = 3"
proof -
  let ?z = "(new_zone 1 2)\<lparr>mz_ptr := Some (fresh_bitmap (new_zone 1 2))\<rparr>"
  have "zone_bitmap ?z = zone_bitmap (new_zone 1 2)" by (simp add: zone_bitmap_def new_zone_nonneg)
  then have "zone_ok ?z" "zone_free ?z = {1 ..< 3}"
    using new_zone_spec [of 1 2] by (simp_all add: zone_ok_def zone_free_def zone_frames_def)
  then show ?thesis
    using double_release_undetected [of ?z "fresh_bitmap (new_zone 1 2)" 1]
    by (auto simp: new_zone_nonneg)
qed

end
