(* ===== verification/BBTree.thy ===== *)
theory BBTree
  imports Prelude
begin

section \<open>Balanced trees as values (\<^verbatim>\<open>src/stdc/bbtree.c\<close>)\<close>

text \<open>
  The AA tree of the kernel as a value: nodes carry the level, the key \<^verbatim>\<open>value_\<close> and the item
  in which the C code embeds the node. The operations follow \<^verbatim>\<open>bbtree.c\<close> rotation by rotation;
  theory \<open>BBHeap\<close> has the code itself, on a heap of nodes with parent links, and shows that it
  computes these functions. The components that index their items by a key (the memory
  areas of an address space) use the trees through the interface \<open>ordered_index\<close>.
\<close>

subsection \<open>Trees and rotations\<close>

datatype ('k, 'a) bbt = Tip | Bin "('k, 'a) bbt" int 'k 'a "('k, 'a) bbt"

fun lvl :: "('k, 'a) bbt \<Rightarrow> int" where
  "lvl Tip = 0"
| "lvl (Bin l v k x r) = v"

fun entries :: "('k, 'a) bbt \<Rightarrow> ('k \<times> 'a) list" where
  "entries Tip = []"
| "entries (Bin l v k x r) = entries l @ (k, x) # entries r"

fun skew :: "('k, 'a) bbt \<Rightarrow> ('k, 'a) bbt" where
  "skew (Bin (Bin a u j y b) v k x c) =
     (if u = v then Bin a u j y (Bin b v k x c) else Bin (Bin a u j y b) v k x c)"
| "skew t = t"

fun split :: "('k, 'a) bbt \<Rightarrow> ('k, 'a) bbt" where
  "split (Bin a v k x (Bin b u j y (Bin c w i z d))) =
     (if w = v then Bin (Bin a v k x b) (u + 1) j y (Bin c w i z d)
      else Bin a v k x (Bin b u j y (Bin c w i z d)))"
| "split t = t"

fun on_right :: "(('k, 'a) bbt \<Rightarrow> ('k, 'a) bbt) \<Rightarrow> ('k, 'a) bbt \<Rightarrow> ('k, 'a) bbt" where
  "on_right f Tip = Tip"
| "on_right f (Bin l v k x r) = Bin l v k x (f r)"

fun cap_lvl :: "int \<Rightarrow> ('k, 'a) bbt \<Rightarrow> ('k, 'a) bbt" where
  "cap_lvl u Tip = Tip"
| "cap_lvl u (Bin l v k x r) = Bin l (if v > u then u else v) k x r"

fun rebalance :: "('k, 'a) bbt \<Rightarrow> ('k, 'a) bbt" where
  "rebalance Tip = Tip"
| "rebalance (Bin l v k x r) =
     (if lvl l < v - 1 \<or> lvl r < v - 1 then
        on_right split (split (on_right (on_right skew) (on_right skew
          (skew (Bin l (v - 1) k x (cap_lvl (v - 1) r))))))
      else Bin l v k x r)"

subsection \<open>Operations\<close>

fun bb_insert :: "'k::linorder \<Rightarrow> 'a \<Rightarrow> ('k, 'a) bbt \<Rightarrow> ('k, 'a) bbt \<times> bool" where
  "bb_insert j y Tip = (Bin Tip 1 j y Tip, True)"
| "bb_insert j y (Bin l v k x r) =
     (if j < k then let (l', ok) = bb_insert j y l in (split (skew (Bin l' v k x r)), ok)
      else if k < j then let (r', ok) = bb_insert j y r in (split (skew (Bin l v k x r')), ok)
      else (Bin l v k x r, False))"

fun del_min :: "('k, 'a) bbt \<Rightarrow> ('k \<times> 'a) \<times> ('k, 'a) bbt" where
  "del_min (Bin Tip v k x r) = ((k, x), r)"
| "del_min (Bin l v k x r) = (let (e, l') = del_min l in (e, rebalance (Bin l' v k x r)))"

fun bb_remove :: "'k::linorder \<Rightarrow> ('k, 'a) bbt \<Rightarrow> ('k, 'a) bbt" where
  "bb_remove j Tip = Tip"
| "bb_remove j (Bin l v k x r) =
     (if j < k then rebalance (Bin (bb_remove j l) v k x r)
      else if k < j then rebalance (Bin l v k x (bb_remove j r))
      else if r = Tip then r
      else let ((k', x'), r') = del_min r in rebalance (Bin l v k' x' r'))"

fun bb_search :: "('k, 'a) bbt \<Rightarrow> 'k::linorder \<Rightarrow> int \<Rightarrow> ('k \<times> 'a) option" where
  "bb_search Tip j accept = None"
| "bb_search (Bin l v k x r) j accept =
     (if k = j then Some (k, x)
      else if k > j then
        let best = bb_search l j accept
        in if accept \<le> 0 \<or> (case best of None \<Rightarrow> False | Some e \<Rightarrow> k > fst e) then best else Some (k, x)
      else
        let best = bb_search r j accept
        in if accept \<ge> 0 \<or> (case best of None \<Rightarrow> False | Some e \<Rightarrow> k < fst e) then best else Some (k, x))"

fun bb_left :: "('k, 'a) bbt \<Rightarrow> ('k \<times> 'a) option" where
  "bb_left Tip = None"
| "bb_left (Bin Tip v k x r) = Some (k, x)"
| "bb_left (Bin l v k x r) = bb_left l"

fun bb_right :: "('k, 'a) bbt \<Rightarrow> ('k \<times> 'a) option" where
  "bb_right Tip = None"
| "bb_right (Bin l v k x Tip) = Some (k, x)"
| "bb_right (Bin l v k x r) = bb_right r"

text \<open>
  The neighbours of a key in the order of the tree; the code follows the parent links of a
  node for it. \<open>bb_modify\<close> stands for an assignment to the item a node is embedded in.
\<close>

fun bb_next :: "('k, 'a) bbt \<Rightarrow> 'k::linorder \<Rightarrow> ('k \<times> 'a) option" where
  "bb_next Tip j = None"
| "bb_next (Bin l v k x r) j =
     (if j < k then (case bb_next l j of None \<Rightarrow> Some (k, x) | Some e \<Rightarrow> Some e) else bb_next r j)"

fun bb_previous :: "('k, 'a) bbt \<Rightarrow> 'k::linorder \<Rightarrow> ('k \<times> 'a) option" where
  "bb_previous Tip j = None"
| "bb_previous (Bin l v k x r) j =
     (if k < j then (case bb_previous r j of None \<Rightarrow> Some (k, x) | Some e \<Rightarrow> Some e) else bb_previous l j)"

fun bb_modify :: "'k::linorder \<Rightarrow> ('a \<Rightarrow> 'a) \<Rightarrow> ('k, 'a) bbt \<Rightarrow> ('k, 'a) bbt" where
  "bb_modify j f Tip = Tip"
| "bb_modify j f (Bin l v k x r) =
     (if j < k then Bin (bb_modify j f l) v k x r
      else if k < j then Bin l v k x (bb_modify j f r)
      else Bin l v k (f x) r)"

subsection \<open>Contents\<close>

abbreviation sorted_keys :: "('k::linorder \<times> 'a) list \<Rightarrow> bool" where
  "sorted_keys es \<equiv> sorted_wrt (<) (map fst es)"

lemma entries_skew [simp]: "entries (skew t) = entries t"
  by (cases t rule: skew.cases) auto

lemma entries_split [simp]: "entries (split t) = entries t"
  by (cases t rule: split.cases) auto

lemma entries_on_right: "(\<And>t. entries (f t) = entries t) \<Longrightarrow> entries (on_right f t) = entries t"
  by (cases t) auto

lemma entries_cap_lvl [simp]: "entries (cap_lvl u t) = entries t"
  by (cases t) auto

lemma entries_rebalance [simp]: "entries (rebalance t) = entries t"
  by (cases t) (auto simp: entries_on_right)

declare rebalance.simps(2) [simp del]

lemma entries_rebalance_Bin [simp]: "entries (rebalance (Bin l v k x r)) = entries l @ (k, x) # entries r"
  by simp

lemma entries_insert:
  "sorted_keys (entries t) \<Longrightarrow> sorted_keys (entries (fst (bb_insert j y t))) \<and>
     snd (bb_insert j y t) = (j \<notin> fst ` set (entries t)) \<and>
     set (entries (fst (bb_insert j y t))) =
       (if j \<in> fst ` set (entries t) then set (entries t) else insert (j, y) (set (entries t)))"
proof (induction t)
  case Tip
  then show ?case by simp
next
  case (Bin l v k x r)
  obtain l' lok where l: "bb_insert j y l = (l', lok)" by fastforce
  obtain r' rok where r: "bb_insert j y r = (r', rok)" by fastforce
  have s: "sorted_keys (entries l)" "sorted_keys (entries r)"
    "\<forall>e\<in>set (entries l). fst e < k" "\<forall>e\<in>set (entries r). k < fst e"
    using Bin.prems by (auto simp: sorted_wrt_append)
  note IHl = Bin.IH(1) [OF s(1), unfolded l fst_conv snd_conv]
    and IHr = Bin.IH(2) [OF s(2), unfolded r fst_conv snd_conv]
  consider "j < k" | "k < j" | "j = k" by fastforce
  then show ?case
  proof cases
    case 1
    then have nr: "j \<notin> fst ` set (entries r)" using s(4) by force
    have "\<forall>e\<in>set (entries l'). fst e < k"
      using IHl s(3) 1 by (cases "j \<in> fst ` set (entries l)") auto
    then have "sorted_keys (entries l' @ (k, x) # entries r)"
      using IHl s Bin.prems by (fastforce simp: sorted_wrt_append)
    with 1 nr IHl l show ?thesis by auto
  next
    case 2
    then have nl: "j \<notin> fst ` set (entries l)" using s(3) by force
    have "\<forall>e\<in>set (entries r'). k < fst e"
      using IHr s(4) 2 by (cases "j \<in> fst ` set (entries r)") auto
    then have "sorted_keys (entries l @ (k, x) # entries r')"
      using IHr s Bin.prems by (fastforce simp: sorted_wrt_append)
    with 2 nl IHr r show ?thesis by auto
  next
    case 3
    with Bin.prems show ?thesis by simp
  qed
qed

lemma entries_del_min:
  "t \<noteq> Tip \<Longrightarrow> del_min t = (e, t') \<Longrightarrow> entries t = e # entries t'"
proof (induction t arbitrary: e t' rule: del_min.induct)
  case (2 a u j y b v k x r)
  obtain e0 l' where l: "del_min (Bin a u j y b) = (e0, l')" by fastforce
  then have "entries (Bin a u j y b) = e0 # entries l'" using 2 by simp
  then show ?case using "2.prems" l by auto
qed auto

subsection \<open>Balance\<close>

fun single :: "('k, 'a) bbt \<Rightarrow> bool" where
  "single Tip = False"
| "single (Bin l v k x r) \<longleftrightarrow> lvl r < v"

fun aa :: "('k, 'a) bbt \<Rightarrow> bool" where
  "aa Tip = True"
| "aa (Bin l v k x r) \<longleftrightarrow> aa l \<and> aa r \<and> lvl l = v - 1 \<and>
     (lvl r = v - 1 \<or> lvl r = v \<and> single r)"

lemma lvl_nonneg: "aa t \<Longrightarrow> 0 \<le> lvl t"
  by (induction t) auto

lemma lvl_pos: "aa (Bin l v k x r) \<Longrightarrow> 0 < v"
  using lvl_nonneg [of l] by simp

lemma lvl_zero: "aa t \<Longrightarrow> lvl t = 0 \<Longrightarrow> t = Tip"
  by (cases t) (use lvl_pos in fastforce)+

lemma skew_aa: "aa t \<Longrightarrow> skew t = t"
  by (cases t rule: skew.cases) auto

lemma split_aa: "aa t \<Longrightarrow> split t = t"
  by (cases t rule: split.cases) auto

lemma insert_aa:
  "aa t \<Longrightarrow> t' = fst (bb_insert j y t) \<Longrightarrow>
     aa t' \<and> (lvl t' = lvl t \<or> lvl t' = lvl t + 1 \<and> single t' \<and> \<not> single t)"
proof (induction t arbitrary: t')
  case (Bin l v k x r)
  obtain l' lok where l: "bb_insert j y l = (l', lok)" by fastforce
  obtain r' rok where r: "bb_insert j y r = (r', rok)" by fastforce
  have L: "aa l' \<and> (lvl l' = v - 1 \<or> lvl l' = v \<and> single l' \<and> \<not> single l)"
    using Bin.IH(1) [of l'] Bin.prems l by auto
  have R: "aa r' \<and> (lvl r' = lvl r \<or> lvl r' = lvl r + 1 \<and> single r' \<and> \<not> single r)"
    using Bin.IH(2) [of r'] Bin.prems r by auto
  consider "j < k" | "k < j" | "\<not> j < k \<and> \<not> k < j" by blast
  then show ?case
  proof cases
    case 1
    then have t': "t' = split (skew (Bin l' v k x r))" using Bin.prems l by simp
    show ?thesis
    proof (cases "lvl l' = v")
      case True
      then obtain a i y' b where "l' = Bin a v i y' b" using L lvl_pos [OF Bin.prems(1)] by (cases l') auto
      then show ?thesis using L True Bin.prems(1) unfolding t' by (cases r) auto
    next
      case False
      then have "aa (Bin l' v k x r)" using L Bin.prems(1) by auto
      then show ?thesis using t' by (simp add: skew_aa split_aa)
    qed
  next
    case 2
    have "skew (Bin l v k x r') = Bin l v k x r'" using Bin.prems(1) by (cases l) auto
    moreover have "\<not> j < k" using 2 by simp
    ultimately have t': "t' = split (Bin l v k x r')" using 2 Bin.prems(2) r by simp
    have ar: "aa r" "lvl l = v - 1" "aa l" "lvl r = v - 1 \<or> lvl r = v \<and> single r" "0 < v"
      using Bin.prems(1) lvl_pos [OF Bin.prems(1)] by simp_all
    show ?thesis
    proof (cases "aa (Bin l v k x r')")
      case True
      then show ?thesis unfolding t' split_aa [OF True] by simp
    next
      case False
      then have nr: "lvl r' = v" "\<not> single r'" using R ar by auto
      then obtain b i z c where r': "r' = Bin b v i z c" using \<open>0 < v\<close> by (cases r') auto
      then have "lvl c = v" "aa c" "lvl b = v - 1" "aa b" using nr R by auto
      moreover from this obtain d m w e where "c = Bin d v m w e" using \<open>0 < v\<close> by (cases c) auto
      moreover have "lvl r = v" using R nr by auto
      ultimately show ?thesis using t' r' ar by simp
    qed
  next
    case 3
    then show ?thesis using Bin.prems by simp
  qed
qed simp

lemma skew_id: "lvl l \<noteq> v \<Longrightarrow> skew (Bin l v k x r) = Bin l v k x r"
  by (cases l) auto

lemma skew_rot: "skew (Bin (Bin a v j y b) v k x c) = Bin a v j y (Bin b v k x c)"
  by simp

lemma cap_lvl_id: "lvl t \<le> u \<Longrightarrow> cap_lvl u t = t"
  by (cases t) auto

lemma split_id: "lvl c \<noteq> v \<Longrightarrow> split (Bin a v k x (Bin b u j y c)) = Bin a v k x (Bin b u j y c)"
  by (cases c) auto

lemma split_rot:
  "lvl c = v \<Longrightarrow> v \<noteq> 0 \<Longrightarrow> split (Bin a v k x (Bin b u j y c)) = Bin (Bin a v k x b) (u + 1) j y c"
  by (cases c) auto

lemma aa_Bin_of_lvl: "lvl t = v \<Longrightarrow> v \<noteq> 0 \<Longrightarrow> \<exists>l k x r. t = Bin l v k x r"
  by (cases t) auto

lemmas rotations = cap_lvl_id skew_id skew_rot split_id split_rot rebalance.simps(2) skew_aa split_aa

definition shrunk :: "('k, 'a) bbt \<Rightarrow> ('k, 'a) bbt \<Rightarrow> bool" where
  "shrunk t t' \<longleftrightarrow> aa t' \<and> (lvl t' = lvl t \<and> (single t \<longrightarrow> single t') \<or> lvl t' = lvl t - 1)"

lemma rebalance_left:
  assumes "aa (Bin l v k x r)" "shrunk l l'"
  shows "shrunk (Bin l v k x r) (rebalance (Bin l' v k' x' r))"
proof (cases "lvl l' = v - 1")
  case True
  then show ?thesis using assms by (auto simp: shrunk_def rebalance.simps)
next
  case False
  then have l': "lvl l' = v - 2" "aa l'" using assms by (auto simp: shrunk_def)
  have v: "2 \<le> v" "lvl l = v - 1" "aa r" using assms(1) l' lvl_nonneg [of l'] by simp_all
  consider "lvl r = v - 1" "single r" | "lvl r = v - 1" "\<not> single r" | "lvl r = v" "single r"
    using assms(1) by auto
  then show ?thesis
  proof cases
    case 1
    then obtain b j y c where r: "r = Bin b (v - 1) j y c" using v aa_Bin_of_lvl by fastforce
    then have "lvl b = v - 2" "lvl c = v - 2" "aa b" "aa c" using v 1 by auto
    then show ?thesis using r v l' by (auto simp: rotations shrunk_def simp del: skew.simps split.simps)
  next
    case 2
    then obtain b j y c where r: "r = Bin b (v - 1) j y c" using v aa_Bin_of_lvl by fastforce
    then have "lvl b = v - 2" "lvl c = v - 1" "single c" "aa b" "aa c" using v 2 by auto
    then show ?thesis using r v l' by (auto simp: rotations shrunk_def simp del: skew.simps split.simps)
  next
    case 3
    then obtain b j y c where r: "r = Bin b v j y c" using v aa_Bin_of_lvl [of r v] by auto
    with 3 v have bc: "lvl b = v - 1" "lvl c = v - 1" "aa b" "aa c" by auto
    then obtain b1 i z b2 c1 m w c2 where b: "b = Bin b1 (v - 1) i z b2" and c: "c = Bin c1 (v - 1) m w c2"
      using v aa_Bin_of_lvl [of b "v - 1"] aa_Bin_of_lvl [of c "v - 1"] by auto
    consider "lvl b2 = v - 2" "lvl c2 = v - 2" | "lvl b2 = v - 2" "lvl c2 = v - 1" "single c2"
      | "lvl b2 = v - 1" "single b2"
      using b c bc by auto
    then show ?thesis
    proof cases
      case 3
      then obtain b21 n u b22 where "b2 = Bin b21 (v - 1) n u b22" using v aa_Bin_of_lvl [of b2 "v - 1"] by auto
      then show ?thesis using r b c bc v l' 3
        by (auto simp: rotations shrunk_def simp del: skew.simps split.simps)
    qed (use r b c bc v l' in \<open>auto simp: rotations shrunk_def simp del: skew.simps split.simps\<close>)
  qed
qed

lemma rebalance_right:
  assumes "aa (Bin l v k x r)" "shrunk r r'"
  shows "shrunk (Bin l v k x r) (rebalance (Bin l v k' x' r'))"
proof (cases "lvl r' < v - 1")
  case False
  then show ?thesis using assms by (auto simp: shrunk_def rebalance.simps)
next
  case True
  then have r': "lvl r' = v - 2" "aa r'" "2 \<le> v" using assms lvl_nonneg [of r'] by (auto simp: shrunk_def)
  then obtain a j y b where l: "l = Bin a (v - 1) j y b"
    using assms(1) aa_Bin_of_lvl [of l "v - 1"] by auto
  then have ab: "lvl a = v - 2" "aa a" "aa b" "lvl b = v - 2 \<or> lvl b = v - 1 \<and> single b" using assms(1) by auto
  from ab(4) show ?thesis
  proof
    assume b: "lvl b = v - 1 \<and> single b"
    then obtain b1 i z b2 where "b = Bin b1 (v - 1) i z b2" using r'(3) aa_Bin_of_lvl [of b "v - 1"] by auto
    then show ?thesis using ab r' l b assms(1)
      by (auto simp: rotations shrunk_def simp del: skew.simps split.simps)
  qed (use ab r' l assms(1) in \<open>auto simp: rotations shrunk_def simp del: skew.simps split.simps\<close>)
qed

lemma del_min_aa:
  "aa t \<Longrightarrow> t \<noteq> Tip \<Longrightarrow> del_min t = (e, t') \<Longrightarrow> shrunk t t'"
proof (induction t arbitrary: e t' rule: del_min.induct)
  case (2 a u j y b v k x r)
  obtain l' where l: "del_min (Bin a u j y b) = (e, l')" "t' = rebalance (Bin l' v k x r)"
    using "2.prems"(3) by (auto split: prod.splits)
  have "aa (Bin a u j y b)" using "2.prems"(1) by (simp only: aa.simps)
  then have "shrunk (Bin a u j y b) l'" by (rule "2.IH") (use l in auto)
  then show ?case unfolding l(2) by (rule rebalance_left [OF "2.prems"(1)])
qed (auto simp: shrunk_def)

lemma remove_aa: "aa t \<Longrightarrow> shrunk t (bb_remove j t)"
proof (induction t)
  case (Bin l v k x r)
  show ?case
  proof (cases "j < k \<or> k < j")
    case True
    then show ?thesis using Bin by (auto intro: rebalance_left rebalance_right)
  next
    case False
    show ?thesis
    proof (cases "r = Tip")
      case True
      then have "v = 1" using Bin.prems by auto
      then show ?thesis using Bin.prems True False by (simp add: shrunk_def)
    next
      case rn: False
      obtain e r' where m: "del_min r = (e, r')" by fastforce
      have "aa r" using Bin.prems by simp
      then have "shrunk r r'" using m rn by (rule_tac del_min_aa)
      then show ?thesis using Bin.prems rn False m
        by (cases e) (auto intro: rebalance_right)
    qed
  qed
qed (simp add: shrunk_def)

lemma entries_remove:
  "aa t \<Longrightarrow> sorted_keys (entries t) \<Longrightarrow> entries (bb_remove j t) = filter (\<lambda>e. fst e \<noteq> j) (entries t)"
proof (induction t)
  case Tip
  then show ?case by simp
next
  case (Bin l v k x r)
  have s: "sorted_keys (entries l)" "sorted_keys (entries r)"
    "\<forall>e\<in>set (entries l). fst e < k" "\<forall>e\<in>set (entries r). k < fst e"
    using Bin.prems by (auto simp: sorted_wrt_append)
  have L: "filter (\<lambda>e. fst e \<noteq> j) (entries l) = entries l" if "k \<le> j"
    using that s(3) by (auto simp: filter_id_conv)
  have R: "filter (\<lambda>e. fst e \<noteq> j) (entries r) = entries r" if "j \<le> k"
    using that s(4) by (auto simp: filter_id_conv)
  consider "j < k" | "k < j" | "j = k" by fastforce
  then show ?case
  proof cases
    case 3
    show ?thesis
    proof (cases "r = Tip")
      case False
      obtain e r' where m: "del_min r = (e, r')" by fastforce
      then have "entries r = e # entries r'" using entries_del_min False by blast
      with 3 False m L R show ?thesis by (cases e) simp
    next
      case True
      then have "l = Tip" using Bin.prems(1) by (auto intro: lvl_zero)
      with True 3 show ?thesis by simp
    qed
  next
    case 1
    then show ?thesis using Bin.IH(1) Bin.prems(1) s R by simp
  next
    case 2
    then have "k \<noteq> j" "\<not> j < k" by auto
    then show ?thesis using 2 Bin.IH(2) Bin.prems(1) s L by simp
  qed
qed

subsection \<open>Searching\<close>

definition le_spec :: "('k::linorder \<times> 'a) set \<Rightarrow> 'k \<Rightarrow> ('k \<times> 'a) option \<Rightarrow> bool" where
  "le_spec es j res \<longleftrightarrow> (case res of None \<Rightarrow> \<forall>e\<in>es. j < fst e
     | Some e \<Rightarrow> e \<in> es \<and> fst e \<le> j \<and> (\<forall>e'\<in>es. fst e' \<le> j \<longrightarrow> fst e' \<le> fst e))"

definition ge_spec :: "('k::linorder \<times> 'a) set \<Rightarrow> 'k \<Rightarrow> ('k \<times> 'a) option \<Rightarrow> bool" where
  "ge_spec es j res \<longleftrightarrow> (case res of None \<Rightarrow> \<forall>e\<in>es. fst e < j
     | Some e \<Rightarrow> e \<in> es \<and> j \<le> fst e \<and> (\<forall>e'\<in>es. j \<le> fst e' \<longrightarrow> fst e \<le> fst e'))"

definition eq_spec :: "('k \<times> 'a) set \<Rightarrow> 'k \<Rightarrow> ('k \<times> 'a) option \<Rightarrow> bool" where
  "eq_spec es j res \<longleftrightarrow> (case res of None \<Rightarrow> \<forall>e\<in>es. fst e \<noteq> j
     | Some e \<Rightarrow> e \<in> es \<and> fst e = j)"

lemma bb_search_eq:
  "sorted_keys (entries t) \<Longrightarrow> eq_spec (set (entries t)) j (bb_search t j 0)"
proof (induction t)
  case (Bin l v k x r)
  then show ?case
    by (cases "k = j"; cases "j < k") (fastforce simp: eq_spec_def sorted_wrt_append split: option.splits)+
qed (simp add: eq_spec_def)

lemma bb_search_le:
  "sorted_keys (entries t) \<Longrightarrow> accept < 0 \<Longrightarrow> le_spec (set (entries t)) j (bb_search t j accept)"
proof (induction t)
  case (Bin l v k x r)
  have s: "sorted_keys (entries l)" "sorted_keys (entries r)"
    "\<forall>e\<in>set (entries l). fst e < k" "\<forall>e\<in>set (entries r). k < fst e"
    using Bin.prems(1) by (auto simp: sorted_wrt_append)
  consider "k = j" | "j < k" | "k < j" by fastforce
  then show ?case
  proof cases
    case 1
    then show ?thesis using s by (auto simp: le_spec_def)
  next
    case 2
    then show ?thesis using Bin.IH(1) [OF s(1) Bin.prems(2)] s Bin.prems(2)
      by (fastforce simp: le_spec_def split: option.splits)
  next
    case 3
    then show ?thesis using Bin.IH(2) [OF s(2) Bin.prems(2)] s Bin.prems(2)
      by (fastforce simp: le_spec_def split: option.splits)
  qed
qed (simp add: le_spec_def)

lemma bb_search_ge:
  "sorted_keys (entries t) \<Longrightarrow> accept > 0 \<Longrightarrow> ge_spec (set (entries t)) j (bb_search t j accept)"
proof (induction t)
  case (Bin l v k x r)
  have s: "sorted_keys (entries l)" "sorted_keys (entries r)"
    "\<forall>e\<in>set (entries l). fst e < k" "\<forall>e\<in>set (entries r). k < fst e"
    using Bin.prems(1) by (auto simp: sorted_wrt_append)
  consider "k = j" | "j < k" | "k < j" by fastforce
  then show ?case
  proof cases
    case 1
    then show ?thesis using s by (auto simp: ge_spec_def)
  next
    case 2
    then show ?thesis using Bin.IH(1) [OF s(1) Bin.prems(2)] s Bin.prems(2)
      by (fastforce simp: ge_spec_def split: option.splits)
  next
    case 3
    then show ?thesis using Bin.IH(2) [OF s(2) Bin.prems(2)] s Bin.prems(2)
      by (fastforce simp: ge_spec_def split: option.splits)
  qed
qed (simp add: ge_spec_def)

lemma bb_left_hd: "bb_left t = (if entries t = [] then None else Some (hd (entries t)))"
proof (induction t rule: bb_left.induct)
  case (3 a u j y b v k x r)
  have "hd (entries (Bin (Bin a u j y b) v k x r)) = hd (entries (Bin a u j y b))"
    by (simp add: hd_append)
  with 3 show ?case by simp
qed simp_all

lemma bb_left_entries: "bb_left t = (case entries t of [] \<Rightarrow> None | e # _ \<Rightarrow> Some e)"
  by (cases "entries t") (simp_all add: bb_left_hd)

lemma bb_right_entries: "bb_right t = (if entries t = [] then None else Some (last (entries t)))"
  by (induction t rule: bb_right.induct) auto

lemma bb_next_entries:
  "sorted_keys (entries t) \<Longrightarrow> bb_next t j = find (\<lambda>e. j < fst e) (entries t)"
proof (induction t)
  case (Bin l v k x r)
  have find_app: "find P (xs @ ys) = (case find P xs of None \<Rightarrow> find P ys | Some e \<Rightarrow> Some e)"
    for P and xs ys :: "('a \<times> 'b) list" by (induction xs) auto
  have "find (\<lambda>e. j < fst e) (entries l) = None" if "k \<le> j"
    using that Bin.prems by (fastforce simp: find_None_iff sorted_wrt_append)
  with Bin show ?case by (auto simp: find_app sorted_wrt_append split: option.splits)
qed simp

lemma bb_previous_entries:
  "sorted_keys (entries t) \<Longrightarrow> bb_previous t j = find (\<lambda>e. fst e < j) (rev (entries t))"
proof (induction t)
  case (Bin l v k x r)
  have find_app: "find P (xs @ ys) = (case find P xs of None \<Rightarrow> find P ys | Some e \<Rightarrow> Some e)"
    for P and xs ys :: "('a \<times> 'b) list" by (induction xs) auto
  have "find (\<lambda>e. fst e < j) (rev (entries r)) = None" if "j \<le> k"
    using that Bin.prems by (fastforce simp: find_None_iff sorted_wrt_append)
  with Bin show ?case by (auto simp: find_app sorted_wrt_append split: option.splits)
qed simp

lemma entries_modify:
  "sorted_keys (entries t) \<Longrightarrow>
     entries (bb_modify j f t) = map (\<lambda>(k, x). (k, if k = j then f x else x)) (entries t)"
proof (induction t)
  case (Bin l v k x r)
  have s: "sorted_keys (entries l)" "sorted_keys (entries r)"
    "\<forall>e\<in>set (entries l). fst e < k" "\<forall>e\<in>set (entries r). k < fst e"
    using Bin.prems by (auto simp: sorted_wrt_append)
  have "map (\<lambda>(k, x). (k, if k = j then f x else x)) (entries l) = entries l" if "k \<le> j"
    using that s(3) by (force intro!: map_idI)
  moreover have "map (\<lambda>(k, x). (k, if k = j then f x else x)) (entries r) = entries r" if "j \<le> k"
    using that s(4) by (force intro!: map_idI)
  ultimately show ?case using Bin.IH s by auto
qed simp

lemma lvl_modify [simp]: "lvl (bb_modify j f t) = lvl t"
  by (cases t) auto

lemma aa_modify: "aa t \<Longrightarrow> aa (bb_modify j f t)"
proof (induction t)
  case (Bin l v k x r)
  have "single (bb_modify j f r) = single r" by (cases r) auto
  with Bin show ?case by auto
qed simp

subsection \<open>The interface of an ordered index\<close>

text \<open>
  What a component relies on when it keeps items ordered by a key: the items as a list with
  strictly increasing keys, and the effect of every operation on that list.
\<close>

locale ordered_index =
  fixes inv :: "'t \<Rightarrow> bool"
    and items :: "'t \<Rightarrow> ('k::linorder \<times> 'a) list"
    and empty :: 't
    and ins :: "'k \<Rightarrow> 'a \<Rightarrow> 't \<Rightarrow> 't \<times> bool"
    and del :: "'k \<Rightarrow> 't \<Rightarrow> 't"
    and modify :: "'k \<Rightarrow> ('a \<Rightarrow> 'a) \<Rightarrow> 't \<Rightarrow> 't"
    and search :: "'t \<Rightarrow> 'k \<Rightarrow> int \<Rightarrow> ('k \<times> 'a) option"
    and first :: "'t \<Rightarrow> ('k \<times> 'a) option"
    and next_of :: "'t \<Rightarrow> 'k \<Rightarrow> ('k \<times> 'a) option"
  assumes inv_empty: "inv empty" and items_empty: "items empty = []"
    and sorted_items: "inv t \<Longrightarrow> sorted_keys (items t)"
    and ins_inv: "inv t \<Longrightarrow> inv (fst (ins k x t))"
    and ins_ok: "inv t \<Longrightarrow> snd (ins k x t) \<longleftrightarrow> k \<notin> fst ` set (items t)"
    and ins_items: "inv t \<Longrightarrow> k \<notin> fst ` set (items t) \<Longrightarrow>
      set (items (fst (ins k x t))) = insert (k, x) (set (items t))"
    and del_inv: "inv t \<Longrightarrow> inv (del k t)"
    and del_items: "inv t \<Longrightarrow> items (del k t) = filter (\<lambda>e. fst e \<noteq> k) (items t)"
    and modify_inv: "inv t \<Longrightarrow> inv (modify k f t)"
    and modify_items: "inv t \<Longrightarrow>
      items (modify k f t) = map (\<lambda>(j, x). (j, if j = k then f x else x)) (items t)"
    and search_eq: "inv t \<Longrightarrow> eq_spec (set (items t)) k (search t k 0)"
    and search_le: "inv t \<Longrightarrow> accept < 0 \<Longrightarrow> le_spec (set (items t)) k (search t k accept)"
    and search_ge: "inv t \<Longrightarrow> accept > 0 \<Longrightarrow> ge_spec (set (items t)) k (search t k accept)"
    and first_items: "inv t \<Longrightarrow> first t = (case items t of [] \<Rightarrow> None | e # _ \<Rightarrow> Some e)"
    and next_items: "inv t \<Longrightarrow> next_of t k = find (\<lambda>e. k < fst e) (items t)"
begin

definition lookup :: "'t \<Rightarrow> 'k \<rightharpoonup> 'a" where
  "lookup t = map_of (items t)"

lemma distinct_items: "inv t \<Longrightarrow> distinct (map fst (items t))"
  using sorted_items strict_sorted_iff by (auto simp: strict_sorted_iff)

lemma lookup_iff: "inv t \<Longrightarrow> lookup t k = Some x \<longleftrightarrow> (k, x) \<in> set (items t)"
  by (simp add: lookup_def map_of_eq_Some_iff distinct_items)

lemma lookup_None: "lookup t k = None \<longleftrightarrow> k \<notin> fst ` set (items t)"
  by (simp add: lookup_def map_of_eq_None_iff)

lemma lookup_ins: "inv t \<Longrightarrow> lookup t k = None \<Longrightarrow> lookup (fst (ins k x t)) = (lookup t)(k \<mapsto> x)"
proof (rule ext)
  fix j assume t: "inv t" "lookup t k = None"
  then have "(j, y) \<in> set (items (fst (ins k x t))) \<longleftrightarrow> (j, y) = (k, x) \<or> (j, y) \<in> set (items t)" for y
    using ins_items by (simp add: lookup_None)
  moreover have "(k, y) \<notin> set (items t)" for y using t(2) by (force simp: lookup_None)
  ultimately have "lookup (fst (ins k x t)) j = Some y \<longleftrightarrow> ((lookup t)(k \<mapsto> x)) j = Some y" for y
    using t ins_inv lookup_iff [of t] lookup_iff [of "fst (ins k x t)"] by (cases "j = k") auto
  then show "lookup (fst (ins k x t)) j = ((lookup t)(k \<mapsto> x)) j"
    by (metis option.exhaust)
qed

lemma lookup_del: "inv t \<Longrightarrow> lookup (del k t) = (lookup t)(k := None)"
proof (rule ext)
  fix j assume t: "inv t"
  then have "lookup (del k t) j = Some y \<longleftrightarrow> ((lookup t)(k := None)) j = Some y" for y
    using del_inv lookup_iff [of t] lookup_iff [of "del k t"] by (auto simp: del_items)
  then show "lookup (del k t) j = ((lookup t)(k := None)) j"
    by (metis option.exhaust)
qed

lemma next_of_split:
  assumes "inv t" "items t = xs @ (k, x) # ys"
  shows "next_of t k = (case ys of [] \<Rightarrow> None | e # _ \<Rightarrow> Some e)"
proof -
  have "sorted_keys (xs @ (k, x) # ys)" using sorted_items [OF assms(1)] assms(2) by simp
  then have "\<forall>e\<in>set xs. \<not> k < fst e" "\<forall>e\<in>set ys. k < fst e"
    by (fastforce simp: sorted_wrt_append)+
  then have "find (\<lambda>e. k < fst e) xs = None" "find (\<lambda>e. k < fst e) ys = (case ys of [] \<Rightarrow> None | e # _ \<Rightarrow> Some e)"
    by (auto simp: find_None_iff split: list.splits)
  moreover have "find (\<lambda>e. k < fst e) (xs @ (k, x) # ys) =
      (case find (\<lambda>e. k < fst e) xs of None \<Rightarrow> find (\<lambda>e. k < fst e) ys | Some e \<Rightarrow> Some e)"
    by (induction xs) auto
  ultimately show ?thesis using next_items [OF assms(1)] assms(2) by simp
qed

end

definition bb_inv :: "('k::linorder, 'a) bbt \<Rightarrow> bool" where
  "bb_inv t \<longleftrightarrow> aa t \<and> sorted_keys (entries t)"

lemma bb_inv_insert: "bb_inv t \<Longrightarrow> bb_inv (fst (bb_insert k x t))"
  using insert_aa [OF _ refl, of t k x] entries_insert [of t k x] by (simp add: bb_inv_def)

lemma bb_inv_remove: "bb_inv t \<Longrightarrow> bb_inv (bb_remove k t)"
  using remove_aa [of t k]
  by (simp add: bb_inv_def entries_remove shrunk_def sorted_wrt_map sorted_wrt_filter)

lemma bb_inv_modify: "bb_inv t \<Longrightarrow> bb_inv (bb_modify k f t)"
  by (simp add: bb_inv_def aa_modify entries_modify comp_def case_prod_beta)

interpretation bb: ordered_index bb_inv entries Tip bb_insert bb_remove bb_modify bb_search bb_left bb_next
proof (unfold_locales, goal_cases)
  case 4 then show ?case by (rule bb_inv_insert)
next
  case 7 then show ?case by (rule bb_inv_remove)
next
  case 9 then show ?case by (rule bb_inv_modify)
qed (simp_all add: bb_inv_def entries_insert entries_remove entries_modify bb_search_eq bb_search_le
    bb_search_ge bb_left_entries bb_next_entries)

end
