(* ===== verification/BBHeap.thy ===== *)
theory BBHeap
  imports BBTree "HOL-Library.Multiset"
begin

section \<open>Balanced trees in the heap (\<^verbatim>\<open>src/stdc/bbtree.c\<close>)\<close>

text \<open>
  The code of \<^verbatim>\<open>bbtree.c\<close> on a heap of nodes: every assignment of the source is one update of
  the heap, in the order of the source. Addresses are natural numbers and address 0 is the
  sentinel \<^verbatim>\<open>_NIL\<close>, whose \<^verbatim>\<open>parent_\<close> field the code overwrites freely; a null pointer is \<open>None\<close>
  inside the result. The outer \<open>None\<close> is a run that does not return (an endless loop, or a
  failed \<^verbatim>\<open>assert\<close>). A predicate relates a heap to a tree of theory \<open>BBTree\<close> whose
  items are the addresses of the nodes, and each function is shown to compute the
  operation of that theory.
\<close>

subsection \<open>Nodes\<close>

record bbnode =
  bbn_parent :: nat
  bbn_left :: nat
  bbn_right :: nat
  bbn_value :: size_t
  bbn_level :: int

type_synonym bbheap = "nat \<Rightarrow> bbnode"

record bbtree =
  bbt_root :: nat
  bbt_count :: int

abbreviation NIL :: nat where
  "NIL \<equiv> 0"

definition set_parent :: "nat \<Rightarrow> nat \<Rightarrow> bbheap \<Rightarrow> bbheap" where
  "set_parent n p h = h(n := (h n)\<lparr>bbn_parent := p\<rparr>)"

definition set_left :: "nat \<Rightarrow> nat \<Rightarrow> bbheap \<Rightarrow> bbheap" where
  "set_left n p h = h(n := (h n)\<lparr>bbn_left := p\<rparr>)"

definition set_right :: "nat \<Rightarrow> nat \<Rightarrow> bbheap \<Rightarrow> bbheap" where
  "set_right n p h = h(n := (h n)\<lparr>bbn_right := p\<rparr>)"

definition set_level :: "nat \<Rightarrow> int \<Rightarrow> bbheap \<Rightarrow> bbheap" where
  "set_level n v h = h(n := (h n)\<lparr>bbn_level := v\<rparr>)"

lemma heap_fields [heap_simps, simp]:
  "bbn_parent (set_parent n p h m) = (if m = n then p else bbn_parent (h m))"
  "bbn_left (set_parent n p h m) = bbn_left (h m)"
  "bbn_right (set_parent n p h m) = bbn_right (h m)"
  "bbn_value (set_parent n p h m) = bbn_value (h m)"
  "bbn_level (set_parent n p h m) = bbn_level (h m)"
  "bbn_parent (set_left n p h m) = bbn_parent (h m)"
  "bbn_left (set_left n p h m) = (if m = n then p else bbn_left (h m))"
  "bbn_right (set_left n p h m) = bbn_right (h m)"
  "bbn_value (set_left n p h m) = bbn_value (h m)"
  "bbn_level (set_left n p h m) = bbn_level (h m)"
  "bbn_parent (set_right n p h m) = bbn_parent (h m)"
  "bbn_left (set_right n p h m) = bbn_left (h m)"
  "bbn_right (set_right n p h m) = (if m = n then p else bbn_right (h m))"
  "bbn_value (set_right n p h m) = bbn_value (h m)"
  "bbn_level (set_right n p h m) = bbn_level (h m)"
  "bbn_parent (set_level n v h m) = bbn_parent (h m)"
  "bbn_left (set_level n v h m) = bbn_left (h m)"
  "bbn_right (set_level n v h m) = bbn_right (h m)"
  "bbn_value (set_level n v h m) = bbn_value (h m)"
  "bbn_level (set_level n v h m) = (if m = n then v else bbn_level (h m))"
  by (simp_all add: set_parent_def set_left_def set_right_def set_level_def)

lemma heap_others:
  "m \<noteq> n \<Longrightarrow> set_parent n p h m = h m"
  "m \<noteq> n \<Longrightarrow> set_left n p h m = h m"
  "m \<noteq> n \<Longrightarrow> set_right n p h m = h m"
  "m \<noteq> n \<Longrightarrow> set_level n v h m = h m"
  by (simp_all add: set_parent_def set_left_def set_right_def set_level_def)

subsection \<open>The code\<close>

definition bbtree_init :: bbtree where
  "bbtree_init = \<lparr>bbt_root = NIL, bbt_count = 0\<rparr>"

definition bbtree_skew :: "bbheap \<Rightarrow> nat \<Rightarrow> bbheap \<times> nat" where
  "bbtree_skew h node =
     (if node = NIL \<or> bbn_level (h (bbn_left (h node))) \<noteq> bbn_level (h node) then (h, node)
      else
        let parent = bbn_parent (h node);
            temp = bbn_left (h node);
            h = set_left node (bbn_right (h temp)) h;
            h = set_parent (bbn_left (h node)) node h;
            h = set_right temp node h;
            h = set_parent node temp h;
            h = set_parent temp parent h
        in (h, temp))"

definition bbtree_split :: "bbheap \<Rightarrow> nat \<Rightarrow> bbheap \<times> nat" where
  "bbtree_split h node =
     (if node = NIL \<or> bbn_level (h (bbn_right (h (bbn_right (h node))))) \<noteq> bbn_level (h node) then (h, node)
      else
        let parent = bbn_parent (h node);
            temp = bbn_right (h node);
            h = set_right node (bbn_left (h temp)) h;
            h = set_parent (bbn_right (h node)) node h;
            h = set_left temp node h;
            h = set_parent node temp h;
            h = set_level temp (bbn_level (h temp) + 1) h;
            h = set_parent temp parent h
        in (h, temp))"

partial_function (option) bbtree_insert' :: "bbheap \<Rightarrow> nat \<Rightarrow> nat \<Rightarrow> (bbheap \<times> nat \<times> bool) option" where
  "bbtree_insert' h root node =
     (if root = NIL then
        let h = set_level node 1 h;
            h = set_left node NIL h;
            h = set_right node NIL h;
            h = set_parent node NIL h
        in Some (h, node, True)
      else if bbn_value (h node) < bbn_value (h root) then
        do { (h, n, ok) \<leftarrow> bbtree_insert' h (bbn_left (h root)) node;
             let h = set_left root n h;
                 h = set_parent (bbn_left (h root)) root h;
                 (h, root) = bbtree_skew h root;
                 (h, root) = bbtree_split h root
             in Some (h, root, ok) }
      else if bbn_value (h node) > bbn_value (h root) then
        do { (h, n, ok) \<leftarrow> bbtree_insert' h (bbn_right (h root)) node;
             let h = set_right root n h;
                 h = set_parent (bbn_right (h root)) root h;
                 (h, root) = bbtree_skew h root;
                 (h, root) = bbtree_split h root
             in Some (h, root, ok) }
      else Some (h, root, False))"

definition bbtree_rebalance :: "bbheap \<Rightarrow> nat \<Rightarrow> bbheap \<times> nat" where
  "bbtree_rebalance h root =
     (if bbn_level (h (bbn_left (h root))) < bbn_level (h root) - 1 \<or>
         bbn_level (h (bbn_right (h root))) < bbn_level (h root) - 1 then
        let h = set_level root (bbn_level (h root) - 1) h;
            h = (if bbn_level (h (bbn_right (h root))) > bbn_level (h root)
                 then set_level (bbn_right (h root)) (bbn_level (h root)) h else h);
            (h, root) = bbtree_skew h root;
            (h, n) = bbtree_skew h (bbn_right (h root));
            h = set_right root n h;
            (h, n) = bbtree_skew h (bbn_right (h (bbn_right (h root))));
            h = set_right (bbn_right (h root)) n h;
            (h, root) = bbtree_split h root;
            (h, n) = bbtree_split h (bbn_right (h root));
            h = set_right root n h
        in (h, root)
      else (h, root))"

partial_function (option) bbtree_check :: "bbheap \<Rightarrow> nat \<Rightarrow> int option" where
  "bbtree_check h node =
     do { count \<leftarrow> (if bbn_left (h node) \<noteq> NIL then
              if bbn_parent (h (bbn_left (h node))) \<noteq> node then Some (- 1)
              else do { ret \<leftarrow> bbtree_check h (bbn_left (h node));
                        Some (if ret < 0 then - 1 else 1 + ret) }
            else Some 1);
          if count < 0 then Some (- 1) else
          do { count \<leftarrow> (if bbn_right (h node) \<noteq> NIL then
                  if bbn_parent (h (bbn_right (h node))) \<noteq> node then Some (- 1)
                  else do { ret \<leftarrow> bbtree_check h (bbn_right (h node));
                            Some (if ret < 0 then - 1 else count + ret) }
                else Some count);
               if count < 0 then Some (- 1)
               else if bbn_left (h node) \<noteq> NIL \<and> bbn_right (h node) \<noteq> NIL \<and>
                  (bbn_level (h node) = 1 \<or>
                   bbn_level (h node) - 1 \<noteq> (bbn_level (h (bbn_left (h node))) + bbn_level (h (bbn_right (h node)))) div 2 \<or>
                   bbn_level (h (bbn_left (h node))) > bbn_level (h (bbn_right (h node))))
               then Some (- 1)
               else Some count } }"

record bbrm =
  rm_last :: nat
  rm_deleted :: nat

definition swap_last :: "bbheap \<Rightarrow> nat \<Rightarrow> nat \<Rightarrow> bbheap" where
  "swap_last h d m =
     (let parent = bbn_parent (h d);
          left = bbn_left (h d);
          right = bbn_right (h d);
          h = set_level m (bbn_level (h d)) h;
          h = set_parent m parent h;
          h = set_left m left h;
          h = set_right m right h;
          h = set_parent (bbn_left (h m)) m h;
          h = set_parent (bbn_right (h m)) m h
      in if parent \<noteq> NIL then
           if bbn_left (h parent) = d then set_left parent m h else set_right parent m h
         else h)"

partial_function (option) bbtree_remove' ::
    "bbheap \<Rightarrow> nat \<Rightarrow> size_t \<Rightarrow> bbrm \<Rightarrow> (bbheap \<times> nat \<times> bbrm \<times> bool) option" where
  "bbtree_remove' h root value del =
     (if root = NIL then Some (h, NIL, del, False)
      else
        let del = del\<lparr>rm_last := root\<rparr> in
        do { (h, del, ok) \<leftarrow>
               (if value < bbn_value (h root) then
                  do { (h, n, del, ok) \<leftarrow> bbtree_remove' h (bbn_left (h root)) value del;
                       let h = set_left root n h;
                           h = set_parent (bbn_left (h root)) root h
                       in Some (h, del, ok) }
                else
                  let del = del\<lparr>rm_deleted := root\<rparr> in
                  do { (h, n, del, ok) \<leftarrow> bbtree_remove' h (bbn_right (h root)) value del;
                       let h = set_right root n h;
                           h = set_parent (bbn_right (h root)) root h
                       in Some (h, del, ok) });
             if rm_last del = root \<and> rm_deleted del \<noteq> NIL \<and> bbn_value (h (rm_deleted del)) = value then
               Some (set_parent (bbn_right (h root)) (bbn_parent (h root)) h, bbn_right (h root), del, True)
             else
               let node = root; (h, root) = bbtree_rebalance h root in
               do { _ \<leftarrow> bbtree_check h root;
                    if node \<noteq> rm_deleted del then Some (h, root, del, ok)
                    else
                      if \<not> (bbn_left (h (rm_last del)) = NIL \<and> rm_last del \<noteq> NIL) then None
                      else
                        let h = swap_last h (rm_deleted del) (rm_last del);
                            root = (if root = rm_deleted del then rm_last del else root)
                        in do { _ \<leftarrow> bbtree_check h root; Some (h, root, del, ok) } } })"

definition bbtree_insert :: "bbheap \<Rightarrow> bbtree \<Rightarrow> nat \<Rightarrow> (bbheap \<times> bbtree \<times> int) option" where
  "bbtree_insert h tree node =
     do { (h, n, ok) \<leftarrow> bbtree_insert' h (bbt_root tree) node;
          let tree = tree\<lparr>bbt_root := n\<rparr>
          in Some (if ok then (h, tree\<lparr>bbt_count := bbt_count tree + 1\<rparr>, 0) else (h, tree, - 1)) }"

definition bbtree_remove :: "bbheap \<Rightarrow> bbtree \<Rightarrow> size_t \<Rightarrow> (bbheap \<times> bbtree \<times> int) option" where
  "bbtree_remove h tree value =
     do { (h, n, del, ok) \<leftarrow> bbtree_remove' h (bbt_root tree) value \<lparr>rm_last = NIL, rm_deleted = NIL\<rparr>;
          let tree = tree\<lparr>bbt_root := n\<rparr>
          in Some (if ok then (h, tree\<lparr>bbt_count := bbt_count tree - 1\<rparr>, 0) else (h, tree, - 1)) }"

partial_function (option) leftmost :: "bbheap \<Rightarrow> nat \<Rightarrow> nat option" where
  "leftmost h node = (if bbn_left (h node) \<noteq> NIL then leftmost h (bbn_left (h node)) else Some node)"

partial_function (option) rightmost :: "bbheap \<Rightarrow> nat \<Rightarrow> nat option" where
  "rightmost h node = (if bbn_right (h node) \<noteq> NIL then rightmost h (bbn_right (h node)) else Some node)"

definition bbtree_left' :: "bbheap \<Rightarrow> nat \<Rightarrow> nat option option" where
  "bbtree_left' h node = (if node = NIL then Some None else do { n \<leftarrow> leftmost h node; Some (Some n) })"

definition bbtree_right' :: "bbheap \<Rightarrow> nat \<Rightarrow> nat option option" where
  "bbtree_right' h node = (if node = NIL then Some None else do { n \<leftarrow> rightmost h node; Some (Some n) })"

partial_function (option) climb_next :: "bbheap \<Rightarrow> nat \<Rightarrow> nat option option" where
  "climb_next h root =
     (if bbn_parent (h root) \<noteq> NIL then
        if bbn_right (h (bbn_parent (h root))) \<noteq> root then Some (Some (bbn_parent (h root)))
        else climb_next h (bbn_parent (h root))
      else Some None)"

partial_function (option) climb_previous :: "bbheap \<Rightarrow> nat \<Rightarrow> nat option option" where
  "climb_previous h root =
     (if bbn_parent (h root) \<noteq> NIL then
        if bbn_left (h (bbn_parent (h root))) \<noteq> root then Some (Some (bbn_parent (h root)))
        else climb_previous h (bbn_parent (h root))
      else Some None)"

definition bbtree_next' :: "bbheap \<Rightarrow> nat \<Rightarrow> nat option option" where
  "bbtree_next' h root =
     (if bbn_right (h root) \<noteq> NIL then bbtree_left' h (bbn_right (h root)) else climb_next h root)"

definition bbtree_previous' :: "bbheap \<Rightarrow> nat \<Rightarrow> nat option option" where
  "bbtree_previous' h root =
     (if bbn_left (h root) \<noteq> NIL then bbtree_right' h (bbn_left (h root)) else climb_previous h root)"

partial_function (option) bbtree_search' :: "bbheap \<Rightarrow> nat \<Rightarrow> size_t \<Rightarrow> int \<Rightarrow> nat option option" where
  "bbtree_search' h root value accept =
     (if root = NIL then Some None
      else if bbn_value (h root) = value then Some (Some root)
      else if bbn_value (h root) > value then
        do { best \<leftarrow> bbtree_search' h (bbn_left (h root)) value accept;
             Some (if accept \<le> 0 \<or> (case best of None \<Rightarrow> False | Some b \<Rightarrow> bbn_value (h root) > bbn_value (h b))
                   then best else Some root) }
      else
        do { best \<leftarrow> bbtree_search' h (bbn_right (h root)) value accept;
             Some (if accept \<ge> 0 \<or> (case best of None \<Rightarrow> False | Some b \<Rightarrow> bbn_value (h root) < bbn_value (h b))
                   then best else Some root) })"

subsection \<open>Trees in a heap\<close>

fun topn :: "(size_t, nat) bbt \<Rightarrow> nat" where
  "topn Tip = NIL"
| "topn (Bin l v k a r) = a"

fun nodes :: "(size_t, nat) bbt \<Rightarrow> nat list" where
  "nodes Tip = []"
| "nodes (Bin l v k a r) = nodes l @ a # nodes r"

fun rep :: "bbheap \<Rightarrow> (size_t, nat) bbt \<Rightarrow> bool" where
  "rep h Tip = True"
| "rep h (Bin l v k a r) \<longleftrightarrow> a \<noteq> NIL \<and> 0 < v \<and> bbn_left (h a) = topn l \<and> bbn_right (h a) = topn r \<and>
     bbn_value (h a) = k \<and> bbn_level (h a) = v \<and>
     (l \<noteq> Tip \<longrightarrow> bbn_parent (h (topn l)) = a) \<and> (r \<noteq> Tip \<longrightarrow> bbn_parent (h (topn r)) = a) \<and>
     rep h l \<and> rep h r"

definition nil_ok :: "bbheap \<Rightarrow> bool" where
  "nil_ok h \<longleftrightarrow> bbn_left (h NIL) = NIL \<and> bbn_right (h NIL) = NIL \<and> bbn_level (h NIL) = 0"

lemma nodes_entries: "nodes t = map snd (entries t)"
  by (induction t) auto

lemma topn_nodes: "t \<noteq> Tip \<Longrightarrow> topn t \<in> set (nodes t)"
  by (cases t) auto

lemma topn_cases: "topn t = NIL \<or> topn t \<in> set (nodes t)"
  by (cases t) auto

lemma rep_nodes: "rep h t \<Longrightarrow> a \<in> set (nodes t) \<Longrightarrow> a \<noteq> NIL"
  by (induction t) auto

lemma rep_NIL: "rep h t \<Longrightarrow> NIL \<notin> set (nodes t)"
  using rep_nodes by blast

lemma topn_NIL: "rep h t \<Longrightarrow> topn t = NIL \<longleftrightarrow> t = Tip"
  by (cases t) auto

lemma level_topn: "rep h t \<Longrightarrow> nil_ok h \<Longrightarrow> bbn_level (h (topn t)) = lvl t"
  by (cases t) (auto simp: nil_ok_def)

text \<open>A tree only depends on its nodes, and not on the parent link of its topn node.\<close>

definition same :: "(size_t, nat) bbt \<Rightarrow> bbheap \<Rightarrow> bbheap \<Rightarrow> bool" where
  "same t h h' \<longleftrightarrow> (\<forall>x\<in>set (nodes t). bbn_left (h' x) = bbn_left (h x) \<and> bbn_right (h' x) = bbn_right (h x) \<and>
     bbn_value (h' x) = bbn_value (h x) \<and> bbn_level (h' x) = bbn_level (h x) \<and>
     (x \<noteq> topn t \<longrightarrow> bbn_parent (h' x) = bbn_parent (h x)))"

lemma rep_same: "same t h h' \<Longrightarrow> distinct (nodes t) \<Longrightarrow> rep h t \<Longrightarrow> rep h' t"
proof (induction t)
  case (Bin l v k a r)
  have sub: "same l h h'" "same r h h'" using Bin.prems(1,2) by (auto simp: same_def)
  have "bbn_parent (h' (topn l)) = bbn_parent (h (topn l))" if "l \<noteq> Tip"
    using topn_nodes [OF that] Bin.prems(1,2) by (auto simp: same_def)
  moreover have "bbn_parent (h' (topn r)) = bbn_parent (h (topn r))" if "r \<noteq> Tip"
    using topn_nodes [OF that] Bin.prems(1,2) by (auto simp: same_def)
  moreover have "bbn_left (h' a) = bbn_left (h a) \<and> bbn_right (h' a) = bbn_right (h a) \<and>
      bbn_value (h' a) = bbn_value (h a) \<and> bbn_level (h' a) = bbn_level (h a)"
    using Bin.prems(1) by (simp add: same_def)
  ultimately show ?case using Bin.IH sub Bin.prems(2,3) by simp
qed simp

lemma rep_frame: "\<forall>x\<in>set (nodes t). h' x = h x \<Longrightarrow> distinct (nodes t) \<Longrightarrow> rep h t \<Longrightarrow> rep h' t"
  by (rule rep_same [of t h h']) (auto simp: same_def)

text \<open>What an operation that turns the subtree \<open>t\<close> into \<open>t'\<close> keeps.\<close>

definition turns :: "bbheap \<Rightarrow> (size_t, nat) bbt \<Rightarrow> bbheap \<Rightarrow> (size_t, nat) bbt \<Rightarrow> bool" where
  "turns h t h' t' \<longleftrightarrow> rep h' t' \<and> nil_ok h' \<and> set (nodes t') = set (nodes t) \<and> distinct (nodes t') \<and>
     (t \<noteq> Tip \<longrightarrow> bbn_parent (h' (topn t')) = bbn_parent (h (topn t))) \<and>
     (\<forall>x. x \<notin> set (nodes t) \<longrightarrow> x \<noteq> NIL \<longrightarrow> h' x = h x)"

lemma skew_nodes: "nodes (skew t) = nodes t"
  by (simp add: nodes_entries)

lemma split_nodes: "nodes (split t) = nodes t"
  by (simp add: nodes_entries)

lemma bbtree_skew_turns:
  assumes "rep h t" "nil_ok h" "distinct (nodes t)"
  shows "\<exists>h'. bbtree_skew h (topn t) = (h', topn (skew t)) \<and> turns h t h' (skew t)"
proof (cases "\<exists>a u j b c v k x d. t = Bin (Bin a u j b c) v k x d \<and> u = v")
  case True
  then obtain A v j b B k a C where t: "t = Bin (Bin A v j b B) v k a C" by auto
  define h' where "h' = fst (bbtree_skew h (topn t))"
  have eq: "h' = set_parent b (bbn_parent (h a)) (set_parent a b (set_right b a
      (set_parent (topn B) a (set_left a (topn B) h))))"
    "snd (bbtree_skew h (topn t)) = b"
    using assms t by (auto simp: h'_def bbtree_skew_def Let_def)
  have ds: "a \<noteq> b" "a \<notin> set (nodes A)" "a \<notin> set (nodes B)" "a \<notin> set (nodes C)" "b \<notin> set (nodes A)"
    "b \<notin> set (nodes B)" "b \<notin> set (nodes C)" "set (nodes A) \<inter> set (nodes B) = {}"
    "set (nodes A) \<inter> set (nodes C) = {}" "set (nodes B) \<inter> set (nodes C) = {}" "a \<noteq> NIL" "b \<noteq> NIL"
    using assms t by auto
  have nn: "NIL \<notin> set (nodes A)" "NIL \<notin> set (nodes B)" "NIL \<notin> set (nodes C)"
    using assms t by (auto dest: rep_NIL)
  have B: "topn B \<noteq> a" "topn B \<noteq> b" "topn B \<notin> set (nodes A)" "topn B \<notin> set (nodes C)"
    using ds nn topn_cases [of B] by auto
  have "same A h h'" "same B h h'" "same C h h'" unfolding same_def eq
    using ds B by auto
  then have r: "rep h' A" "rep h' B" "rep h' C" using assms(1,3) t by (simp_all add: rep_same)
  have p: "A \<noteq> Tip \<Longrightarrow> bbn_parent (h' (topn A)) = b" "B \<noteq> Tip \<Longrightarrow> bbn_parent (h' (topn B)) = a"
    "C \<noteq> Tip \<Longrightarrow> bbn_parent (h' (topn C)) = a"
  proof -
    have ph: "A \<noteq> Tip \<Longrightarrow> bbn_parent (h (topn A)) = b" "C \<noteq> Tip \<Longrightarrow> bbn_parent (h (topn C)) = a"
      using assms(1) t by simp_all
    have "A \<noteq> Tip \<Longrightarrow> topn A \<notin> {a, b, topn B}" "C \<noteq> Tip \<Longrightarrow> topn C \<notin> {a, b, topn B}"
      using topn_nodes [of A] topn_nodes [of C] ds(1-7) B(3,4) by auto
    with ph B show "A \<noteq> Tip \<Longrightarrow> bbn_parent (h' (topn A)) = b" "B \<noteq> Tip \<Longrightarrow> bbn_parent (h' (topn B)) = a"
      "C \<noteq> Tip \<Longrightarrow> bbn_parent (h' (topn C)) = a"
      by (simp_all add: eq)
  qed
  have "rep h' (skew t)" using assms(1) t r p ds B by (simp add: eq)
  moreover have "nil_ok h'" using assms(2) ds by (auto simp: eq nil_ok_def)
  moreover have "h' x = h x" if "x \<notin> set (nodes t)" "x \<noteq> NIL" for x
    using that topn_cases [of B] t by (subgoal_tac "x \<noteq> topn B") (auto simp: eq heap_others)
  moreover have "bbn_parent (h' b) = bbn_parent (h a)" by (simp add: eq)
  moreover have "bbtree_skew h (topn t) = (h', topn (skew t))" using eq(2) t by (simp add: h'_def prod_eq_iff)
  ultimately show ?thesis using assms(3) t by (auto simp: turns_def)
next
  case False
  then have "skew t = t" by (cases t rule: skew.cases) auto
  moreover have "bbtree_skew h (topn t) = (h, topn t)"
    using False assms by (cases t rule: skew.cases) (auto simp: bbtree_skew_def nil_ok_def)
  ultimately show ?thesis using assms by (auto simp: turns_def)
qed

lemma bbtree_split_turns:
  assumes "rep h t" "nil_ok h" "distinct (nodes t)"
  shows "\<exists>h'. bbtree_split h (topn t) = (h', topn (split t)) \<and> turns h t h' (split t)"
proof (cases "\<exists>a v k x b u j y c w i z d. t = Bin a v k x (Bin b u j y (Bin c w i z d)) \<and> w = v")
  case True
  then obtain A v k a B u j b C1 i c C2 where "t = Bin A v k a (Bin B u j b (Bin C1 v i c C2))" by auto
  moreover define C where "C = Bin C1 v i c C2"
  ultimately have t: "t = Bin A v k a (Bin B u j b C)" and st: "split t = Bin (Bin A v k a B) (u + 1) j b C"
    and lc: "lvl C = v"
    by simp_all
  define h' where "h' = fst (bbtree_split h (topn t))"
  have eq: "h' = set_parent b (bbn_parent (h a)) (set_level b (u + 1) (set_parent a b (set_left b a
      (set_parent (topn B) a (set_right a (topn B) h)))))"
    "snd (bbtree_split h (topn t)) = b"
    using assms(1) t level_topn [of h C] assms(2) lc by (auto simp: h'_def bbtree_split_def Let_def)
  have ds: "a \<noteq> b" "a \<notin> set (nodes A)" "a \<notin> set (nodes B)" "a \<notin> set (nodes C)" "b \<notin> set (nodes A)"
    "b \<notin> set (nodes B)" "b \<notin> set (nodes C)" "set (nodes A) \<inter> set (nodes B) = {}"
    "set (nodes A) \<inter> set (nodes C) = {}" "set (nodes B) \<inter> set (nodes C) = {}" "a \<noteq> NIL" "b \<noteq> NIL"
    using assms t by auto
  have nn: "NIL \<notin> set (nodes A)" "NIL \<notin> set (nodes B)" "NIL \<notin> set (nodes C)"
    using assms t by (auto dest: rep_NIL)
  have B: "topn B \<noteq> a" "topn B \<noteq> b" "topn B \<notin> set (nodes A)" "topn B \<notin> set (nodes C)"
    using ds nn topn_cases [of B] by auto
  have "same A h h'" "same B h h'" "same C h h'" unfolding same_def eq
    using ds B by auto
  then have r: "rep h' A" "rep h' B" "rep h' C" using assms(1,3) t by (simp_all add: rep_same)
  have p: "A \<noteq> Tip \<Longrightarrow> bbn_parent (h' (topn A)) = a" "B \<noteq> Tip \<Longrightarrow> bbn_parent (h' (topn B)) = a"
    "C \<noteq> Tip \<Longrightarrow> bbn_parent (h' (topn C)) = b"
  proof -
    have ph: "A \<noteq> Tip \<Longrightarrow> bbn_parent (h (topn A)) = a" "C \<noteq> Tip \<Longrightarrow> bbn_parent (h (topn C)) = b"
      using assms(1) t by simp_all
    have "A \<noteq> Tip \<Longrightarrow> topn A \<notin> {a, b, topn B}" "C \<noteq> Tip \<Longrightarrow> topn C \<notin> {a, b, topn B}"
      using topn_nodes [of A] topn_nodes [of C] ds(1-7) B(3,4) by auto
    with ph B show "A \<noteq> Tip \<Longrightarrow> bbn_parent (h' (topn A)) = a" "B \<noteq> Tip \<Longrightarrow> bbn_parent (h' (topn B)) = a"
      "C \<noteq> Tip \<Longrightarrow> bbn_parent (h' (topn C)) = b"
      by (simp_all add: eq)
  qed
  have "rep h' (split t)" using assms(1) t r p ds B unfolding st by (simp add: eq)
  moreover have "nil_ok h'" using assms(2) ds by (auto simp: eq nil_ok_def)
  moreover have "h' x = h x" if "x \<notin> set (nodes t)" "x \<noteq> NIL" for x
    using that topn_cases [of B] t by (subgoal_tac "x \<noteq> topn B") (auto simp: eq heap_others)
  moreover have "bbn_parent (h' b) = bbn_parent (h a)" by (simp add: eq)
  moreover have "bbtree_split h (topn t) = (h', topn (split t))" using eq(2) st by (simp add: h'_def prod_eq_iff)
  ultimately show ?thesis using assms(3) t st by (auto simp: turns_def)
next
  case False
  then have st: "split t = t" by (cases t rule: split.cases) auto
  have "bbtree_split h (topn t) = (h, topn t)"
  proof (cases t)
    case (Bin l v k a r)
    have v: "0 < v" using assms(1) Bin by simp
    have "bbn_level (h (bbn_right (h (topn r)))) \<noteq> v"
    proof (cases r)
      case Tip
      then show ?thesis using assms(2) v by (simp add: nil_ok_def)
    next
      case r: (Bin b u j y c)
      then have "lvl c \<noteq> v" using False Bin v by (cases c) simp_all
      then show ?thesis using assms(1,2) Bin r level_topn [of h c] by simp
    qed
    then show ?thesis using assms(1) Bin by (simp add: bbtree_split_def)
  qed (simp add: bbtree_split_def)
  then show ?thesis using assms st by (auto simp: turns_def)
qed

lemma attach_left:
  assumes "rep h l" "rep h r" "distinct (nodes l @ a # nodes r)" "a \<noteq> NIL" "0 < v" "nil_ok h"
    "bbn_right (h a) = topn r" "bbn_value (h a) = k" "bbn_level (h a) = v"
    "r \<noteq> Tip \<Longrightarrow> bbn_parent (h (topn r)) = a"
    and h': "h' = set_parent (topn l) a (set_left a (topn l) h)"
  shows "rep h' (Bin l v k a r) \<and> nil_ok h' \<and> bbn_parent (h' a) = bbn_parent (h a) \<and>
    (\<forall>x. x \<noteq> a \<longrightarrow> x \<noteq> topn l \<longrightarrow> h' x = h x)"
proof -
  have nn: "NIL \<notin> set (nodes r)" using assms(2) by (rule rep_NIL)
  have tl: "topn l \<noteq> a" "topn l \<notin> set (nodes r)" using topn_cases [of l] assms(3,4) nn by auto
  have tr: "r \<noteq> Tip \<Longrightarrow> topn r \<noteq> topn l" using topn_nodes [of r] tl by auto
  have "same l h h'" "same r h h'" using assms(3) tl by (auto simp: same_def h')
  then have "rep h' l" "rep h' r" using assms(1-3) by (simp_all add: rep_same)
  then show ?thesis using assms(4-10) tl tr by (auto simp: h' nil_ok_def heap_others)
qed

lemma attach_right:
  assumes "rep h l" "rep h r" "distinct (nodes l @ a # nodes r)" "a \<noteq> NIL" "0 < v" "nil_ok h"
    "bbn_left (h a) = topn l" "bbn_value (h a) = k" "bbn_level (h a) = v"
    "l \<noteq> Tip \<Longrightarrow> bbn_parent (h (topn l)) = a"
    and h': "h' = set_parent (topn r) a (set_right a (topn r) h)"
  shows "rep h' (Bin l v k a r) \<and> nil_ok h' \<and> bbn_parent (h' a) = bbn_parent (h a) \<and>
    (\<forall>x. x \<noteq> a \<longrightarrow> x \<noteq> topn r \<longrightarrow> h' x = h x)"
proof -
  have nn: "NIL \<notin> set (nodes l)" using assms(1) by (rule rep_NIL)
  have tr: "topn r \<noteq> a" "topn r \<notin> set (nodes l)" using topn_cases [of r] assms(3,4) nn by auto
  have tl: "l \<noteq> Tip \<Longrightarrow> topn l \<noteq> topn r" using topn_nodes [of l] tr by auto
  have "same l h h'" "same r h h'" using assms(3) tr by (auto simp: same_def h')
  then have "rep h' l" "rep h' r" using assms(1-3) by (simp_all add: rep_same)
  then show ?thesis using assms(4-10) tl tr by (auto simp: h' nil_ok_def heap_others)
qed

subsection \<open>Insertion\<close>

lemma nodes_insert:
  "mset (nodes (fst (bb_insert k n t))) = mset (nodes t) + (if snd (bb_insert k n t) then {#n#} else {#})"
  by (induction t) (auto simp: skew_nodes split_nodes split: prod.splits)

lemma nodes_Nil [simp]: "nodes t = [] \<longleftrightarrow> t = Tip"
  by (cases t) auto

lemma turns_trans: "turns h t h1 t1 \<Longrightarrow> turns h1 t1 h2 t2 \<Longrightarrow> turns h t h2 t2"
  unfolding turns_def by auto

definition placed :: "bbheap \<Rightarrow> (size_t, nat) bbt \<Rightarrow> nat \<Rightarrow> bbheap \<Rightarrow> (size_t, nat) bbt \<Rightarrow> bool" where
  "placed h t n h' t' \<longleftrightarrow> rep h' t' \<and> nil_ok h' \<and>
     bbn_parent (h' (topn t')) = (if t = Tip then NIL else bbn_parent (h (topn t))) \<and>
     (\<forall>x. x \<notin> set (nodes t) \<longrightarrow> x \<noteq> n \<longrightarrow> x \<noteq> NIL \<longrightarrow> h' x = h x)"

lemma skew_split_turns:
  assumes "rep h t" "nil_ok h" "distinct (nodes t)"
  shows "\<exists>h' h''. bbtree_skew h (topn t) = (h', topn (skew t)) \<and>
    bbtree_split h' (topn (skew t)) = (h'', topn (split (skew t))) \<and> turns h t h'' (split (skew t))"
proof -
  obtain h' where h': "bbtree_skew h (topn t) = (h', topn (skew t))" "turns h t h' (skew t)"
    using bbtree_skew_turns [OF assms] by blast
  moreover obtain h'' where "bbtree_split h' (topn (skew t)) = (h'', topn (split (skew t)))"
      "turns h' (skew t) h'' (split (skew t))"
    using bbtree_split_turns [of h' "skew t"] h' by (auto simp: turns_def)
  ultimately show ?thesis using turns_trans by blast
qed

lemma reattach_left:
  assumes "rep h (Bin l v k a r)" "rep h1 l'" "nil_ok h1" "distinct (nodes l' @ a # nodes r)"
    "\<forall>x\<in>set (nodes r). h1 x = h x" "bbn_parent (h1 a) = bbn_parent (h a)"
    "bbn_right (h1 a) = bbn_right (h a)" "bbn_value (h1 a) = bbn_value (h a)" "bbn_level (h1 a) = bbn_level (h a)"
  shows "\<exists>h2. h2 = set_parent (topn l') a (set_left a (topn l') h1) \<and> rep h2 (Bin l' v k a r) \<and> nil_ok h2 \<and>
    bbn_parent (h2 a) = bbn_parent (h a) \<and> (\<forall>x. x \<noteq> a \<longrightarrow> x \<noteq> topn l' \<longrightarrow> h2 x = h1 x)"
proof -
  have "rep h1 r" using assms(1,4,5) by (intro rep_frame [of r h1 h]) auto
  moreover have "r \<noteq> Tip \<Longrightarrow> bbn_parent (h1 (topn r)) = a" using assms(1,5) topn_nodes [of r] by simp
  ultimately show ?thesis using attach_left [OF assms(2) _ assms(4) _ _ assms(3), of v k] assms(1,6-9) by simp
qed

lemma reattach_right:
  assumes "rep h (Bin l v k a r)" "rep h1 r'" "nil_ok h1" "distinct (nodes l @ a # nodes r')"
    "\<forall>x\<in>set (nodes l). h1 x = h x" "bbn_parent (h1 a) = bbn_parent (h a)"
    "bbn_left (h1 a) = bbn_left (h a)" "bbn_value (h1 a) = bbn_value (h a)" "bbn_level (h1 a) = bbn_level (h a)"
  shows "\<exists>h2. h2 = set_parent (topn r') a (set_right a (topn r') h1) \<and> rep h2 (Bin l v k a r') \<and> nil_ok h2 \<and>
    bbn_parent (h2 a) = bbn_parent (h a) \<and> (\<forall>x. x \<noteq> a \<longrightarrow> x \<noteq> topn r' \<longrightarrow> h2 x = h1 x)"
proof -
  have "rep h1 l" using assms(1,4,5) by (intro rep_frame [of l h1 h]) auto
  moreover have "l \<noteq> Tip \<Longrightarrow> bbn_parent (h1 (topn l)) = a" using assms(1,5) topn_nodes [of l] by simp
  ultimately show ?thesis using attach_right [OF _ assms(2) assms(4) _ _ assms(3), of v k] assms(1,6-9) by simp
qed

lemma placed_step:
  assumes "rep h2 t'" "nil_ok h2" "distinct (nodes t')" "t' \<noteq> Tip" "t \<noteq> Tip"
    "bbn_parent (h2 (topn t')) = bbn_parent (h (topn t))"
    "\<And>x. x \<notin> set (nodes t) \<Longrightarrow> x \<noteq> n \<Longrightarrow> x \<noteq> NIL \<Longrightarrow> h2 x = h x"
    "set (nodes t') \<subseteq> insert n (set (nodes t))"
  shows "\<exists>h3 h4. bbtree_skew h2 (topn t') = (h3, topn (skew t')) \<and>
    bbtree_split h3 (topn (skew t')) = (h4, topn (split (skew t'))) \<and> placed h t n h4 (split (skew t'))"
proof -
  obtain h3 h4 where "bbtree_skew h2 (topn t') = (h3, topn (skew t'))"
      "bbtree_split h3 (topn (skew t')) = (h4, topn (split (skew t')))" "turns h2 t' h4 (split (skew t'))"
    using skew_split_turns [OF assms(1-3)] by blast
  moreover from this have "placed h t n h4 (split (skew t'))"
    using assms(4-8) unfolding turns_def placed_def by auto
  ultimately show ?thesis by blast
qed

lemma mset_add_if: 
  assumes "mset ys = mset xs + (if b then {#n#} else {#})" "n \<notin> set xs" "distinct xs"
  shows "distinct ys" "set ys \<subseteq> insert n (set xs)"
proof -
  have "set_mset (mset ys) = set_mset (mset xs + (if b then {#n#} else {#}))" using assms(1) by simp
  then show "set ys \<subseteq> insert n (set xs)" by (auto split: if_splits)
  have "mset ys = mset (if b then n # xs else xs)" using assms(1) by simp
  then show "distinct ys" using assms(2,3) mset_eq_imp_distinct_iff by (metis distinct.simps(2))
qed

lemma insert_refines:
  assumes "rep h t" "nil_ok h" "distinct (nodes t)" "n \<notin> set (nodes t)" "n \<noteq> NIL" "bbn_value (h n) = k"
  shows "\<exists>h'. bbtree_insert' h (topn t) n = Some (h', topn (fst (bb_insert k n t)), snd (bb_insert k n t)) \<and>
    placed h t n h' (fst (bb_insert k n t))"
  using assms
proof (induction t)
  case Tip
  then show ?case
    by (auto simp: bbtree_insert'.simps [of h NIL n] Let_def placed_def nil_ok_def heap_others)
next
  case (Bin l v j a r)
  note un = bbtree_insert'.simps [of h a n]
  have a: "a \<noteq> NIL" "0 < v" "bbn_left (h a) = topn l" "bbn_right (h a) = topn r" "bbn_value (h a) = j"
    "bbn_level (h a) = v" "l \<noteq> Tip \<Longrightarrow> bbn_parent (h (topn l)) = a" "r \<noteq> Tip \<Longrightarrow> bbn_parent (h (topn r)) = a"
    "rep h l" "rep h r" "n \<noteq> a" "a \<notin> set (nodes l)" "a \<notin> set (nodes r)" "set (nodes l) \<inter> set (nodes r) = {}"
    using Bin.prems(1,3,4) by auto
  consider "k < j" | "j < k" | "k = j" by fastforce
  then show ?case
  proof cases
    case 1
    obtain l' ok where l': "bb_insert k n l = (l', ok)" by fastforce
    then obtain h1 where h1: "bbtree_insert' h (topn l) n = Some (h1, topn l', ok)" "placed h l n h1 l'"
      using Bin.IH(1) Bin.prems by auto
    have nl: "mset (nodes l') = mset (nodes l) + (if ok then {#n#} else {#})"
      using nodes_insert [of k n l] l' by simp
    note dl = mset_add_if [OF nl]
    have l1: "rep h1 l'" "nil_ok h1" "\<forall>x. x \<notin> set (nodes l) \<longrightarrow> x \<noteq> n \<longrightarrow> x \<noteq> NIL \<longrightarrow> h1 x = h x"
      using h1(2) by (simp_all add: placed_def)
    have nr: "\<forall>x\<in>set (nodes r). x \<notin> set (nodes l) \<and> x \<noteq> n \<and> x \<noteq> NIL" 
      using a Bin.prems(4) rep_nodes by auto
    have d': "distinct (nodes (Bin l' v j a r))" 
      using dl a Bin.prems(3,4) by auto
    obtain h2 where h2: "h2 = set_parent (topn l') a (set_left a (topn l') h1)" "rep h2 (Bin l' v j a r)" "nil_ok h2"
      "bbn_parent (h2 a) = bbn_parent (h a)" "\<forall>x. x \<noteq> a \<longrightarrow> x \<noteq> topn l' \<longrightarrow> h2 x = h1 x"
      using reattach_left [OF Bin.prems(1) l1(1,2)] d' l1(3) nr a by auto
    have "h2 x = h x" if "x \<notin> set (nodes (Bin l v j a r))" "x \<noteq> n" "x \<noteq> NIL" for x
      using that h2(5) l1(3) dl(2) topn_cases [of l'] Bin.prems(3,4) by auto
    then obtain h3 h4 where h4: "bbtree_skew h2 a = (h3, topn (skew (Bin l' v j a r)))"
        "bbtree_split h3 (topn (skew (Bin l' v j a r))) = (h4, topn (split (skew (Bin l' v j a r))))"
        "placed h (Bin l v j a r) n h4 (split (skew (Bin l' v j a r)))"
      using placed_step [OF h2(2,3) d', of "Bin l v j a r" h n] h2(4) dl(2) Bin.prems(3,4) by auto
    have "bbtree_insert' h a n = Some (h4, topn (split (skew (Bin l' v j a r))), ok)"
      unfolding un using 1 a Bin.prems(6) h1(1) h4(1,2) by (simp add: Let_def flip: h2(1))
    then show ?thesis using 1 l' h4(3) by auto
  next
    case 2
    obtain r' ok where r': "bb_insert k n r = (r', ok)" by fastforce
    then obtain h1 where h1: "bbtree_insert' h (topn r) n = Some (h1, topn r', ok)" "placed h r n h1 r'"
      using Bin.IH(2) Bin.prems by auto
    have nl: "mset (nodes r') = mset (nodes r) + (if ok then {#n#} else {#})"
      using nodes_insert [of k n r] r' by simp
    note dl = mset_add_if [OF nl]
    have l1: "rep h1 r'" "nil_ok h1" "\<forall>x. x \<notin> set (nodes r) \<longrightarrow> x \<noteq> n \<longrightarrow> x \<noteq> NIL \<longrightarrow> h1 x = h x"
      using h1(2) by (simp_all add: placed_def)
    have nr: "\<forall>x\<in>set (nodes l). x \<notin> set (nodes r) \<and> x \<noteq> n \<and> x \<noteq> NIL" 
      using a Bin.prems(4) rep_nodes by auto
    have d': "distinct (nodes (Bin l v j a r'))" 
      using dl a Bin.prems(3,4) by auto
    obtain h2 where h2: "h2 = set_parent (topn r') a (set_right a (topn r') h1)" "rep h2 (Bin l v j a r')" "nil_ok h2"
      "bbn_parent (h2 a) = bbn_parent (h a)" "\<forall>x. x \<noteq> a \<longrightarrow> x \<noteq> topn r' \<longrightarrow> h2 x = h1 x"
      using reattach_right [OF Bin.prems(1) l1(1,2)] d' l1(3) nr a by auto
    have "h2 x = h x" if "x \<notin> set (nodes (Bin l v j a r))" "x \<noteq> n" "x \<noteq> NIL" for x
      using that h2(5) l1(3) dl(2) topn_cases [of r'] Bin.prems(3,4) by auto
    then obtain h3 h4 where h4: "bbtree_skew h2 a = (h3, topn (skew (Bin l v j a r')))"
        "bbtree_split h3 (topn (skew (Bin l v j a r'))) = (h4, topn (split (skew (Bin l v j a r'))))"
        "placed h (Bin l v j a r) n h4 (split (skew (Bin l v j a r')))"
      using placed_step [OF h2(2,3) d', of "Bin l v j a r" h n] h2(4) dl(2) Bin.prems(3,4) by auto
    have n2: "\<not> k < j" using 2 by simp
    then have "bbtree_insert' h a n = Some (h4, topn (split (skew (Bin l v j a r'))), ok)"
      unfolding un using 2 a Bin.prems(6) h1(1) h4(1,2) by (simp add: Let_def flip: h2(1))
    then show ?thesis using 2 n2 r' h4(3) by auto
  next
    case 3
    then show ?thesis using Bin.prems a(1,5) by (auto simp: un placed_def)
  qed
qed

subsection \<open>Searching and walking\<close>

lemma entries_Nil [simp]: "entries t = [] \<longleftrightarrow> t = Tip"
  by (cases t) auto

lemma rep_value: "rep h t \<Longrightarrow> (k, a) \<in> set (entries t) \<Longrightarrow> bbn_value (h a) = k"
  by (induction t) auto

lemma bb_search_entries: "bb_search t j accept = Some e \<Longrightarrow> e \<in> set (entries t)"
  by (induction t) (auto simp: Let_def split: if_splits option.splits)

lemma search_refines:
  "rep h t \<Longrightarrow> bbtree_search' h (topn t) j accept = Some (map_option snd (bb_search t j accept))"
proof (induction t)
  case (Bin l v k a r)
  have val: "bbn_value (h (snd e)) = fst e" if "bb_search l j accept = Some e \<or> bb_search r j accept = Some e" for e
    using that Bin.prems rep_value [of h "Bin l v k a r" "fst e" "snd e"] by (auto dest: bb_search_entries)
  show ?case
    using Bin val
    by (cases "bb_search l j accept"; cases "bb_search r j accept"; cases "k = j"; cases "j < k")
      (simp_all add: bbtree_search'.simps [of h a] Let_def)
qed (simp add: bbtree_search'.simps)

lemma leftmost_refines: "rep h t \<Longrightarrow> t \<noteq> Tip \<Longrightarrow> leftmost h (topn t) = map_option snd (bb_left t)"
proof (induction t rule: bb_left.induct)
  case (2 v k a r)
  then show ?case by (simp add: leftmost.simps [of h a])
next
  case (3 ll lv lk la lr v k a r)
  then show ?case by (simp add: leftmost.simps [of h a])
qed simp

lemma left_refines: "rep h t \<Longrightarrow> bbtree_left' h (topn t) = Some (map_option snd (bb_left t))"
  using leftmost_refines [of h t] by (cases t) (auto simp: bbtree_left'_def bb_left_hd)

lemma rightmost_refines: "rep h t \<Longrightarrow> t \<noteq> Tip \<Longrightarrow> rightmost h (topn t) = map_option snd (bb_right t)"
proof (induction t rule: bb_right.induct)
  case (2 l v k a)
  then show ?case by (simp add: rightmost.simps [of h a])
next
  case (3 l v k a ll lv lk la lr)
  then show ?case by (simp add: rightmost.simps [of h a])
qed simp

lemma right_refines: "rep h t \<Longrightarrow> bbtree_right' h (topn t) = Some (map_option snd (bb_right t))"
  using rightmost_refines [of h t] by (cases t) (auto simp: bbtree_right'_def bb_right_entries)

lemma topn_diff:
  assumes "rep h (Bin l v k x r)" "distinct (nodes (Bin l v k x r))"
  shows "l \<noteq> Tip \<Longrightarrow> topn r \<noteq> topn l" "r \<noteq> Tip \<Longrightarrow> topn l \<noteq> topn r"
  using assms rep_NIL [of h l] rep_NIL [of h r] topn_cases [of l] topn_cases [of r] topn_nodes [of l] topn_nodes [of r]
  by auto

lemma next_climbs:
  assumes "rep h t" "distinct (nodes t)" "sorted_keys (entries t)" "(j, a) \<in> set (entries t)"
  shows "bbtree_next' h a =
    (case bb_next t j of None \<Rightarrow> climb_next h (topn t) | Some e \<Rightarrow> Some (Some (snd e)))"
  using assms
proof (induction t)
  case (Bin l v k x r)
  have s: "sorted_keys (entries l)" "sorted_keys (entries r)"
    "\<forall>e\<in>set (entries l). fst e < k" "\<forall>e\<in>set (entries r). k < fst e"
    using Bin.prems(3) by (auto simp: sorted_wrt_append)
  consider "(j, a) \<in> set (entries l)" | "j = k" "a = x" | "(j, a) \<in> set (entries r)"
    using Bin.prems(4) by auto
  then show ?case
  proof cases
    case 1
    then have "l \<noteq> Tip" "j < k" using s(3) by auto
    moreover have "topn r \<noteq> topn l" by (rule topn_diff(1) [OF Bin.prems(1,2) \<open>l \<noteq> Tip\<close>])
    ultimately have "climb_next h (topn l) = Some (Some x)"
      using Bin.prems(1) by (simp add: climb_next.simps [of h "topn l"])
    then show ?thesis using Bin.IH(1) Bin.prems(1,2) s(1) 1 \<open>j < k\<close> by (simp split: option.splits)
  next
    case 2
    have "bb_next r k = bb_left r" using s(2,4)
      by (cases "entries r") (simp_all add: bb_next_entries bb_left_entries)
    then show ?thesis using 2 Bin.prems(1) left_refines [of h r] topn_NIL [of h r]
      by (simp add: bbtree_next'_def bb_left_hd)
  next
    case 3
    then have "r \<noteq> Tip" "k < j" using s(4) by auto
    then have "climb_next h (topn r) = climb_next h x" "\<not> j < k"
      using Bin.prems(1) by (simp_all add: climb_next.simps [of h "topn r"])
    then show ?thesis using Bin.IH(2) Bin.prems(1,2) s(2) 3 by (simp split: option.splits)
  qed
qed simp

lemma previous_climbs:
  assumes "rep h t" "distinct (nodes t)" "sorted_keys (entries t)" "(j, a) \<in> set (entries t)"
  shows "bbtree_previous' h a =
    (case bb_previous t j of None \<Rightarrow> climb_previous h (topn t) | Some e \<Rightarrow> Some (Some (snd e)))"
  using assms
proof (induction t)
  case (Bin l v k x r)
  have s: "sorted_keys (entries l)" "sorted_keys (entries r)"
    "\<forall>e\<in>set (entries l). fst e < k" "\<forall>e\<in>set (entries r). k < fst e"
    using Bin.prems(3) by (auto simp: sorted_wrt_append)
  consider "(j, a) \<in> set (entries l)" | "j = k" "a = x" | "(j, a) \<in> set (entries r)"
    using Bin.prems(4) by auto
  then show ?case
  proof cases
    case 1
    then have "l \<noteq> Tip" "j < k" using s(3) by auto
    then have "climb_previous h (topn l) = climb_previous h x" "\<not> k < j"
      using Bin.prems(1) by (simp_all add: climb_previous.simps [of h "topn l"])
    then show ?thesis using Bin.IH(1) Bin.prems(1,2) s(1) 1 by (simp split: option.splits)
  next
    case 2
    have "bb_previous l k = bb_right l" using s(1,3)
      by (cases "entries l" rule: rev_cases) (simp_all add: bb_previous_entries bb_right_entries)
    then show ?thesis using 2 Bin.prems(1) right_refines [of h l] topn_NIL [of h l]
      by (simp add: bbtree_previous'_def bb_right_entries)
  next
    case 3
    then have "r \<noteq> Tip" "k < j" using s(4) by auto
    moreover have "topn l \<noteq> topn r" by (rule topn_diff(2) [OF Bin.prems(1,2) \<open>r \<noteq> Tip\<close>])
    ultimately have "climb_previous h (topn r) = Some (Some x)"
      using Bin.prems(1) by (simp add: climb_previous.simps [of h "topn r"])
    then show ?thesis using Bin.IH(2) Bin.prems(1,2) s(2) 3 \<open>k < j\<close> by (simp split: option.splits)
  qed
qed simp

lemma next_refines:
  assumes "rep h t" "distinct (nodes t)" "sorted_keys (entries t)" "(j, a) \<in> set (entries t)"
    "bbn_parent (h (topn t)) = NIL"
  shows "bbtree_next' h a = Some (map_option snd (bb_next t j))"
    and "bbtree_previous' h a = Some (map_option snd (bb_previous t j))"
  using next_climbs [OF assms(1-4)] previous_climbs [OF assms(1-4)] assms(5)
  by (auto simp: climb_next.simps [of h "topn t"] climb_previous.simps [of h "topn t"] split: option.splits)

subsection \<open>The consistency check\<close>

lemma check_ends: "rep h t \<Longrightarrow> nil_ok h \<Longrightarrow> \<exists>c. bbtree_check h (topn t) = Some c"
proof (induction t)
  case Tip
  then show ?case by (simp add: bbtree_check.simps [of h NIL] nil_ok_def)
next
  case (Bin l v k a r)
  obtain cl cr where "bbtree_check h (topn l) = Some cl" "bbtree_check h (topn r) = Some cr"
    using Bin by auto
  with Bin.prems show ?case by (simp add: bbtree_check.simps [of h a])
qed

lemma check_counts: "rep h t \<Longrightarrow> aa t \<Longrightarrow> t \<noteq> Tip \<Longrightarrow> bbtree_check h (topn t) = Some (int (length (entries t)))"
proof (induction t)
  case (Bin l v k a r)
  have lv: "l \<noteq> Tip \<Longrightarrow> bbn_level (h (topn l)) = lvl l" "r \<noteq> Tip \<Longrightarrow> bbn_level (h (topn r)) = lvl r"
    using Bin.prems(1) by (cases l; cases r; simp)+
  have half: "v - 1 = (lvl l + lvl r) div 2" "lvl l \<le> lvl r" using Bin.prems(2) by auto
  have v1: "v \<noteq> 1" if "l \<noteq> Tip" using Bin.prems(2) lvl_pos that by (cases l) fastforce+
  show ?case
    using Bin lv half v1 topn_NIL [of h l] topn_NIL [of h r]
    by (cases "l = Tip"; cases "r = Tip") (simp_all add: bbtree_check.simps [of h a])
qed simp

subsection \<open>Rebalancing\<close>

definition op_spec :: "(bbheap \<Rightarrow> nat \<Rightarrow> bbheap \<times> nat) \<Rightarrow> ((size_t, nat) bbt \<Rightarrow> (size_t, nat) bbt) \<Rightarrow> bool" where
  "op_spec f g \<longleftrightarrow> (\<forall>h t. rep h t \<longrightarrow> nil_ok h \<longrightarrow> distinct (nodes t) \<longrightarrow>
     (\<exists>h'. f h (topn t) = (h', topn (g t)) \<and> turns h t h' (g t)))"

lemma op_specD:
  assumes "op_spec f g" "rep h t" "nil_ok h" "distinct (nodes t)"
  obtains h' where "f h (topn t) = (h', topn (g t))" "turns h t h' (g t)"
  using assms unfolding op_spec_def by blast

lemma op_skew: "op_spec bbtree_skew skew" and op_split: "op_spec bbtree_split split"
  using bbtree_skew_turns bbtree_split_turns by (simp_all add: op_spec_def)

lemma turnsD:
  assumes "turns h t h' t'"
  shows "rep h' t'" "nil_ok h'" "distinct (nodes t')" "t' = Tip \<longleftrightarrow> t = Tip"
  using assms unfolding turns_def by (auto simp flip: nodes_Nil)

lemma turns_right:
  assumes "rep h (Bin l v k a r)" "distinct (nodes (Bin l v k a r))" "turns h r h1 r'"
  shows "turns h (Bin l v k a r) (set_right a (topn r') h1) (Bin l v k a r')"
proof -
  let ?h2 = "set_right a (topn r') h1"
  have fr: "\<forall>x. x \<notin> set (nodes r) \<longrightarrow> x \<noteq> NIL \<longrightarrow> h1 x = h x" and set: "set (nodes r') = set (nodes r)"
    and r1: "rep h1 r'" "nil_ok h1" "distinct (nodes r')"
    and pr: "r \<noteq> Tip \<longrightarrow> bbn_parent (h1 (topn r')) = bbn_parent (h (topn r))"
    using assms(3) by (simp_all add: turns_def)
  have a: "a \<noteq> NIL" "h1 a = h a" "\<forall>x\<in>set (nodes l). h1 x = h x \<and> x \<noteq> a"
    using assms(1,2) fr rep_nodes [of h l] by auto
  have "same l h ?h2" "same r' h1 ?h2" using a assms(2) set by (auto simp: same_def)
  then have "rep ?h2 l" "rep ?h2 r'" using assms(1,2) r1 by (auto intro: rep_same)
  moreover have "l \<noteq> Tip \<Longrightarrow> bbn_parent (?h2 (topn l)) = a"
    using a topn_nodes [of l] assms(1) by simp
  moreover have "r' \<noteq> Tip \<Longrightarrow> bbn_parent (?h2 (topn r')) = a"
    using pr assms(1) turnsD(4) [OF assms(3)] by simp
  ultimately have "rep ?h2 (Bin l v k a r')" using assms(1) a(2) by simp
  moreover have "nil_ok ?h2" using r1(2) a(1) by (simp add: nil_ok_def)
  moreover have "?h2 x = h x" if "x \<notin> set (nodes (Bin l v k a r))" "x \<noteq> NIL" for x
    using that fr by (simp add: heap_others)
  ultimately show ?thesis using set r1(3) assms(2) a(2) by (simp add: turns_def)
qed

lemma turns_refl: "rep h t \<Longrightarrow> nil_ok h \<Longrightarrow> distinct (nodes t) \<Longrightarrow> turns h t h t"
  by (simp add: turns_def)

lemma lvl_rep: "rep h t \<Longrightarrow> 0 \<le> lvl t"
  by (cases t) auto

lemma lower_turns:
  assumes "rep h (Bin l v k a r)" "nil_ok h" "distinct (nodes (Bin l v k a r))" "1 < v"
    and h2: "h2 = (let h = set_level a (v - 1) h in
      if bbn_level (h (topn r)) > v - 1 then set_level (topn r) (v - 1) h else h)"
  shows "turns h (Bin l v k a r) h2 (Bin l (v - 1) k a (cap_lvl (v - 1) r))"
proof -
  let ?h1 = "set_level a (v - 1) h"
  have nd: "a \<notin> set (nodes l)" "a \<notin> set (nodes r)" "a \<noteq> NIL" "topn r \<noteq> a" "topn r \<notin> set (nodes l)"
    using assms(1,3) topn_cases [of r] rep_NIL [of h l] by auto
  have "same l h ?h1" "same r h ?h1" using nd by (auto simp: same_def)
  then have lr: "rep ?h1 l" "rep ?h1 r" using assms(1,3) by (simp_all add: rep_same)
  show ?thesis
  proof (cases "lvl r > v - 1")
    case True
    then obtain b u j y c where r: "r = Bin b u j y c" using assms(4) by (cases r) auto
    have h2': "h2 = set_level y (v - 1) ?h1" using h2 True lr(2) r by (simp add: Let_def)
    have "same l ?h1 h2" "same b ?h1 h2" "same c ?h1 h2"
      using nd assms(3) r by (auto simp: same_def h2')
    then have "rep h2 l" "rep h2 b" "rep h2 c" using lr assms(3) r by (auto intro: rep_same)
    then show ?thesis using assms(1-4) r True nd
      by (auto simp: turns_def h2' nil_ok_def heap_others)
  next
    case False
    then have "h2 = ?h1" using h2 level_topn [OF lr(2)] assms(2) nd by (simp add: Let_def nil_ok_def)
    then show ?thesis using assms(1-4) lr nd False
      by (auto simp: turns_def nil_ok_def heap_others cap_lvl_id)
  qed
qed

lemma set_right_id: "bbn_right (h n) = p \<Longrightarrow> set_right n p h = h"
  by (auto simp: set_right_def)

lemma right_step:
  assumes "op_spec f g" "rep h t" "nil_ok h" "distinct (nodes t)" "t \<noteq> Tip"
  obtains h' where "f h (bbn_right (h (topn t))) = (h', topn (case t of Bin _ _ _ _ r \<Rightarrow> g r))"
    "turns h t (set_right (topn t) (topn (case t of Bin _ _ _ _ r \<Rightarrow> g r)) h') (on_right g t)"
proof (cases t)
  case (Bin l v k a r)
  then obtain h' where "f h (topn r) = (h', topn (g r))" "turns h r h' (g r)"
    using op_specD [OF assms(1), of h r] assms by auto
  then show ?thesis using that Bin assms(2,4) turns_right [of h l v k a r h' "g r"] by simp
qed (use assms(5) in simp)

lemma right_right_step:
  assumes "op_spec f g" "rep h t" "nil_ok h" "distinct (nodes t)" "t \<noteq> Tip"
  obtains h' n h'' where "f h (bbn_right (h (bbn_right (h (topn t))))) = (h', n)"
    "set_right (bbn_right (h' (topn t))) n h' = h''" "turns h t h'' (on_right (on_right g) t)"
proof (cases t)
  case (Bin l v k a r)
  have r: "rep h r" "distinct (nodes r)" "bbn_right (h a) = topn r" "a \<notin> set (nodes r)" "a \<noteq> NIL"
    using Bin assms(2,4) by auto
  show ?thesis
  proof (cases r)
    case Tip
    obtain h' where h': "f h NIL = (h', topn (g Tip))" "turns h Tip h' (g Tip)"
      using op_specD [OF assms(1), of h Tip] assms(3) by auto
    then have "g Tip = Tip" "nil_ok h'" using turnsD by blast+
    moreover have "h' a = h a" using h'(2) r by (simp add: turns_def)
    ultimately have "set_right (bbn_right (h' a)) (topn (g Tip)) h' = h'"
      using r Tip by (intro set_right_id) (simp add: nil_ok_def)
    moreover have "turns h t h' t"
      using turns_right [of h l v k a r h' Tip] h'(2) \<open>g Tip = Tip\<close> assms(2,4) Bin Tip r \<open>h' a = h a\<close>
      by (simp add: set_right_id)
    ultimately show ?thesis using that [of h' "topn (g Tip)" h'] h' Bin r Tip assms(3) by (simp add: nil_ok_def)
  next
    case rr: (Bin b u j y c)
    obtain h' where h': "f h (bbn_right (h (topn r))) = (h', topn (g c))"
        "turns h r (set_right (topn r) (topn (g c)) h') (on_right g r)"
      using right_step [OF assms(1) r(1) assms(3) r(2)] rr by auto
    let ?h2 = "set_right (topn r) (topn (g c)) h'"
    have "?h2 a = h a" using h'(2) r by (simp add: turns_def)
    moreover have "topn r \<noteq> a" using r rr by auto
    ultimately have ha: "h' a = h a" by (simp add: heap_others)
    then have "turns h t ?h2 (on_right (on_right g) t)"
      using turns_right [of h l v k a r ?h2 "on_right g r"] h'(2) assms(2,4) Bin r rr \<open>?h2 a = h a\<close>
      by (simp add: set_right_id)
    then show ?thesis using that [of h' "topn (g c)" ?h2] h'(1) Bin r ha by simp
  qed
qed (use assms(5) in simp)

lemma rebalance_turns:
  assumes "rep h t" "nil_ok h" "distinct (nodes t)" "t \<noteq> Tip"
  shows "\<exists>h'. bbtree_rebalance h (topn t) = (h', topn (rebalance t)) \<and> turns h t h' (rebalance t)"
proof (cases t)
  case (Bin l v k a r)
  have lv: "bbn_level (h (topn l)) = lvl l" "bbn_level (h (topn r)) = lvl r" "0 \<le> lvl l" "0 \<le> lvl r"
    and a: "bbn_left (h a) = topn l" "bbn_right (h a) = topn r" "bbn_level (h a) = v" "a \<noteq> NIL"
    using assms(1,2) Bin level_topn lvl_rep by auto
  show ?thesis
  proof (cases "lvl l < v - 1 \<or> lvl r < v - 1")
    case True
    then have "1 < v" using lv by auto
    define h2 where "h2 = (let h = set_level a (v - 1) h in
      if bbn_level (h (topn r)) > v - 1 then set_level (topn r) (v - 1) h else h)"
    define t2 where "t2 = Bin l (v - 1) k a (cap_lvl (v - 1) r)"
    have T2: "turns h t h2 t2"
      unfolding t2_def Bin using lower_turns assms(1-3) Bin \<open>1 < v\<close> h2_def by blast
    have a2: "topn t2 = a" by (simp add: t2_def)
    obtain h3 where h3: "bbtree_skew h2 (topn t2) = (h3, topn (skew t2))" "turns h2 t2 h3 (skew t2)"
      using op_specD [OF op_skew turnsD(1-3) [OF T2]] by blast
    let ?t3 = "skew t2"
    have n3: "?t3 \<noteq> Tip" using turnsD(4) [OF h3(2)] t2_def by simp
    obtain h3' where h4: "bbtree_skew h3 (bbn_right (h3 (topn ?t3))) = (h3', topn (case ?t3 of Bin _ _ _ _ r \<Rightarrow> skew r))"
        "turns h3 ?t3 (set_right (topn ?t3) (topn (case ?t3 of Bin _ _ _ _ r \<Rightarrow> skew r)) h3') (on_right skew ?t3)"
      using right_step [OF op_skew turnsD(1-3) [OF h3(2)] n3] by blast
    let ?h4 = "set_right (topn ?t3) (topn (case ?t3 of Bin _ _ _ _ r \<Rightarrow> skew r)) h3'" and ?t4 = "on_right skew ?t3"
    have n4: "?t4 \<noteq> Tip" "topn ?t4 = topn ?t3" using n3 by (cases ?t3; simp)+
    obtain h4' n5 h5 where h5: "bbtree_skew ?h4 (bbn_right (?h4 (bbn_right (?h4 (topn ?t4))))) = (h4', n5)"
        "set_right (bbn_right (h4' (topn ?t4))) n5 h4' = h5" "turns ?h4 ?t4 h5 (on_right (on_right skew) ?t4)"
      using right_right_step [OF op_skew turnsD(1-3) [OF h4(2)] n4(1)] by blast
    let ?t5 = "on_right (on_right skew) ?t4"
    have n5: "?t5 \<noteq> Tip" "topn ?t5 = topn ?t4" using n4 by (cases ?t4; simp)+
    obtain h6 where h6: "bbtree_split h5 (topn ?t5) = (h6, topn (split ?t5))" "turns h5 ?t5 h6 (split ?t5)"
      using op_specD [OF op_split turnsD(1-3) [OF h5(3)]] by blast
    let ?t6 = "split ?t5"
    have n6: "?t6 \<noteq> Tip" using turnsD(4) [OF h6(2)] n5 by simp
    obtain h6' where h7: "bbtree_split h6 (bbn_right (h6 (topn ?t6))) = (h6', topn (case ?t6 of Bin _ _ _ _ r \<Rightarrow> split r))"
        "turns h6 ?t6 (set_right (topn ?t6) (topn (case ?t6 of Bin _ _ _ _ r \<Rightarrow> split r)) h6') (on_right split ?t6)"
      using right_step [OF op_split turnsD(1-3) [OF h6(2)] n6] by blast
    have n7: "topn (on_right split ?t6) = topn ?t6" using n6 by (cases ?t6; simp)
    have t7: "rebalance t = on_right split ?t6" using True Bin by (simp add: rebalance.simps t2_def)
    have low: "bbtree_rebalance h (topn t) =
        (let (h, root) = bbtree_skew h2 (topn t2);
             (h, n) = bbtree_skew h (bbn_right (h root));
             h = set_right root n h;
             (h, n) = bbtree_skew h (bbn_right (h (bbn_right (h root))));
             h = set_right (bbn_right (h root)) n h;
             (h, root) = bbtree_split h root;
             (h, n) = bbtree_split h (bbn_right (h root));
             h = set_right root n h
         in (h, root))"
      using True Bin lv(1,2) a unfolding bbtree_rebalance_def a2 h2_def by (simp add: Let_def)
    have "bbtree_rebalance h (topn t) =
        (set_right (topn ?t6) (topn (case ?t6 of Bin _ _ _ _ r \<Rightarrow> split r)) h6', topn ?t6)"
      unfolding low using h3(1) h4(1) h5(1,2) h6(1) h7(1) n4(2) n5(2)
      by (simp add: Let_def del: heap_fields)
    moreover have "turns h t (set_right (topn ?t6) (topn (case ?t6 of Bin _ _ _ _ r \<Rightarrow> split r)) h6') (rebalance t)"
      unfolding t7 using T2 h3(2) h4(2) h5(3) h6(2) h7(2) turns_trans by blast
    ultimately show ?thesis using t7 n7 by simp
  next
    case False
    then show ?thesis using Bin lv a assms turns_refl [OF assms(1-3)] by (simp add: bbtree_rebalance_def rebalance.simps)
  qed
qed (use assms(4) in simp)

subsection \<open>Replacing a node\<close>

fun ren :: "nat \<Rightarrow> size_t \<Rightarrow> nat \<Rightarrow> (size_t, nat) bbt \<Rightarrow> (size_t, nat) bbt" where
  "ren d k' m Tip = Tip"
| "ren d k' m (Bin l v k a r) =
     Bin (ren d k' m l) v (if a = d then k' else k) (if a = d then m else a) (ren d k' m r)"

lemma ren_id: "d \<notin> set (nodes t) \<Longrightarrow> ren d k' m t = t"
  by (induction t) auto

lemma ren_Tip [simp]: "ren d k' m t = Tip \<longleftrightarrow> t = Tip"
  by (cases t) auto

lemma lvl_ren [simp]: "lvl (ren d k' m t) = lvl t"
  by (cases t) auto

lemma nodes_ren: "nodes (ren d k' m t) = map (\<lambda>x. if x = d then m else x) (nodes t)"
  by (induction t) auto

lemma topn_ren: "t \<noteq> Tip \<Longrightarrow> topn (ren d k' m t) = (if topn t = d then m else topn t)"
  by (cases t) auto

lemma skew_ren: "skew (ren d k' m t) = ren d k' m (skew t)"
  by (cases t rule: skew.cases) auto

lemma split_ren: "split (ren d k' m t) = ren d k' m (split t)"
  by (cases t rule: split.cases) auto

lemma on_right_ren: "(\<And>t. f (ren d k' m t) = ren d k' m (f t)) \<Longrightarrow> on_right f (ren d k' m t) = ren d k' m (on_right f t)"
  by (cases t) auto

lemma cap_lvl_ren: "cap_lvl u (ren d k' m t) = ren d k' m (cap_lvl u t)"
  by (cases t) auto

lemma rebalance_ren: "rebalance (ren d k' m t) = ren d k' m (rebalance t)"
proof (cases t)
  case (Bin l v k a r)
  have core: "on_right split (split (on_right (on_right skew) (on_right skew (skew (ren d k' m X))))) =
      ren d k' m (on_right split (split (on_right (on_right skew) (on_right skew (skew X)))))" for X
    by (simp add: skew_ren split_ren on_right_ren)
  show ?thesis
    using core [of "Bin l (v - 1) k a (cap_lvl (v - 1) r)"] Bin by (simp add: rebalance.simps cap_lvl_ren)
qed simp

lemma rep_children:
  assumes "rep h t" "distinct (nodes t)" "d \<in> set (nodes t)"
  shows "bbn_left (h d) = NIL \<or> bbn_left (h d) \<in> set (nodes t) - {topn t}"
    and "bbn_right (h d) = NIL \<or> bbn_right (h d) \<in> set (nodes t) - {topn t}"
    and "d \<noteq> topn t \<Longrightarrow> bbn_parent (h d) \<in> set (nodes t)"
proof -
  have "(bbn_left (h d) = NIL \<or> bbn_left (h d) \<in> set (nodes t) - {topn t}) \<and>
      (bbn_right (h d) = NIL \<or> bbn_right (h d) \<in> set (nodes t) - {topn t}) \<and>
      (d \<noteq> topn t \<longrightarrow> bbn_parent (h d) \<in> set (nodes t))"
    using assms
  proof (induction t)
    case (Bin l v k a r)
    consider "d = a" | "d \<in> set (nodes l)" "d \<noteq> a" | "d \<in> set (nodes r)" "d \<noteq> a"
      using Bin.prems(2,3) by auto
    then show ?case
    proof cases
      case 1
      then show ?thesis using Bin.prems(1,2) topn_cases [of l] topn_cases [of r] by auto
    next
      case 2
      then show ?thesis using Bin.IH(1) Bin.prems(1,2) by (cases "d = topn l") auto
    next
      case 3
      then show ?thesis using Bin.IH(2) Bin.prems(1,2) by (cases "d = topn r") auto
    qed
  qed simp
  then show "bbn_left (h d) = NIL \<or> bbn_left (h d) \<in> set (nodes t) - {topn t}"
    "bbn_right (h d) = NIL \<or> bbn_right (h d) \<in> set (nodes t) - {topn t}"
    "d \<noteq> topn t \<Longrightarrow> bbn_parent (h d) \<in> set (nodes t)" by auto
qed

lemma swap_fields:
  assumes "h2 = swap_last h d m" "m \<noteq> NIL" "q = bbn_parent (h d)" "q \<noteq> m"
    "bbn_left (h d) \<noteq> m" "bbn_right (h d) \<noteq> m"
  shows "bbn_left (h2 x) = (if x = m then bbn_left (h d) else if x = q \<and> q \<noteq> NIL \<and> bbn_left (h q) = d then m else bbn_left (h x))"
    "bbn_right (h2 x) = (if x = m then bbn_right (h d) else if x = q \<and> q \<noteq> NIL \<and> bbn_left (h q) \<noteq> d then m else bbn_right (h x))"
    "bbn_value (h2 x) = bbn_value (h x)"
    "bbn_level (h2 x) = (if x = m then bbn_level (h d) else bbn_level (h x))"
    "bbn_parent (h2 x) = (if x = bbn_left (h d) \<or> x = bbn_right (h d) then m else if x = m then q else bbn_parent (h x))"
    "x \<notin> {m, q, bbn_left (h d), bbn_right (h d)} \<Longrightarrow> h2 x = h x"
  using assms(2-6) unfolding assms(1) swap_last_def Let_def
  by (simp_all add: heap_others)

lemma swap_rep:
  assumes h2: "h2 = swap_last h d m" "m \<noteq> NIL" "q = bbn_parent (h d)" "q \<noteq> m" "bbn_value (h m) = k'"
    and t: "rep h t" "distinct (nodes t)" "d \<in> set (nodes t)" "m \<notin> set (nodes t)" "d = topn t \<Longrightarrow> q \<notin> set (nodes t)"
  shows "rep h2 (ren d k' m t) \<and> (d \<noteq> topn t \<longrightarrow> bbn_parent (h2 (topn t)) = bbn_parent (h (topn t)))"
  using t
proof (induction t)
  case (Bin l v k a r)
  have "bbn_left (h d) \<noteq> m" "bbn_right (h d) \<noteq> m" 
    using rep_children(1,2) [OF Bin.prems(1,2,3)] Bin.prems(4) h2(2) by auto
  note f = swap_fields [OF h2(1-4) this]
  have ch: "x \<in> {bbn_left (h d), bbn_right (h d)} \<Longrightarrow> x \<noteq> NIL \<Longrightarrow> x \<in> set (nodes s) - {topn s}"
    if "rep h s" "distinct (nodes s)" "d \<in> set (nodes s)" for s x
    using rep_children [OF that] by auto
  have nd: "a \<notin> set (nodes l)" "a \<notin> set (nodes r)" "set (nodes l) \<inter> set (nodes r) = {}" "a \<noteq> m" "a \<noteq> NIL"
    "NIL \<notin> set (nodes l)" "NIL \<notin> set (nodes r)" "m \<notin> set (nodes l)" "m \<notin> set (nodes r)"
    "rep h l" "rep h r" "distinct (nodes l)" "distinct (nodes r)"
    using Bin.prems rep_NIL by auto
  have other: "rep h2 s" "s \<noteq> Tip \<Longrightarrow> bbn_parent (h2 (topn s)) = bbn_parent (h (topn s))"
    if "rep h s" "distinct (nodes s)" "q \<notin> set (nodes s)" "m \<notin> set (nodes s)"
      "\<And>x. x \<in> {bbn_left (h d), bbn_right (h d)} \<Longrightarrow> x \<notin> set (nodes s)" for s
  proof -
    have same: "\<forall>x\<in>set (nodes s). h2 x = h x"
    proof
      fix x assume "x \<in> set (nodes s)"
      then have "x \<noteq> m" "x \<noteq> q" "x \<noteq> bbn_left (h d)" "x \<noteq> bbn_right (h d)" using that by auto
      then show "h2 x = h x" by (intro f(6)) simp
    qed
    then show "rep h2 s" using that rep_frame by blast
    show "s \<noteq> Tip \<Longrightarrow> bbn_parent (h2 (topn s)) = bbn_parent (h (topn s))" using same topn_nodes by auto
  qed
  consider "d = a" | "d \<in> set (nodes l)" "d \<noteq> a" | "d \<in> set (nodes r)" "d \<noteq> a"
    using Bin.prems(2,3) by auto
  then show ?case
  proof cases
    case 1
    have da: "bbn_left (h d) = topn l" "bbn_right (h d) = topn r" "q \<notin> set (nodes l)" "q \<notin> set (nodes r)"
      using 1 Bin.prems(1,5) by simp_all
    have "\<forall>x\<in>set (nodes l). x \<noteq> m \<and> x \<noteq> q \<and> x \<noteq> topn r" "\<forall>x\<in>set (nodes r). x \<noteq> m \<and> x \<noteq> q \<and> x \<noteq> topn l"
      using nd da(3,4) topn_cases [of l] topn_cases [of r] by auto
    then have "same l h h2" "same r h h2" by (simp_all add: same_def f da(1,2))
    then have "rep h2 l" "rep h2 r" using nd by (auto intro: rep_same)
    then show ?thesis using 1 f nd h2(2,5) Bin.prems(1) by (simp add: ren_id)
  next
    case 2
    have lT: "l \<noteq> Tip" using 2 by auto
    have q: "if d = topn l then q = a else q \<in> set (nodes l)"
      using rep_children(3) [OF nd(10,12) 2(1)] h2(3) Bin.prems(1) lT by auto
    have c: "\<And>x. x \<in> {bbn_left (h d), bbn_right (h d)} \<Longrightarrow> x \<notin> insert a (set (nodes r))"
      using ch [OF nd(10,12) 2(1)] nd by fastforce
    have IH: "rep h2 (ren d k' m l)" "d \<noteq> topn l \<longrightarrow> bbn_parent (h2 (topn l)) = bbn_parent (h (topn l))"
      using Bin.IH(1) nd 2(1) q by auto
    have R: "rep h2 r" "r \<noteq> Tip \<Longrightarrow> bbn_parent (h2 (topn r)) = bbn_parent (h (topn r))"
      using other [of r] nd q c by (auto split: if_splits)
    have dr: "d \<notin> set (nodes r)" using 2 nd by auto
    have pm: "bbn_parent (h2 m) = q" using f(5) [of m] \<open>bbn_left (h d) \<noteq> m\<close> \<open>bbn_right (h d) \<noteq> m\<close> by simp
    have pa: "bbn_parent (h2 a) = bbn_parent (h a)" using f(5) [of a] c nd(4) by auto
    show ?thesis
    proof (cases "d = topn l")
      case True
      then show ?thesis unfolding ren.simps ren_id [OF dr]
        using q IH R pm pa f(1-4) [of a] 2(2) nd(4,5) Bin.prems(1) lT by (simp add: topn_ren)
    next
      case False
      then have "q \<noteq> a" using q nd by auto
      then show ?thesis
        using False q IH R pm pa f(1-4) [of a] 2(2) nd(4,5) Bin.prems(1) lT by (simp add: ren_id [OF dr] topn_ren)
    qed
  next
    case 3
    have rT: "r \<noteq> Tip" using 3 by auto
    have q: "if d = topn r then q = a else q \<in> set (nodes r)"
      using rep_children(3) [OF nd(11,13) 3(1)] h2(3) Bin.prems(1) rT by auto
    have c: "\<And>x. x \<in> {bbn_left (h d), bbn_right (h d)} \<Longrightarrow> x \<notin> insert a (set (nodes l))"
      using ch [OF nd(11,13) 3(1)] nd by fastforce
    have IH: "rep h2 (ren d k' m r)" "d \<noteq> topn r \<longrightarrow> bbn_parent (h2 (topn r)) = bbn_parent (h (topn r))"
      using Bin.IH(2) nd 3(1) q by auto
    have L: "rep h2 l" "l \<noteq> Tip \<Longrightarrow> bbn_parent (h2 (topn l)) = bbn_parent (h (topn l))"
      using other [of l] nd q c by (auto split: if_splits)
    have dl: "d \<notin> set (nodes l)" "topn l \<noteq> d" using 3 nd topn_cases [of l] rep_nodes [OF nd(11)] by auto
    have pm: "bbn_parent (h2 m) = q" using f(5) [of m] \<open>bbn_left (h d) \<noteq> m\<close> \<open>bbn_right (h d) \<noteq> m\<close> by simp
    have pa: "bbn_parent (h2 a) = bbn_parent (h a)" using f(5) [of a] c nd(4) by auto
    show ?thesis
    proof (cases "d = topn r")
      case True
      then show ?thesis unfolding ren.simps ren_id [OF dl(1)]
        using q IH L pm pa f(1-4) [of a] 3(2) nd(4,5) Bin.prems(1) rT dl(2) by (simp add: topn_ren)
    next
      case False
      then have "q \<noteq> a" using q nd by auto
      then show ?thesis
        using False q IH L pm pa f(1-4) [of a] 3(2) nd(4,5) Bin.prems(1) rT by (simp add: ren_id [OF dl(1)] topn_ren)
    qed
  qed
qed simp

subsection \<open>Removal\<close>

lemma nodes_del_min: "t \<noteq> Tip \<Longrightarrow> del_min t = ((km, m), t') \<Longrightarrow> nodes t = m # nodes t'"
  using entries_del_min [of t "(km, m)" t'] by (simp add: nodes_entries)

lemma rebalance_check:
  assumes "rep h t" "nil_ok h" "distinct (nodes t)" "t \<noteq> Tip"
  obtains h' c where "bbtree_rebalance h (topn t) = (h', topn (rebalance t))" "turns h t h' (rebalance t)"
    "bbtree_check h' (topn (rebalance t)) = Some c"
  using rebalance_turns [OF assms] check_ends turnsD(1,2) by blast

lemma turns_frame: "turns h t h' t' \<Longrightarrow> x \<notin> set (nodes t) \<Longrightarrow> x \<noteq> NIL \<Longrightarrow> h' x = h x"
  by (simp add: turns_def)

lemma remove_min:
  assumes "rep h t" "nil_ok h" "distinct (nodes t)" "t \<noteq> Tip" "\<forall>e\<in>set (entries t). j < fst e"
    "rm_deleted del = d" "d \<notin> set (nodes t)" "d \<noteq> NIL" "bbn_value (h d) = j" "del_min t = ((km, m), t')"
  shows "\<exists>h'. bbtree_remove' h (topn t) j del = Some (h', topn t', del\<lparr>rm_last := m\<rparr>, True) \<and>
    rep h' t' \<and> nil_ok h' \<and> (t' \<noteq> Tip \<longrightarrow> bbn_parent (h' (topn t')) = bbn_parent (h (topn t))) \<and>
    (\<forall>x. x \<notin> set (nodes t) \<longrightarrow> x \<noteq> NIL \<longrightarrow> h' x = h x) \<and> bbn_left (h' m) = NIL \<and> bbn_value (h' m) = km"
  using assms
proof (induction t arbitrary: del km m t' rule: del_min.induct)
  case (1 v k a r)
  let ?h1 = "set_parent NIL a (set_left a NIL h)"
  let ?h2 = "set_parent (topn r) (bbn_parent (?h1 a)) ?h1"
  have a: "a \<noteq> NIL" "bbn_left (h a) = NIL" "bbn_right (h a) = topn r" "bbn_value (h a) = k" "j < k" "d \<noteq> a"
    "km = k" "m = a" "t' = r" "a \<notin> set (nodes r)" "topn r \<noteq> a"
    using "1.prems" topn_cases [of r] by auto
  have "bbtree_remove' h a j del = Some (?h2, topn r, del\<lparr>rm_last := a\<rparr>, True)"
    using a "1.prems"(6-9) by (simp add: bbtree_remove'.simps [of h a] bbtree_remove'.simps [of h NIL] Let_def)
  moreover have "same r h ?h2" using a rep_NIL [of h r] "1.prems"(1) by (auto simp: same_def)
  then have "rep ?h2 r" using "1.prems"(1,3) by (auto intro: rep_same)
  moreover have "nil_ok ?h2" using "1.prems"(2) a by (simp add: nil_ok_def)
  moreover have "?h2 x = h x" if "x \<notin> set (nodes (Bin Tip v k a r))" "x \<noteq> NIL" for x
    using that topn_cases [of r] by (subgoal_tac "x \<noteq> topn r") (auto simp: heap_others)
  ultimately show ?case using a by auto
next
  case (2 ll lv lk la lr v k a r)
  define l where "l = Bin ll lv lk la lr"
  obtain e l' where "del_min l = (e, l')" by fastforce
  then have dm: "del_min l = ((km, m), l')" and t': "t' = rebalance (Bin l' v k a r)"
    using "2.prems"(10) by (auto simp: l_def split: prod.splits)
  have nl: "nodes l = m # nodes l'" using nodes_del_min [OF _ dm] by (simp add: l_def)
  note prems = "2.prems" [folded l_def]
  have a: "a \<noteq> NIL" "bbn_left (h a) = topn l" "bbn_value (h a) = k" "j < k" "d \<noteq> a" "a \<notin> set (nodes l)"
    "m \<noteq> a" "m \<noteq> NIL" "m \<notin> set (nodes l')" "m \<notin> set (nodes r)" "d \<notin> set (nodes l)"
    using prems nl rep_nodes [of h l m] by auto
  have "\<exists>h'. bbtree_remove' h (topn l) j (del\<lparr>rm_last := a\<rparr>) =
      Some (h', topn l', (del\<lparr>rm_last := a\<rparr>)\<lparr>rm_last := m\<rparr>, True) \<and> rep h' l' \<and> nil_ok h' \<and>
      (l' \<noteq> Tip \<longrightarrow> bbn_parent (h' (topn l')) = bbn_parent (h (topn l))) \<and>
      (\<forall>x. x \<notin> set (nodes l) \<longrightarrow> x \<noteq> NIL \<longrightarrow> h' x = h x) \<and> bbn_left (h' m) = NIL \<and> bbn_value (h' m) = km"
    unfolding l_def by (rule "2.IH") (use prems dm in \<open>simp_all add: l_def [symmetric]\<close>, simp_all add: l_def)
  then obtain h1 where h1: "bbtree_remove' h (topn l) j (del\<lparr>rm_last := a\<rparr>) = Some (h1, topn l', del\<lparr>rm_last := m\<rparr>, True)"
    "rep h1 l'" "nil_ok h1" "\<forall>x. x \<notin> set (nodes l) \<longrightarrow> x \<noteq> NIL \<longrightarrow> h1 x = h x" "bbn_left (h1 m) = NIL" "bbn_value (h1 m) = km"
    by auto
  have d': "distinct (nodes (Bin l' v k a r))" using prems(3) nl by auto
  have "\<forall>x\<in>set (nodes r). x \<notin> set (nodes l) \<and> x \<noteq> NIL" using prems(1,3) rep_NIL [of h r] by auto
  then have keep: "h1 a = h a" "\<forall>x\<in>set (nodes r). h1 x = h x" "h1 d = h d"
    using h1(4) a(1,6,11) prems(8) by simp_all
  obtain h2 where h2: "h2 = set_parent (topn l') a (set_left a (topn l') h1)" "rep h2 (Bin l' v k a r)" "nil_ok h2"
    "bbn_parent (h2 a) = bbn_parent (h a)" "\<forall>x. x \<noteq> a \<longrightarrow> x \<noteq> topn l' \<longrightarrow> h2 x = h1 x"
    using reattach_left [OF prems(1) h1(2,3)] d' keep by auto
  obtain h3 c where h3: "bbtree_rebalance h2 a = (h3, topn t')" "turns h2 (Bin l' v k a r) h3 t'"
    "bbtree_check h3 (topn t') = Some c"
    using rebalance_check [OF h2(2,3) d'] t' by auto
  have run: "bbtree_remove' h a j del = Some (h3, topn t', del\<lparr>rm_last := m\<rparr>, True)"
    using a h1(1) h3(1,3) prems(6) by (simp add: bbtree_remove'.simps [of h a] Let_def flip: h2(1))
  have fr: "h3 x = h1 x" if "x \<notin> set (nodes (Bin l' v k a r))" "x \<noteq> NIL" for x
  proof -
    have "h3 x = h2 x" using turns_frame [OF h3(2) that] .
    moreover have "x \<noteq> a" "x \<noteq> topn l'" using that topn_cases [of l'] by auto
    ultimately show ?thesis using h2(5) by simp
  qed
  have "h3 x = h x" if "x \<notin> set (nodes (Bin l v k a r))" "x \<noteq> NIL" for x
    using that fr [of x] h1(4) nl by auto
  moreover have "h3 m = h1 m" using fr [of m] a by auto
  ultimately show ?case using run h3(2) h2(4) h1(5,6) by (auto simp: turns_def l_def)
qed simp

definition removed :: "bbheap \<Rightarrow> (size_t, nat) bbt \<Rightarrow> bbheap \<Rightarrow> (size_t, nat) bbt \<Rightarrow> bool" where
  "removed h t h' t' \<longleftrightarrow> rep h' t' \<and> nil_ok h' \<and>
     (t' \<noteq> Tip \<longrightarrow> bbn_parent (h' (topn t')) = bbn_parent (h (topn t))) \<and>
     (\<forall>x. x \<notin> set (nodes t) \<longrightarrow> x \<noteq> NIL \<longrightarrow>
        bbn_parent (h' x) = bbn_parent (h x) \<and> bbn_value (h' x) = bbn_value (h x) \<and> bbn_level (h' x) = bbn_level (h x) \<and>
        (x \<noteq> bbn_parent (h (topn t)) \<longrightarrow> h' x = h x) \<and>
        (if bbn_left (h x) = topn t then bbn_right (h' x) = bbn_right (h x) else bbn_left (h' x) = bbn_left (h x)))"

lemma removedI:
  assumes "turns h2 t2 h3 t3" "bbn_parent (h2 (topn t2)) = bbn_parent (h (topn t))" "t2 \<noteq> Tip"
    "set (nodes t2) \<subseteq> set (nodes t)" "\<And>x. x \<notin> set (nodes t) \<Longrightarrow> x \<noteq> NIL \<Longrightarrow> h2 x = h x"
  shows "removed h t h3 t3"
proof -
  have "h3 x = h x" if "x \<notin> set (nodes t)" "x \<noteq> NIL" for x
    using turns_frame [OF assms(1), of x] that assms(4,5) by auto
  then show ?thesis using assms(1-3) by (simp add: removed_def turns_def)
qed

lemma swap_removed:
  assumes t: "rep h2 t2" "nil_ok h2" "distinct (nodes t2)" "a \<in> set (nodes t2)" "m \<notin> set (nodes t2)" "m \<noteq> NIL"
    "bbn_value (h2 m) = km" "bbn_parent (h2 (topn t2)) = bbn_parent (h a)" "topn t = a"
    and q: "bbn_parent (h a) \<notin> set (nodes t)" and sub: "insert m (set (nodes t2)) \<subseteq> set (nodes t)"
    and fr: "\<And>x. x \<notin> set (nodes t) \<Longrightarrow> x \<noteq> NIL \<Longrightarrow> h2 x = h x"
  shows "removed h t (swap_last h2 a m) (ren a km m t2)"
proof -
  let ?q = "bbn_parent (h2 a)" and ?h3 = "swap_last h2 a m"
  have q2: "if a = topn t2 then ?q = bbn_parent (h a) else ?q \<in> set (nodes t2)"
    using rep_children(3) [OF t(1,3,4)] t(8) by simp
  then have qm: "?q \<noteq> m" "a = topn t2 \<Longrightarrow> ?q \<notin> set (nodes t2)" using q sub t(5) by (auto split: if_splits)
  have nm: "bbn_left (h2 a) \<noteq> m" "bbn_right (h2 a) \<noteq> m" using rep_children(1,2) [OF t(1,3,4)] t(5,6) by auto
  note f = swap_fields [of ?h3 h2 a m ?q, OF refl t(6) refl qm(1) nm]
  have r: "rep ?h3 (ren a km m t2)"
    "a \<noteq> topn t2 \<longrightarrow> bbn_parent (?h3 (topn t2)) = bbn_parent (h2 (topn t2))"
    using swap_rep [of ?h3 h2 a m ?q, OF refl t(6) refl qm(1) t(7) t(1,3,4,5)] qm(2) by auto
  have "t2 \<noteq> Tip" using t(4) by auto
  then have top: "bbn_parent (?h3 (topn (ren a km m t2))) = bbn_parent (h a)"
    using r(2) t(8) f(5) [of m] nm q2 by (simp add: topn_ren split: if_splits)
  have "nil_ok ?h3" using t(2,6) by (simp add: nil_ok_def f)
  moreover have "bbn_parent (?h3 x) = bbn_parent (h x) \<and> bbn_value (?h3 x) = bbn_value (h x) \<and>
      bbn_level (?h3 x) = bbn_level (h x) \<and> (x \<noteq> bbn_parent (h a) \<longrightarrow> ?h3 x = h x) \<and>
      (if bbn_left (h x) = a then bbn_right (?h3 x) = bbn_right (h x) else bbn_left (?h3 x) = bbn_left (h x))"
    if x: "x \<notin> set (nodes t)" "x \<noteq> NIL" for x
  proof -
    have "x \<notin> {m, bbn_left (h2 a), bbn_right (h2 a)}" using x sub rep_children(1,2) [OF t(1,3,4)] by auto
    moreover have "x = ?q \<Longrightarrow> x = bbn_parent (h a)" using q2 x sub by (auto split: if_splits)
    ultimately show ?thesis using f [of x] fr [OF x] by auto
  qed
  ultimately show ?thesis unfolding removed_def t(9) using r(1) top by blast
qed

lemma nodes_remove:
  assumes "aa t" "sorted_keys (entries t)" "distinct (nodes t)"
  shows "set (nodes (bb_remove j t)) \<subseteq> set (nodes t)" "distinct (nodes (bb_remove j t))"
  using assms entries_remove [OF assms(1,2), of j]
  by (auto simp: nodes_entries distinct_map inj_on_def)

lemma remove_refines:
  assumes "rep h t" "nil_ok h" "distinct (nodes t)" "aa t" "sorted_keys (entries t)" "j \<in> fst ` set (entries t)"
    "bbn_parent (h (topn t)) \<notin> set (nodes t)"
  shows "\<exists>h' del'. bbtree_remove' h (topn t) j del = Some (h', topn (bb_remove j t), del', True) \<and>
    removed h t h' (bb_remove j t) \<and> rm_last del' \<in> set (nodes t) \<and> rm_deleted del' \<in> set (nodes t)"
  using assms
proof (induction t arbitrary: del)
  case (Bin l v k a r)
  have a: "a \<noteq> NIL" "bbn_left (h a) = topn l" "bbn_right (h a) = topn r" "bbn_value (h a) = k"
    "a \<notin> set (nodes l)" "a \<notin> set (nodes r)" "rep h l" "rep h r" "distinct (nodes l)" "distinct (nodes r)"
    "set (nodes l) \<inter> set (nodes r) = {}" "aa l" "aa r"
    using Bin.prems(1,3,4) by auto
  have s: "sorted_keys (entries l)" "sorted_keys (entries r)"
    "\<forall>e\<in>set (entries l). fst e < k" "\<forall>e\<in>set (entries r). k < fst e"
    using Bin.prems(5) by (auto simp: sorted_wrt_append)
  have nn: "NIL \<notin> set (nodes l)" "NIL \<notin> set (nodes r)" using a by (auto dest: rep_NIL)
  consider "j < k" | "k < j" | "j = k" by fastforce
  then show ?case
  proof cases
    case 1
    have jl: "j \<in> fst ` set (entries l)" using 1 Bin.prems(6) s(4) by force
    then have pl: "bbn_parent (h (topn l)) = a" using Bin.prems(1) by (cases l) auto
    obtain h1 del1 where h1: "bbtree_remove' h (topn l) j (del\<lparr>rm_last := a\<rparr>) = Some (h1, topn (bb_remove j l), del1, True)"
      "removed h l h1 (bb_remove j l)" "rm_last del1 \<in> set (nodes l)" "rm_deleted del1 \<in> set (nodes l)"
      using Bin.IH(1) [OF a(7) Bin.prems(2) a(9,12) s(1) jl, unfolded pl, OF a(5)] by blast
    define l' where "l' = bb_remove j l"
    note nl = nodes_remove [OF a(12) s(1) a(9), of j, folded l'_def]
    have d': "distinct (nodes (Bin l' v k a r))" using nl a by auto
    have keep: "\<forall>x. x \<notin> set (nodes (Bin l v k a r)) \<longrightarrow> x \<noteq> NIL \<longrightarrow> h1 x = h x" "\<forall>x\<in>set (nodes r). h1 x = h x"
      "bbn_parent (h1 a) = bbn_parent (h a)" "bbn_right (h1 a) = bbn_right (h a)"
      "bbn_value (h1 a) = bbn_value (h a)" "bbn_level (h1 a) = bbn_level (h a)" "rep h1 l'" "nil_ok h1"
      using h1(2) a pl nn by (auto simp: removed_def l'_def)
    obtain h2 where h2: "h2 = set_parent (topn l') a (set_left a (topn l') h1)" "rep h2 (Bin l' v k a r)" "nil_ok h2"
      "bbn_parent (h2 a) = bbn_parent (h a)" "\<forall>x. x \<noteq> a \<longrightarrow> x \<noteq> topn l' \<longrightarrow> h2 x = h1 x"
      using reattach_left [OF Bin.prems(1) keep(7,8) _ keep(2-6)] d' by auto
    obtain h3 c where h3: "bbtree_rebalance h2 a = (h3, topn (rebalance (Bin l' v k a r)))"
      "turns h2 (Bin l' v k a r) h3 (rebalance (Bin l' v k a r))" "bbtree_check h3 (topn (rebalance (Bin l' v k a r))) = Some c"
      using rebalance_check [OF h2(2,3) d'] by auto
    have "rm_last del1 \<noteq> a" "rm_deleted del1 \<noteq> a" using h1(3,4) a by auto
    then have "bbtree_remove' h a j del = Some (h3, topn (rebalance (Bin l' v k a r)), del1, True)"
      using 1 a(1-4) h1(1) [folded l'_def] h3(1,3) by (simp add: bbtree_remove'.simps [of h a] Let_def flip: h2(1))
    moreover have "h2 x = h x" if "x \<notin> set (nodes (Bin l v k a r))" "x \<noteq> NIL" for x
      using that h2(5) keep(1) nl topn_cases [of l'] by auto
    then have "removed h (Bin l v k a r) h3 (rebalance (Bin l' v k a r))"
      using removedI [OF h3(2), of h "Bin l v k a r"] h2(4) nl by auto
    ultimately show ?thesis using 1 h1(3,4) by (simp add: l'_def)
  next
    case 2
    have jr: "j \<in> fst ` set (entries r)" using 2 Bin.prems(6) s(3) by force
    then have pr: "bbn_parent (h (topn r)) = a" using Bin.prems(1) by (cases r) auto
    obtain h1 del1 where h1: "bbtree_remove' h (topn r) j (del\<lparr>rm_last := a, rm_deleted := a\<rparr>) = Some (h1, topn (bb_remove j r), del1, True)"
      "removed h r h1 (bb_remove j r)" "rm_last del1 \<in> set (nodes r)" "rm_deleted del1 \<in> set (nodes r)"
      using Bin.IH(2) [OF a(8) Bin.prems(2) a(10,13) s(2) jr, unfolded pr, OF a(6)] by blast
    have tl: "topn l \<noteq> topn r" using topn_diff(2) [OF Bin.prems(1,3)] jr by fastforce
    define r' where "r' = bb_remove j r"
    note nr = nodes_remove [OF a(13) s(2) a(10), of j, folded r'_def]
    have d': "distinct (nodes (Bin l v k a r'))" using nr a by auto
    have keep: "\<forall>x. x \<notin> set (nodes (Bin l v k a r)) \<longrightarrow> x \<noteq> NIL \<longrightarrow> h1 x = h x" "\<forall>x\<in>set (nodes l). h1 x = h x"
      "bbn_parent (h1 a) = bbn_parent (h a)" "bbn_left (h1 a) = bbn_left (h a)"
      "bbn_value (h1 a) = bbn_value (h a)" "bbn_level (h1 a) = bbn_level (h a)" "rep h1 r'" "nil_ok h1"
      using h1(2) a pr nn tl by (auto simp: removed_def r'_def)
    obtain h2 where h2: "h2 = set_parent (topn r') a (set_right a (topn r') h1)" "rep h2 (Bin l v k a r')" "nil_ok h2"
      "bbn_parent (h2 a) = bbn_parent (h a)" "\<forall>x. x \<noteq> a \<longrightarrow> x \<noteq> topn r' \<longrightarrow> h2 x = h1 x"
      using reattach_right [OF Bin.prems(1) keep(7,8) _ keep(2-6)] d' by auto
    obtain h3 c where h3: "bbtree_rebalance h2 a = (h3, topn (rebalance (Bin l v k a r')))"
      "turns h2 (Bin l v k a r') h3 (rebalance (Bin l v k a r'))" "bbtree_check h3 (topn (rebalance (Bin l v k a r'))) = Some c"
      using rebalance_check [OF h2(2,3) d'] by auto
    have nk: "\<not> j < k" "j \<noteq> k" using 2 by auto
    have "rm_last del1 \<noteq> a" "rm_deleted del1 \<noteq> a" using h1(3,4) a by auto
    then have "bbtree_remove' h a j del = Some (h3, topn (rebalance (Bin l v k a r')), del1, True)"
      using nk a(1-4) h1(1) [folded r'_def] h3(1,3) by (simp add: bbtree_remove'.simps [of h a] Let_def flip: h2(1))
    moreover have "h2 x = h x" if "x \<notin> set (nodes (Bin l v k a r))" "x \<noteq> NIL" for x
      using that h2(5) keep(1) nr topn_cases [of r'] by auto
    then have "removed h (Bin l v k a r) h3 (rebalance (Bin l v k a r'))"
      using removedI [OF h3(2), of h "Bin l v k a r"] h2(4) nr by auto
    ultimately show ?thesis using 2 nk h1(3,4) by (simp add: r'_def)
  next
    case 3
    show ?thesis
    proof (cases "r = Tip")
      case True
      have "l = Tip" using Bin.prems(4) True by (auto intro: lvl_zero)
      let ?h1 = "set_parent NIL a (set_right a NIL h)"
      have "bbtree_remove' h a j del =
          Some (set_parent NIL (bbn_parent (?h1 a)) ?h1, NIL, del\<lparr>rm_last := a, rm_deleted := a\<rparr>, True)"
        using 3 a True by (simp add: bbtree_remove'.simps [of h a] bbtree_remove'.simps [of h NIL] Let_def)
      then show ?thesis using 3 True a(1) Bin.prems(2)
        by (simp add: removed_def nil_ok_def heap_others)
    next
      case False
      obtain km m r' where dm: "del_min r = ((km, m), r')" by (metis prod.exhaust)
      have nr: "nodes r = m # nodes r'" by (rule nodes_del_min [OF False dm])
      let ?del = "del\<lparr>rm_last := a, rm_deleted := a\<rparr>"
      obtain h1 where h1: "bbtree_remove' h (topn r) j ?del = Some (h1, topn r', ?del\<lparr>rm_last := m\<rparr>, True)"
        "rep h1 r'" "nil_ok h1" "\<forall>x. x \<notin> set (nodes r) \<longrightarrow> x \<noteq> NIL \<longrightarrow> h1 x = h x" "bbn_left (h1 m) = NIL" "bbn_value (h1 m) = km"
        using remove_min [OF a(8) Bin.prems(2) a(10) False _ _ a(6,1) _ dm, of j ?del] s(4) 3 a(4) by auto
      have m: "m \<noteq> a" "m \<noteq> NIL" "m \<notin> set (nodes r')" "m \<notin> set (nodes l)" using nr a nn by auto
      have d': "distinct (nodes (Bin l v k a r'))" using nr a by auto
      have "\<forall>x\<in>set (nodes l). x \<notin> set (nodes r) \<and> x \<noteq> NIL" using a(11) nn by auto
      then have keep: "h1 a = h a" "\<forall>x\<in>set (nodes l). h1 x = h x" using h1(4) a(1,6) by auto
      obtain h2 where h2: "h2 = set_parent (topn r') a (set_right a (topn r') h1)" "rep h2 (Bin l v k a r')" "nil_ok h2"
        "bbn_parent (h2 a) = bbn_parent (h a)" "\<forall>x. x \<noteq> a \<longrightarrow> x \<noteq> topn r' \<longrightarrow> h2 x = h1 x"
        using reattach_right [OF Bin.prems(1) h1(2,3)] d' keep by auto
      let ?t3 = "rebalance (Bin l v k a r')"
      obtain h3 c where h3: "bbtree_rebalance h2 a = (h3, topn ?t3)" "turns h2 (Bin l v k a r') h3 ?t3"
        "bbtree_check h3 (topn ?t3) = Some c"
        using rebalance_check [OF h2(2,3) d'] by auto
      have fr: "h3 x = h1 x" if "x \<notin> set (nodes (Bin l v k a r'))" "x \<noteq> NIL" for x
        using turns_frame [OF h3(2) that] h2(5) that topn_cases [of r'] by auto
      have m3: "h3 m = h1 m" using fr m by simp
      have set3: "set (nodes ?t3) = set (nodes (Bin l v k a r'))" using h3(2) by (simp add: turns_def)
      have R: "removed h (Bin l v k a r) (swap_last h3 a m) (ren a km m ?t3)"
      proof (rule swap_removed)
        show "bbn_parent (h3 (topn ?t3)) = bbn_parent (h a)" using h3(2) h2(4) by (simp add: turns_def)
        show "h3 x = h x" if "x \<notin> set (nodes (Bin l v k a r))" "x \<noteq> NIL" for x
          using that fr [of x] h1(4) nr by auto
      qed (use turnsD [OF h3(2)] set3 m m3 h1(6) nr Bin.prems(7) in auto)
      have t': "ren a km m ?t3 = bb_remove j (Bin l v k a r)"
        using 3 False dm a(5,6) nr by (simp add: ren_id flip: rebalance_ren)
      have top: "topn (ren a km m ?t3) = (if topn ?t3 = a then m else topn ?t3)"
        using turnsD(4) [OF h3(2)] by (simp add: topn_ren)
      obtain c2 where "bbtree_check (swap_last h3 a m) (topn (ren a km m ?t3)) = Some c2"
        using check_ends R unfolding removed_def by blast
      then have "bbtree_remove' h a j del =
          Some (swap_last h3 a m, topn (ren a km m ?t3), ?del\<lparr>rm_last := m\<rparr>, True)"
        using 3 a(1-4) h1(1,5) h3(1,3) m m3 top
        by (cases "topn ?t3 = a") (simp_all add: bbtree_remove'.simps [of h a] Let_def flip: h2(1))
      then show ?thesis using R nr unfolding t' by simp
    qed
  qed
qed simp

subsection \<open>The tree as a whole\<close>

text \<open>
  The heap holds the tree headed by \<open>tr\<close>: its nodes are those of \<open>t\<close>, balanced and ordered,
  the links are right in both directions and the counter is the number of nodes.
\<close>

definition tree_ok :: "bbheap \<Rightarrow> bbtree \<Rightarrow> (size_t, nat) bbt \<Rightarrow> bool" where
  "tree_ok h tr t \<longleftrightarrow> rep h t \<and> nil_ok h \<and> distinct (nodes t) \<and> bb_inv t \<and> bbt_root tr = topn t \<and>
     bbt_count tr = int (length (entries t)) \<and> (t \<noteq> Tip \<longrightarrow> bbn_parent (h (topn t)) = NIL)"

lemma tree_okD:
  assumes "tree_ok h tr t"
  shows "rep h t" "nil_ok h" "distinct (nodes t)" "aa t" "sorted_keys (entries t)" "bbt_root tr = topn t"
    "bbt_count tr = int (length (entries t))" "t \<noteq> Tip \<Longrightarrow> bbn_parent (h (topn t)) = NIL"
  using assms by (simp_all add: tree_ok_def bb_inv_def)

text \<open>The loop \<^verbatim>\<open>bbtree_each\<close> from a given node on, as the list of the nodes it visits.\<close>

partial_function (option) bbtree_each :: "bbheap \<Rightarrow> nat option \<Rightarrow> nat list option" where
  "bbtree_each h n =
     (case n of None \<Rightarrow> Some []
      | Some a \<Rightarrow> do { m \<leftarrow> bbtree_next' h a; ns \<leftarrow> bbtree_each h m; Some (a # ns) })"

lemma each_refines:
  assumes "rep h t" "distinct (nodes t)" "bb_inv t" "bbn_parent (h (topn t)) = NIL" "entries t = xs @ ys"
  shows "bbtree_each h (map_option snd (case ys of [] \<Rightarrow> None | e # _ \<Rightarrow> Some e)) = Some (map snd ys)"
  using assms(5)
proof (induction ys arbitrary: xs)
  case Nil
  then show ?case by (simp add: bbtree_each.simps)
next
  case (Cons e ys)
  obtain k a where e: "e = (k, a)" by fastforce
  have "bbtree_next' h a = Some (map_option snd (bb_next t k))"
    using next_refines(1) [OF assms(1,2)] assms(3,4) Cons.prems e by (simp add: bb_inv_def)
  moreover have "bb_next t k = (case ys of [] \<Rightarrow> None | e # _ \<Rightarrow> Some e)"
    using bb.next_of_split [OF assms(3)] Cons.prems e by simp
  moreover have "entries t = (xs @ [e]) @ ys" using Cons.prems by simp
  note Cons.IH [OF this]
  ultimately show ?case using e by (simp add: bbtree_each.simps [of h "Some a"])
qed

lemma length_insert:
  "length (entries (fst (bb_insert k n t))) = length (entries t) + (if snd (bb_insert k n t) then 1 else 0)"
  by (induction t) (auto split: prod.splits)

lemma insert_tree_ok:
  assumes "tree_ok h tr t" "n \<notin> set (nodes t)" "n \<noteq> NIL" "bbn_value (h n) = k"
  shows "\<exists>h' tr'. bbtree_insert h tr n = Some (h', tr', if k \<in> fst ` set (entries t) then - 1 else 0) \<and>
    tree_ok h' tr' (fst (bb_insert k n t)) \<and> (\<forall>x. x \<notin> set (nodes t) \<longrightarrow> x \<noteq> n \<longrightarrow> x \<noteq> NIL \<longrightarrow> h' x = h x)"
proof -
  note t = tree_okD [OF assms(1)]
  obtain t' ok where i: "bb_insert k n t = (t', ok)" by fastforce
  obtain h' where h': "bbtree_insert' h (topn t) n = Some (h', topn t', ok)" "placed h t n h' t'"
    using insert_refines [OF t(1-3) assms(2-4)] i by auto
  have ok: "ok \<longleftrightarrow> k \<notin> fst ` set (entries t)" using entries_insert [OF t(5), of k n] i by simp
  have "distinct (nodes t')" using mset_add_if(1) [OF nodes_insert [of k n t] assms(2) t(3)] i by simp
  moreover have "bb_inv t'" using bb_inv_insert [of t k n] i assms(1) by (simp add: tree_ok_def)
  moreover have "length (entries t') = length (entries t) + (if ok then 1 else 0)"
    using length_insert [of k n t] i by simp
  ultimately have "tree_ok h' (tr\<lparr>bbt_root := topn t', bbt_count := bbt_count tr + (if ok then 1 else 0)\<rparr>) t'"
    using h'(2) t(7,8) by (auto simp: tree_ok_def placed_def)
  moreover have "bbtree_insert h tr n =
      Some (h', tr\<lparr>bbt_root := topn t', bbt_count := bbt_count tr + (if ok then 1 else 0)\<rparr>, if ok then 0 else - 1)"
    using h'(1) t(6) by (simp add: bbtree_insert_def)
  ultimately show ?thesis using i ok h'(2) by (auto simp: placed_def)
qed

lemma length_filter_key:
  "distinct (map fst es) \<Longrightarrow> k \<in> fst ` set es \<Longrightarrow> Suc (length (filter (\<lambda>e. fst e \<noteq> k) es)) = length es"
proof (induction es)
  case (Cons e es)
  have "filter (\<lambda>e. fst e \<noteq> k) es = es" if "fst e = k"
  proof (rule filter_True)
    have "k \<notin> fst ` set es" using Cons.prems(1) that by simp
    then show "\<forall>x\<in>set es. fst x \<noteq> k" by blast
  qed
  with Cons show ?case by auto
qed simp

lemma remove_tree_ok:
  assumes "tree_ok h tr t" "k \<in> fst ` set (entries t)"
  shows "\<exists>h' tr'. bbtree_remove h tr k = Some (h', tr', 0) \<and> tree_ok h' tr' (bb_remove k t) \<and>
    (\<forall>x. x \<notin> set (nodes t) \<longrightarrow> x \<noteq> NIL \<longrightarrow> h' x = h x)"
proof -
  note t = tree_okD [OF assms(1)]
  have "t \<noteq> Tip" using assms(2) by auto
  then have p: "bbn_parent (h (topn t)) = NIL" "NIL \<notin> set (nodes t)" using t(1,8) rep_NIL by auto
  obtain h' del' where r: "bbtree_remove' h (topn t) k \<lparr>rm_last = NIL, rm_deleted = NIL\<rparr> =
      Some (h', topn (bb_remove k t), del', True)" "removed h t h' (bb_remove k t)"
    using remove_refines [OF t(1-5) assms(2)] p by metis
  have "int (length (entries t)) - 1 = int (length (entries (bb_remove k t)))"
    using length_filter_key [OF bb.distinct_items assms(2)] assms(1) t(4,5)
    by (simp add: entries_remove tree_ok_def)
  then have "tree_ok h' (tr\<lparr>bbt_root := topn (bb_remove k t), bbt_count := bbt_count tr - 1\<rparr>) (bb_remove k t)"
    using r(2) p t nodes_remove(2) [OF t(4,5,3)] bb_inv_remove assms(1) by (simp add: tree_ok_def removed_def)
  moreover have "bbtree_remove h tr k = Some (h', tr\<lparr>bbt_root := topn (bb_remove k t), bbt_count := bbt_count tr - 1\<rparr>, 0)"
    using r(1) t(6) by (simp add: bbtree_remove_def)
  moreover have "\<forall>x. x \<notin> set (nodes t) \<longrightarrow> x \<noteq> NIL \<longrightarrow> h' x = h x"
    using r(2) p(1) by (simp add: removed_def)
  ultimately show ?thesis by blast
qed

lemma check_self_loop:
  assumes "bbn_right (h n) = n" "n \<noteq> NIL" "bbn_left (h n) = NIL" "bbn_parent (h n) = n"
  shows "bbtree_check h n = None"
proof -
  have "\<not> (bbn_right (h' m) = m \<and> m \<noteq> NIL \<and> bbn_left (h' m) = NIL \<and> bbn_parent (h' m) = m)"
    if "bbtree_check h' m = Some c" for h' m c
  proof (rule bbtree_check.raw_induct [rotated, OF that], goal_cases)
    case (1 f h' m c)
    show ?case
    proof
      assume L: "bbn_right (h' m) = m \<and> m \<noteq> NIL \<and> bbn_left (h' m) = NIL \<and> bbn_parent (h' m) = m"
      then obtain r where "f h' m = Some r" using 1(2) by (auto split: bind_splits)
      with 1(1) L show False by blast
    qed
  qed
  with assms show ?thesis by (cases "bbtree_check h n") blast+
qed

subsection \<open>Properties\<close>

text \<open>
  A heap with two nodes, of keys 10 and 30, and a third one, of key 20, that is not linked.
\<close>

definition two_nodes :: bbheap where
  "two_nodes = (\<lambda>_. \<lparr>bbn_parent = NIL, bbn_left = NIL, bbn_right = NIL, bbn_value = 0, bbn_level = 0\<rparr>)
     (1 := \<lparr>bbn_parent = NIL, bbn_left = NIL, bbn_right = 2, bbn_value = 10, bbn_level = 1\<rparr>,
      2 := \<lparr>bbn_parent = 1, bbn_left = NIL, bbn_right = NIL, bbn_value = 30, bbn_level = 1\<rparr>,
      3 := \<lparr>bbn_parent = 7, bbn_left = 7, bbn_right = 7, bbn_value = 20, bbn_level = 7\<rparr>)"

definition two_head :: bbtree where
  "two_head = \<lparr>bbt_root = 1, bbt_count = 2\<rparr>"

definition two_tree :: "(size_t, nat) bbt" where
  "two_tree = Bin Tip 1 10 1 (Bin Tip 1 30 2 Tip)"

lemma two_nodes_ok [simp]: "tree_ok two_nodes two_head two_tree"
  by (simp add: tree_ok_def two_nodes_def two_head_def two_tree_def nil_ok_def bb_inv_def)

lemma two_tree_simps [simp]: "nodes two_tree = [1, 2]" "entries two_tree = [(10, 1), (30, 2)]"
  by (simp_all add: two_tree_def)

text \<open>
  C2: \<^verbatim>\<open>bbtree_insert\<close> ends and keeps the tree well formed: balanced, ordered, with consistent
  parent links and counter. A node with a new key is added and 0 returned; a node whose key
  is present is not added and \<open>-1\<close> returned; no node outside the tree changes.
\<close>

theorem bbtree_insert_correct:
  assumes "tree_ok h tr t" "n \<notin> set (nodes t)" "n \<noteq> NIL"
  shows "\<exists>h' tr' t'. tree_ok h' tr' t' \<and>
    (if bbn_value (h n) \<in> fst ` set (entries t)
     then bbtree_insert h tr n = Some (h', tr', - 1) \<and> set (entries t') = set (entries t)
     else bbtree_insert h tr n = Some (h', tr', 0) \<and> set (entries t') = insert (bbn_value (h n), n) (set (entries t))) \<and>
    (\<forall>x. x \<notin> set (nodes t) \<longrightarrow> x \<noteq> n \<longrightarrow> x \<noteq> NIL \<longrightarrow> h' x = h x)"
proof -
  note e = entries_insert [OF tree_okD(5) [OF assms(1)], of "bbn_value (h n)" n]
  obtain h' tr' where "bbtree_insert h tr n = Some (h', tr', if bbn_value (h n) \<in> fst ` set (entries t) then - 1 else 0)"
    "tree_ok h' tr' (fst (bb_insert (bbn_value (h n)) n t))"
    "\<forall>x. x \<notin> set (nodes t) \<longrightarrow> x \<noteq> n \<longrightarrow> x \<noteq> NIL \<longrightarrow> h' x = h x"
    using insert_tree_ok [OF assms refl] by blast
  with e show ?thesis
    by (intro exI [of _ h'] exI [of _ tr'] exI [of _ "fst (bb_insert (bbn_value (h n)) n t)"]) auto
qed

theorem bbtree_insert_correct_witness:
  "\<exists>h' tr' t'. tree_ok h' tr' t' \<and> bbtree_insert two_nodes two_head 3 = Some (h', tr', 0) \<and>
     set (entries t') = {(20, 3), (10, 1), (30, 2)}"
proof -
  have "bbn_value (two_nodes 3) = 20" by (simp add: two_nodes_def)
  then show ?thesis using bbtree_insert_correct [of two_nodes two_head two_tree 3] by auto
qed

text \<open>
  C1: \<^verbatim>\<open>bbtree_remove\<close> of a key that is in the tree ends, returns 0, and removes exactly the node
  with that key; the tree stays balanced, ordered and consistently linked, every
  \<^verbatim>\<open>bbtree_check\<close> on the way ends, the assert holds and no node outside the tree changes.
\<close>

theorem bbtree_remove_correct:
  assumes "tree_ok h tr t" "k \<in> fst ` set (entries t)"
  shows "\<exists>h' tr' t'. bbtree_remove h tr k = Some (h', tr', 0) \<and> tree_ok h' tr' t' \<and>
    entries t' = filter (\<lambda>e. fst e \<noteq> k) (entries t) \<and>
    (\<forall>x. x \<notin> set (nodes t) \<longrightarrow> x \<noteq> NIL \<longrightarrow> h' x = h x)"
  using remove_tree_ok [OF assms] entries_remove [OF tree_okD(4,5) [OF assms(1)], of k] by metis

theorem bbtree_remove_correct_witness:
  "\<exists>h' tr' t'. bbtree_remove two_nodes two_head 10 = Some (h', tr', 0) \<and> tree_ok h' tr' t' \<and>
     entries t' = [(30, 2)]"
  using bbtree_remove_correct [of two_nodes two_head two_tree 10] by auto

text \<open>
  C3: \<^verbatim>\<open>bbtree_search_\<close> ends; with \<^verbatim>\<open>accept\<close> 0 it returns the node with the key, with a negative
  one the node with the greatest key below or at it, with a positive one the node with the
  least key at or above it, and the null pointer exactly when there is no such node.
\<close>

theorem bbtree_search_correct:
  assumes "tree_ok h tr t"
  shows "\<exists>res. bbtree_search' h (bbt_root tr) k accept = Some (map_option snd res) \<and>
    (if accept = 0 then eq_spec (set (entries t)) k res
     else if accept < 0 then le_spec (set (entries t)) k res
     else ge_spec (set (entries t)) k res)"
  using search_refines [of h t k accept] tree_okD [OF assms]
    bb_search_eq [of t k] bb_search_le [of t accept k] bb_search_ge [of t accept k]
  by (intro exI [of _ "bb_search t k accept"]) auto

theorem bbtree_search_correct_witness:
  "\<exists>res. bbtree_search' two_nodes 1 20 (- 1) = Some (map_option snd res) \<and>
     le_spec {(10 :: size_t, 1), (30, 2)} 20 res"
  using bbtree_search_correct [OF two_nodes_ok, of 20 "- 1"] by (simp add: two_head_def)

text \<open>
  C4: the loop \<^verbatim>\<open>bbtree_each\<close> (\<^verbatim>\<open>bbtree_first\<close> and then \<^verbatim>\<open>bbtree_next\<close> over the parent links) ends
  and visits every node of the tree exactly once, in increasing order of the keys.
\<close>

theorem bbtree_each_in_order:
  assumes "tree_ok h tr t"
  shows "\<exists>ns. do { n \<leftarrow> bbtree_left' h (bbt_root tr); bbtree_each h n } = Some ns \<and>
    set ns = set (nodes t) \<and> distinct ns \<and> sorted_wrt (<) (map (\<lambda>n. bbn_value (h n)) ns)"
proof (cases "t = Tip")
  case True
  then show ?thesis using tree_okD(6) [OF assms] by (simp add: bbtree_left'_def bbtree_each.simps [of h None])
next
  case False
  note t = tree_okD [OF assms]
  have "bbtree_each h (map_option snd (bb_left t)) = Some (map snd (entries t))"
    using each_refines [OF t(1,3) _ t(8) [OF False], of "[]"] assms by (simp add: bb_left_entries tree_ok_def)
  moreover have "map (\<lambda>n. bbn_value (h n)) (map snd (entries t)) = map fst (entries t)"
    using rep_value [OF t(1)] by auto
  ultimately show ?thesis using t left_refines [OF t(1)]
    by (simp add: nodes_entries del: map_map)
qed

theorem bbtree_each_in_order_witness:
  "\<exists>ns. do { n \<leftarrow> bbtree_left' two_nodes 1; bbtree_each two_nodes n } = Some ns \<and> set ns = {1, 2} \<and>
     sorted_wrt (<) (map (\<lambda>n. bbn_value (two_nodes n)) ns)"
  using bbtree_each_in_order [OF two_nodes_ok] by (auto simp: two_head_def)

text \<open>
  \<^verbatim>\<open>bbtree_check\<close> ends on every well-formed tree, accepts it and returns its number of nodes.
\<close>

theorem bbtree_check_accepts:
  assumes "tree_ok h tr t" "t \<noteq> Tip"
  shows "bbtree_check h (bbt_root tr) = Some (bbt_count tr)"
  using check_counts [of h t] tree_okD [OF assms(1)] assms(2) by simp

theorem bbtree_check_accepts_witness: "bbtree_check two_nodes 1 = Some 2"
  using bbtree_check_accepts [OF two_nodes_ok] by (simp add: two_head_def two_tree_def)

text \<open>
  Removing a key that is not in the tree can destroy it. On the tree with the keys 10 and
  30, \<^verbatim>\<open>bbtree_remove\<close> of 20 puts the node 30 in the place of 10 with itself as its right child,
  and the \<^verbatim>\<open>bbtree_check\<close> that follows never returns.
\<close>

theorem bbtree_remove_absent_diverges: "bbtree_remove two_nodes two_head 20 = None"
proof -
  define h1 where "h1 = set_parent NIL 2 (set_left 2 NIL two_nodes)"
  define h2 where "h2 = set_parent 2 1 (set_right 1 2 h1)"
  note d = h1_def h2_def two_nodes_def
  let ?del = "\<lparr>rm_last = 2, rm_deleted = 1\<rparr>"
  have nil: "bbtree_remove' two_nodes NIL 20 ?del = Some (two_nodes, NIL, ?del, False)"
    by (simp add: bbtree_remove'.simps)
  have c2: "bbtree_check h1 2 = Some 1" "bbtree_check h2 2 = Some 1"
    by (simp_all add: bbtree_check.simps [of _ 2] d)
  have n1: "bbn_left (h2 1) = NIL" "bbn_right (h2 1) = 2" "bbn_parent (h2 2) = 1" by (simp_all add: d)
  have c1: "bbtree_check h2 1 = Some 2"
    using c2(2) n1 by (simp add: bbtree_check.simps [of h2 "Suc NIL"])
  have n2: "bbn_left (two_nodes 2) = NIL" "bbn_value (two_nodes 2) = 30" "bbn_value (h1 1) = 10"
    "bbtree_rebalance h1 2 = (h1, 2)" "bbtree_rebalance h2 1 = (h2, 1)" "bbn_value (h2 1) = 10"
    "bbn_value (two_nodes 1) = 10" "bbn_right (two_nodes 1) = 2" "bbn_left (h2 2) = NIL"
    by (simp_all add: d bbtree_rebalance_def)
  have r2: "bbtree_remove' two_nodes 2 20 \<lparr>rm_last = 1, rm_deleted = 1\<rparr> = Some (h1, 2, ?del, False)"
    using nil c2 n2 by (simp add: bbtree_remove'.simps [of _ 2] Let_def flip: h1_def)
  have "bbtree_check (swap_last h2 1 2) 2 = None"
    by (rule check_self_loop) (simp_all add: swap_last_def Let_def d)
  moreover have h2': "set_parent 2 (Suc NIL) (set_right (Suc NIL) 2 h1) = h2" by (simp add: h2_def)
  ultimately have "bbtree_remove' two_nodes 1 20 \<lparr>rm_last = NIL, rm_deleted = NIL\<rparr> = None"
    using r2 c1 n2 h2' by (simp add: bbtree_remove'.simps [of _ "Suc NIL"] Let_def)
  then show ?thesis by (simp add: bbtree_remove_def two_head_def)
qed

end
