(* ===== verification/LList.thy ===== *)
theory LList
  imports Prelude "HOL-Library.Multiset"
begin

section \<open>Linked lists (\<^verbatim>\<open>include/kora/llist.h\<close>)\<close>

text \<open>
  The intrusive doubly linked list of the kernel, on a heap of nodes: address 0 is the null
  pointer, the head is a value, and every assignment of the source is one update. \<open>None\<close> is a
  failed \<^verbatim>\<open>assert\<close> or a loop that does not end. \<open>list_ok h l xs\<close> says that the heap links the
  nodes \<open>xs\<close>, in that order, behind the head \<open>l\<close>; each operation is shown to be the list
  operation it stands for, so that the other components use HOL lists for their queues.
\<close>

subsection \<open>Model\<close>

record llnode =
  ln_prev :: nat
  ln_next :: nat

record llhead =
  ll_first :: nat
  ll_last :: nat
  ll_count :: int

type_synonym llheap = "nat \<Rightarrow> llnode"

abbreviation NULL :: nat where
  "NULL \<equiv> 0"

definition set_prev :: "nat \<Rightarrow> nat \<Rightarrow> llheap \<Rightarrow> llheap" where
  "set_prev n p h = h(n := (h n)\<lparr>ln_prev := p\<rparr>)"

definition set_next :: "nat \<Rightarrow> nat \<Rightarrow> llheap \<Rightarrow> llheap" where
  "set_next n p h = h(n := (h n)\<lparr>ln_next := p\<rparr>)"

definition llist_init :: llhead where
  "llist_init = \<lparr>ll_first = NULL, ll_last = NULL, ll_count = 0\<rparr>"

definition ll_push_front :: "llheap \<Rightarrow> llhead \<Rightarrow> nat \<Rightarrow> llheap \<times> llhead" where
  "ll_push_front h l node =
     (let h = set_next node (ll_first l) h;
          (h, l) = (if ll_first l \<noteq> NULL then (set_prev (ll_first l) node h, l)
                    else (h, l\<lparr>ll_last := node\<rparr>));
          h = set_prev node NULL h
      in (h, l\<lparr>ll_first := node, ll_count := ll_count l + 1\<rparr>))"

definition ll_push_back :: "llheap \<Rightarrow> llhead \<Rightarrow> nat \<Rightarrow> llheap \<times> llhead" where
  "ll_push_back h l node =
     (let h = set_prev node (ll_last l) h;
          (h, l) = (if ll_last l \<noteq> NULL then (set_next (ll_last l) node h, l)
                    else (h, l\<lparr>ll_first := node\<rparr>));
          h = set_next node NULL h
      in (h, l\<lparr>ll_last := node, ll_count := ll_count l + 1\<rparr>))"

definition ll_pop_front :: "llheap \<Rightarrow> llhead \<Rightarrow> (nat \<times> llheap \<times> llhead) option" where
  "ll_pop_front h l =
     (let first = ll_first l in
      if \<not> (first = NULL \<or> ln_prev (h first) = NULL) then None
      else if first = NULL then Some (NULL, h, l)
      else do {
        (h, l) \<leftarrow> (if ln_next (h first) \<noteq> NULL then Some (set_prev (ln_next (h first)) NULL h, l)
                   else if ll_last l \<noteq> first then None
                   else Some (h, l\<lparr>ll_last := NULL\<rparr>));
        let l = l\<lparr>ll_first := ln_next (h first)\<rparr>;
            h = set_prev first NULL h;
            h = set_next first NULL h
        in Some (first, h, l\<lparr>ll_count := ll_count l - 1\<rparr>) })"

definition ll_pop_back :: "llheap \<Rightarrow> llhead \<Rightarrow> (nat \<times> llheap \<times> llhead) option" where
  "ll_pop_back h l =
     (let last = ll_last l in
      if \<not> (last = NULL \<or> ln_next (h last) = NULL) then None
      else if last = NULL then Some (NULL, h, l)
      else do {
        (h, l) \<leftarrow> (if ln_prev (h last) \<noteq> NULL then Some (set_next (ln_prev (h last)) NULL h, l)
                   else if ll_first l \<noteq> last then None
                   else Some (h, l\<lparr>ll_first := NULL\<rparr>));
        let l = l\<lparr>ll_last := ln_prev (h last)\<rparr>;
            h = set_prev last NULL h;
            h = set_next last NULL h
        in Some (last, h, l\<lparr>ll_count := ll_count l - 1\<rparr>) })"

partial_function (option) walk_prev :: "llheap \<Rightarrow> nat \<Rightarrow> nat option" where
  "walk_prev h w = (if ln_prev (h w) \<noteq> NULL then walk_prev h (ln_prev (h w)) else Some w)"

partial_function (option) walk_next :: "llheap \<Rightarrow> nat \<Rightarrow> nat option" where
  "walk_next h w = (if ln_next (h w) \<noteq> NULL then walk_next h (ln_next (h w)) else Some w)"

definition ll_remove :: "llheap \<Rightarrow> llhead \<Rightarrow> nat \<Rightarrow> (llheap \<times> llhead) option" where
  "ll_remove h l node =
     do { w \<leftarrow> walk_prev h node;
          if w \<noteq> ll_first l then None else do {
          w \<leftarrow> walk_next h node;
          if w \<noteq> ll_last l then None else do {
          (h, l) \<leftarrow> (if ln_prev (h node) \<noteq> NULL
                     then Some (set_next (ln_prev (h node)) (ln_next (h node)) h, l)
                     else if ll_first l \<noteq> node then None
                     else Some (h, l\<lparr>ll_first := ln_next (h node)\<rparr>));
          (h, l) \<leftarrow> (if ln_next (h node) \<noteq> NULL
                     then Some (set_prev (ln_next (h node)) (ln_prev (h node)) h, l)
                     else if ll_last l \<noteq> node then None
                     else Some (h, l\<lparr>ll_last := ln_prev (h node)\<rparr>));
          let h = set_prev node NULL h;
              h = set_next node NULL h
          in Some (h, l\<lparr>ll_count := ll_count l - 1\<rparr>) } } }"

partial_function (option) walk_to :: "llheap \<Rightarrow> nat \<Rightarrow> nat \<Rightarrow> nat option" where
  "walk_to h node w =
     (if w \<noteq> node \<and> ln_next (h w) \<noteq> NULL then walk_to h node (ln_next (h w)) else Some w)"

definition ll_contains :: "llheap \<Rightarrow> llhead \<Rightarrow> nat \<Rightarrow> bool option" where
  "ll_contains h l node =
     (if ll_first l = NULL then Some False
      else do { w \<leftarrow> walk_to h node (ll_first l); Some (w = node) })"

text \<open>The counter of \<^verbatim>\<open>ll_index_\<close> is decremented after its test; a negative one never reaches 0.\<close>

partial_function (option) index_loop :: "llheap \<Rightarrow> nat \<Rightarrow> int \<Rightarrow> nat option" where
  "index_loop h node idx =
     (if node \<noteq> NULL \<and> idx \<noteq> 0 then index_loop h (ln_next (h node)) (idx - 1) else Some node)"

definition ll_index :: "llheap \<Rightarrow> llhead \<Rightarrow> int \<Rightarrow> nat option" where
  "ll_index h l idx = index_loop h (ll_first l) idx"

partial_function (option) check_loop :: "llheap \<Rightarrow> nat \<Rightarrow> int \<Rightarrow> (nat \<times> int) option option" where
  "check_loop h node i =
     (if ln_next (h node) \<noteq> NULL then
        if ln_prev (h node) \<noteq> node then Some None
        else check_loop h (ln_next (h node)) (i + 1)
      else Some (Some (node, i)))"

definition llist_check :: "llheap \<Rightarrow> llhead \<Rightarrow> bool option" where
  "llist_check h l =
     (let node = ll_first l in
      if node = NULL then Some (ll_count l = 0)
      else if ln_prev (h node) \<noteq> NULL then Some False
      else do { r \<leftarrow> check_loop h node 0;
                Some (case r of None \<Rightarrow> False
                      | Some (node, i) \<Rightarrow> node = ll_last l \<and> ll_count l = i) })"

definition llist_swap :: "llheap \<Rightarrow> llhead \<Rightarrow> nat \<Rightarrow> nat \<Rightarrow> llheap \<times> llhead" where
  "llist_swap h l a b =
     (let tmp = ln_next (h a);
          h = set_next a (ln_next (h b)) h;
          h = set_next b tmp h;
          (h, l) = (if ln_next (h a) \<noteq> NULL then (set_prev (ln_next (h a)) a h, l) else (h, l\<lparr>ll_last := a\<rparr>));
          (h, l) = (if ln_next (h b) \<noteq> NULL then (set_prev (ln_next (h b)) b h, l) else (h, l\<lparr>ll_last := b\<rparr>));
          tmp = ln_prev (h a);
          h = set_prev a (ln_prev (h b)) h;
          h = set_prev b tmp h;
          (h, l) = (if ln_prev (h a) \<noteq> NULL then (set_next (ln_prev (h a)) a h, l) else (h, l\<lparr>ll_first := a\<rparr>));
          (h, l) = (if ln_prev (h b) \<noteq> NULL then (set_next (ln_prev (h b)) b h, l) else (h, l\<lparr>ll_first := b\<rparr>))
      in (h, l))"

text \<open>The comparison is a parameter: \<open>cmp a b\<close> on the nodes of the two items.\<close>

partial_function (option) sort_cursor :: "(nat \<Rightarrow> nat \<Rightarrow> int) \<Rightarrow> llheap \<Rightarrow> nat \<Rightarrow> nat \<Rightarrow> nat option" where
  "sort_cursor cmp h node cursor =
     (if ln_next (h cursor) \<noteq> NULL \<and> cmp (ln_next (h cursor)) node < 0
      then sort_cursor cmp h node (ln_next (h cursor)) else Some cursor)"

definition llist_insert_sort ::
    "(nat \<Rightarrow> nat \<Rightarrow> int) \<Rightarrow> llheap \<Rightarrow> llhead \<Rightarrow> nat \<Rightarrow> (llheap \<times> llhead) option" where
  "llist_insert_sort cmp h l node =
     (if ll_first l = NULL then
        Some (set_next node NULL (set_prev node NULL h), \<lparr>ll_first = node, ll_last = node, ll_count = 1\<rparr>)
      else if cmp (ll_first l) node \<ge> 0 then
        Some (set_next node (ll_first l) (set_prev node NULL h), l\<lparr>ll_first := node, ll_count := ll_count l + 1\<rparr>)
      else do {
        cursor \<leftarrow> sort_cursor cmp h node (ll_first l);
        let h = set_next node (ln_next (h cursor)) h;
            h = set_next cursor node h;
            (h, l) = (if ln_next (h node) \<noteq> NULL then (set_prev (ln_next (h node)) node h, l)
                      else (h, l\<lparr>ll_last := node\<rparr>));
            h = set_prev node cursor h
        in Some (h, l\<lparr>ll_count := ll_count l + 1\<rparr>) })"

partial_function (option) sort_loop ::
    "(nat \<Rightarrow> nat \<Rightarrow> int) \<Rightarrow> llheap \<Rightarrow> llhead \<Rightarrow> nat \<Rightarrow> (llheap \<times> llhead) option" where
  "sort_loop cmp h srt node =
     (if node \<noteq> NULL then
        let nxt = ln_next (h node);
            h = set_next node NULL h;
            h = set_prev node NULL h
        in do { (h, srt) \<leftarrow> llist_insert_sort cmp h srt node;
                sort_loop cmp h srt nxt }
      else Some (h, srt))"

definition llist_sort :: "(nat \<Rightarrow> nat \<Rightarrow> int) \<Rightarrow> llheap \<Rightarrow> llhead \<Rightarrow> (llheap \<times> llhead) option" where
  "llist_sort cmp h l =
     do { (h, srt) \<leftarrow> sort_loop cmp h llist_init (ll_first l);
          Some (h, l\<lparr>ll_first := ll_first srt, ll_last := ll_last srt, ll_count := ll_count srt\<rparr>) }"

subsection \<open>Lists in a heap\<close>

lemma ll_fields [heap_simps, simp]:
  "ln_prev (set_prev n p h m) = (if m = n then p else ln_prev (h m))"
  "ln_next (set_prev n p h m) = ln_next (h m)"
  "ln_prev (set_next n p h m) = ln_prev (h m)"
  "ln_next (set_next n p h m) = (if m = n then p else ln_next (h m))"
  by (simp_all add: set_prev_def set_next_def)

lemma ll_others: "m \<noteq> n \<Longrightarrow> set_prev n p h m = h m" "m \<noteq> n \<Longrightarrow> set_next n p h m = h m"
  by (simp_all add: set_prev_def set_next_def)

definition hd0 :: "nat list \<Rightarrow> nat \<Rightarrow> nat" where
  "hd0 xs q = (if xs = [] then q else hd xs)"

definition last0 :: "nat \<Rightarrow> nat list \<Rightarrow> nat" where
  "last0 p xs = (if xs = [] then p else last xs)"

lemma hd0_simps [simp]: "hd0 [] q = q" "hd0 (x # xs) q = x" "hd0 (xs @ ys) q = hd0 xs (hd0 ys q)"
  by (simp_all add: hd0_def)

lemma last0_simps [simp]: "last0 p [] = p" "last0 p (xs @ [x]) = x" "last0 p (xs @ ys) = last0 (last0 p xs) ys"
  "last0 p (x # xs) = last0 x xs"
  by (simp_all add: last0_def)

text \<open>The nodes \<open>xs\<close> are linked both ways between \<open>p\<close> and \<open>q\<close>.\<close>

fun lseg :: "llheap \<Rightarrow> nat \<Rightarrow> nat list \<Rightarrow> nat \<Rightarrow> bool" where
  "lseg h p [] q = True"
| "lseg h p (x # xs) q \<longleftrightarrow> x \<noteq> NULL \<and> ln_prev (h x) = p \<and> ln_next (h x) = hd0 xs q \<and> lseg h x xs q"

lemma lseg_append [simp]: "lseg h p (xs @ ys) q \<longleftrightarrow> lseg h p xs (hd0 ys q) \<and> lseg h (last0 p xs) ys q"
  by (induction xs arbitrary: p) auto

lemma lseg_frame: "\<forall>x\<in>set xs. h' x = h x \<Longrightarrow> lseg h' p xs q = lseg h p xs q"
  by (induction xs arbitrary: p) auto

lemma lseg_set_other [simp]:
  "n \<notin> set xs \<Longrightarrow> lseg (set_prev n v h) p xs q = lseg h p xs q"
  "n \<notin> set xs \<Longrightarrow> lseg (set_next n v h) p xs q = lseg h p xs q"
  by (auto intro!: lseg_frame simp: set_prev_def set_next_def)

lemma lseg_nodes: "lseg h p xs q \<Longrightarrow> NULL \<notin> set xs"
  by (induction xs arbitrary: p) auto

definition list_ok :: "llheap \<Rightarrow> llhead \<Rightarrow> nat list \<Rightarrow> bool" where
  "list_ok h l xs \<longleftrightarrow> lseg h NULL xs NULL \<and> distinct xs \<and> ll_first l = hd0 xs NULL \<and>
     ll_last l = last0 NULL xs \<and> ll_count l = int (length xs)"

lemma list_okD:
  assumes "list_ok h l xs"
  shows "lseg h NULL xs NULL" "distinct xs" "ll_first l = hd0 xs NULL" "ll_last l = last0 NULL xs"
    "ll_count l = int (length xs)" "NULL \<notin> set xs"
  using assms lseg_nodes by (auto simp: list_ok_def)

definition unchanged :: "nat set \<Rightarrow> llheap \<Rightarrow> llheap \<Rightarrow> bool" where
  "unchanged S h h' \<longleftrightarrow> (\<forall>x. x \<notin> S \<longrightarrow> h' x = h x)"

lemma list_ok_init: "list_ok h llist_init []"
  by (simp add: list_ok_def llist_init_def)

lemma push_front_ok:
  assumes "list_ok h l xs" "n \<notin> set xs" "n \<noteq> NULL"
  shows "\<exists>h' l'. ll_push_front h l n = (h', l') \<and> list_ok h' l' (n # xs) \<and> unchanged (insert n (set xs)) h h'"
proof (cases xs)
  case Nil
  then show ?thesis using assms
    by (simp add: ll_push_front_def list_ok_def unchanged_def ll_others)
next
  case (Cons x xs')
  then show ?thesis using assms list_okD(6) [OF assms(1)]
    by (auto simp: ll_push_front_def list_ok_def unchanged_def ll_others)
qed

lemma push_back_ok:
  assumes "list_ok h l xs" "n \<notin> set xs" "n \<noteq> NULL"
  shows "\<exists>h' l'. ll_push_back h l n = (h', l') \<and> list_ok h' l' (xs @ [n]) \<and> unchanged (insert n (set xs)) h h'"
proof (cases xs rule: rev_cases)
  case Nil
  then show ?thesis using assms
    by (simp add: ll_push_back_def list_ok_def unchanged_def ll_others)
next
  case (snoc xs' x)
  then show ?thesis using assms list_okD(6) [OF assms(1)]
    by (auto simp: ll_push_back_def list_ok_def unchanged_def ll_others)
qed

lemma pop_front_ok:
  assumes "list_ok h l (x # xs)"
  shows "\<exists>h' l'. ll_pop_front h l = Some (x, h', l') \<and> list_ok h' l' xs \<and> unchanged (set (x # xs)) h h' \<and>
    ln_prev (h' x) = NULL \<and> ln_next (h' x) = NULL"
proof (cases xs)
  case Nil
  then show ?thesis using assms
    by (auto simp: ll_pop_front_def list_ok_def unchanged_def ll_others)
next
  case (Cons y ys)
  then show ?thesis using assms list_okD(6) [OF assms(1)]
    by (auto simp: ll_pop_front_def list_ok_def unchanged_def ll_others)
qed

lemma pop_front_empty: "list_ok h l [] \<Longrightarrow> ll_pop_front h l = Some (NULL, h, l)"
  by (simp add: ll_pop_front_def list_ok_def)

lemma pop_back_ok:
  assumes "list_ok h l (xs @ [x])"
  shows "\<exists>h' l'. ll_pop_back h l = Some (x, h', l') \<and> list_ok h' l' xs \<and> unchanged (set (x # xs)) h h'"
proof (cases xs rule: rev_cases)
  case Nil
  then show ?thesis using assms
    by (auto simp: ll_pop_back_def list_ok_def unchanged_def ll_others)
next
  case (snoc ys y)
  then show ?thesis using assms list_okD(6) [OF assms(1)]
    by (auto simp: ll_pop_back_def list_ok_def unchanged_def ll_others)
qed

lemma pop_back_empty: "list_ok h l [] \<Longrightarrow> ll_pop_back h l = Some (NULL, h, l)"
  by (simp add: ll_pop_back_def list_ok_def)

lemma walk_prev_seg: "lseg h NULL (xs @ [x]) q \<Longrightarrow> walk_prev h x = Some (hd0 (xs @ [x]) NULL)"
proof (induction xs arbitrary: x q rule: rev_induct)
  case Nil
  then show ?case by (simp add: walk_prev.simps)
next
  case (snoc y xs)
  have "walk_prev h x = walk_prev h y" using snoc.prems by (simp add: walk_prev.simps [of h x])
  also have "\<dots> = Some (hd0 (xs @ [y]) NULL)" by (rule snoc.IH) (use snoc.prems in simp)
  finally show ?case by simp
qed

lemma walk_next_seg: "lseg h p (x # xs) NULL \<Longrightarrow> walk_next h x = Some (last0 x xs)"
proof (induction xs arbitrary: p x)
  case Nil
  then show ?case by (simp add: walk_next.simps)
next
  case (Cons y xs)
  have "walk_next h x = walk_next h y" using Cons.prems by (simp add: walk_next.simps [of h x])
  also have "\<dots> = Some (last0 y xs)" by (rule Cons.IH [of x]) (use Cons.prems in simp)
  finally show ?case by simp
qed

lemma remove_ok:
  assumes "list_ok h l (xs @ n # ys)"
  shows "\<exists>h' l'. ll_remove h l n = Some (h', l') \<and> list_ok h' l' (xs @ ys) \<and>
    unchanged (set (xs @ n # ys)) h h' \<and> ln_prev (h' n) = NULL \<and> ln_next (h' n) = NULL"
proof -
  note ok = list_okD [OF assms]
  have "walk_prev h n = Some (ll_first l)"
    using walk_prev_seg [of h xs n "hd0 ys NULL"] ok(1,3) by (cases xs) auto
  moreover have "walk_next h n = Some (ll_last l)"
    using walk_next_seg [of h "last0 NULL xs" n ys] ok(1,4) by (cases ys rule: rev_cases) auto
  ultimately show ?thesis
    using ok
    by (cases xs rule: rev_cases; cases ys)
      (auto simp: ll_remove_def list_ok_def unchanged_def ll_others)
qed

lemma walk_to_seg:
  "lseg h p (x # xs) NULL \<Longrightarrow>
     \<exists>w. walk_to h n x = Some w \<and> (w = n \<longleftrightarrow> n \<in> set (x # xs))"
proof (induction xs arbitrary: p x)
  case Nil
  then show ?case by (auto simp: walk_to.simps [of h n x])
next
  case (Cons y xs)
  have seg: "lseg h x (y # xs) NULL" and nx: "ln_next (h x) = y" "y \<noteq> NULL" using Cons.prems by simp_all
  show ?case
  proof (cases "x = n")
    case True
    then show ?thesis by (simp add: walk_to.simps [of h n n])
  next
    case False
    then have "walk_to h n x = walk_to h n y" using nx by (simp add: walk_to.simps [of h n x])
    then show ?thesis using Cons.IH [OF seg] False by auto
  qed
qed

lemma contains_ok: "list_ok h l xs \<Longrightarrow> ll_contains h l n = Some (n \<in> set xs)"
proof (cases xs)
  case (Cons x xs')
  assume ok: "list_ok h l xs"
  then have "lseg h NULL (x # xs') NULL" "ll_first l = x" "x \<noteq> NULL" using Cons by (auto simp: list_ok_def)
  moreover obtain w where "walk_to h n x = Some w" "w = n \<longleftrightarrow> n \<in> set (x # xs')"
    using walk_to_seg calculation(1) by blast
  ultimately show ?thesis using Cons by (simp add: ll_contains_def)
qed (simp add: ll_contains_def list_ok_def)

lemma index_seg:
  "lseg h p xs NULL \<Longrightarrow> index_loop h (hd0 xs NULL) i =
     Some (if 0 \<le> i \<and> i < int (length xs) then xs ! nat i else NULL)"
proof (induction xs arbitrary: p i)
  case Nil
  then show ?case by (simp add: index_loop.simps)
next
  case (Cons x xs)
  then have "index_loop h x i = (if i \<noteq> 0 then index_loop h (hd0 xs NULL) (i - 1) else Some x)"
    by (simp add: index_loop.simps [of h x])
  moreover have "(x # xs) ! nat i = xs ! nat (i - 1)" if "0 < i"
    using that by (simp add: nth_Cons' nat_diff_distrib)
  ultimately show ?case using Cons by auto
qed

lemma index_ok: "list_ok h l xs \<Longrightarrow> ll_index h l i = Some (if 0 \<le> i \<and> i < int (length xs) then xs ! nat i else NULL)"
  using index_seg [of h NULL xs i] by (simp add: ll_index_def list_ok_def)

lemma check_rejects:
  assumes "list_ok h l xs" "xs \<noteq> []"
  shows "llist_check h l = Some False"
proof -
  obtain x ys where xs: "xs = x # ys" using assms(2) by (cases xs) auto
  then have "ln_prev (h x) = NULL" "x \<noteq> NULL" "ln_next (h x) = hd0 ys NULL" "ll_first l = x"
    "ll_count l = int (length xs)"
    using assms(1) by (auto simp: list_ok_def)
  then show ?thesis
    using xs by (cases "ln_next (h x) = NULL") (auto simp: llist_check_def check_loop.simps [of h x] Let_def)
qed

subsection \<open>Sorting\<close>

text \<open>The forward links only: insertion at the head does not set the back link of the old head.\<close>

fun fseg :: "llheap \<Rightarrow> nat list \<Rightarrow> nat \<Rightarrow> bool" where
  "fseg h [] q = True"
| "fseg h (x # xs) q \<longleftrightarrow> x \<noteq> NULL \<and> ln_next (h x) = hd0 xs q \<and> fseg h xs q"

lemma fseg_append [simp]: "fseg h (xs @ ys) q \<longleftrightarrow> fseg h xs (hd0 ys q) \<and> fseg h ys q"
  by (induction xs) auto

lemma fseg_cong: "\<forall>x\<in>set xs. ln_next (h' x) = ln_next (h x) \<Longrightarrow> fseg h' xs q = fseg h xs q"
  by (induction xs) auto

lemma fseg_set [simp]:
  "fseg (set_prev n v h) xs q = fseg h xs q"
  "n \<notin> set xs \<Longrightarrow> fseg (set_next n v h) xs q = fseg h xs q"
  by (auto intro!: fseg_cong simp: set_prev_def set_next_def)

lemma fseg_lseg: "lseg h p xs q \<Longrightarrow> fseg h xs q"
  by (induction xs arbitrary: p) auto

lemma fseg_nodes: "fseg h xs q \<Longrightarrow> NULL \<notin> set xs"
  by (induction xs) auto

definition chain_ok :: "llheap \<Rightarrow> llhead \<Rightarrow> nat list \<Rightarrow> bool" where
  "chain_ok h l xs \<longleftrightarrow> fseg h xs NULL \<and> distinct xs \<and> ll_first l = hd0 xs NULL \<and>
     ll_last l = last0 NULL xs \<and> ll_count l = int (length xs)"

definition put :: "(nat \<Rightarrow> nat \<Rightarrow> int) \<Rightarrow> nat \<Rightarrow> nat list \<Rightarrow> nat list" where
  "put cmp n xs = takeWhile (\<lambda>x. cmp x n < 0) xs @ n # dropWhile (\<lambda>x. cmp x n < 0) xs"

lemma cursor_seg:
  assumes "fseg h (x # as @ bs) NULL" "\<forall>a\<in>set as. cmp a n < 0" "bs \<noteq> [] \<Longrightarrow> \<not> cmp (hd bs) n < 0"
  shows "sort_cursor cmp h n x = Some (last0 x as)"
  using assms
proof (induction as arbitrary: x)
  case Nil
  then show ?case by (cases bs) (simp_all add: sort_cursor.simps [of cmp h n x])
next
  case (Cons a as)
  have "sort_cursor cmp h n x = sort_cursor cmp h n a"
    using Cons.prems by (simp add: sort_cursor.simps [of cmp h n x])
  then show ?case using Cons by simp
qed

lemma insert_sort_ok:
  assumes "chain_ok h l xs" "n \<notin> set xs" "n \<noteq> NULL"
  shows "\<exists>h' l'. llist_insert_sort cmp h l n = Some (h', l') \<and> chain_ok h' l' (put cmp n xs) \<and>
    unchanged (insert n (set xs)) h h'"
proof (cases xs)
  case Nil
  then show ?thesis using assms
    by (simp add: llist_insert_sort_def chain_ok_def put_def unchanged_def ll_others)
next
  case (Cons x xs')
  then have nn: "NULL \<notin> set xs" "x \<noteq> NULL" using assms(1) fseg_nodes by (auto simp: chain_ok_def)
  show ?thesis
  proof (cases "cmp x n < 0")
    case False
    then show ?thesis using assms Cons nn
      by (auto simp: llist_insert_sort_def chain_ok_def put_def unchanged_def ll_others)
  next
    case True
    define as bs where "as = takeWhile (\<lambda>x. cmp x n < 0) xs'" and "bs = dropWhile (\<lambda>x. cmp x n < 0) xs'"
    have xs: "xs = x # as @ bs" "put cmp n xs = x # as @ n # bs" using Cons True by (simp_all add: as_def bs_def put_def)
    have cur: "sort_cursor cmp h n x = Some (last0 x as)"
    proof (rule cursor_seg [of h x as bs])
      show "fseg h (x # as @ bs) NULL" using assms(1) xs(1) by (simp add: chain_ok_def)
      show "\<forall>a\<in>set as. cmp a n < 0" by (auto simp: as_def dest: set_takeWhileD)
      show "\<not> cmp (hd bs) n < 0" if "bs \<noteq> []" using that hd_dropWhile [of "\<lambda>x. cmp x n < 0" xs'] by (simp add: bs_def)
    qed
    obtain cs c where c: "x # as = cs @ [c]" "last0 x as = c"
      using that [of "butlast (x # as)" "last (x # as)"] by (simp add: last0_def)
    have xs': "xs = cs @ c # bs" "put cmp n xs = cs @ c # n # bs" using xs c(1) by (simp_all flip: append_Cons)
    have f: "ll_first l = x" using assms(1) xs by (simp add: chain_ok_def)
    show ?thesis
      using assms nn True cur c(2) f unfolding xs'(2)
      unfolding xs'(1) by (cases bs) (auto simp: llist_insert_sort_def chain_ok_def unchanged_def ll_others)
  qed
qed

lemma mset_put [simp]: "mset (put cmp n xs) = add_mset n (mset xs)"
proof -
  have "mset (takeWhile P xs) + mset (dropWhile P xs) = mset xs" for P
    by (metis mset_append takeWhile_dropWhile_id)
  then show ?thesis by (simp add: put_def)
qed

lemma sorted_put:
  fixes key :: "nat \<Rightarrow> 'k::linorder"
  assumes "\<And>a b. cmp a b < 0 \<longleftrightarrow> key a < key b"
  shows "sorted (map key xs) \<Longrightarrow> sorted (map key (put cmp n xs))"
proof (induction xs)
  case (Cons x xs)
  have "set (put cmp n xs) = insert n (set xs)" by (metis mset_put set_mset_add_mset_insert set_mset_mset)
  with Cons show ?case using assms by (auto simp: put_def dest: set_takeWhileD set_dropWhileD)
qed (simp add: put_def)

lemma sort_loop_ok:
  assumes "chain_ok h srt ys" "fseg h xs NULL" "distinct (xs @ ys)"
  shows "\<exists>h' srt'. sort_loop cmp h srt (hd0 xs NULL) = Some (h', srt') \<and> chain_ok h' srt' (foldl (\<lambda>ys x. put cmp x ys) ys xs) \<and>
    unchanged (set (xs @ ys)) h h'"
  using assms
proof (induction xs arbitrary: h srt ys)
  case Nil
  then show ?case by (auto simp: sort_loop.simps unchanged_def)
next
  case (Cons x xs)
  let ?h1 = "set_prev x NULL (set_next x NULL h)"
  have x: "x \<noteq> NULL" "ln_next (h x) = hd0 xs NULL" "x \<notin> set ys" "x \<notin> set xs" using Cons.prems by auto
  have "chain_ok ?h1 srt ys" using Cons.prems(1) x by (simp add: chain_ok_def)
  then obtain h2 srt2 where h2: "llist_insert_sort cmp ?h1 srt x = Some (h2, srt2)" "chain_ok h2 srt2 (put cmp x ys)"
      "unchanged (insert x (set ys)) ?h1 h2"
    using insert_sort_ok x by blast
  have "\<forall>z\<in>set xs. h2 z = h z" using h2(3) Cons.prems(3) x by (auto simp: unchanged_def ll_others)
  then have "fseg h2 xs NULL" using Cons.prems(2) fseg_cong [of xs h2 h] by auto
  moreover have sp: "set (put cmp x ys) = insert x (set ys)" by (metis mset_put set_mset_add_mset_insert set_mset_mset)
  moreover have "distinct (put cmp x ys)" using h2(2) by (simp add: chain_ok_def)
  ultimately obtain h' srt' where "sort_loop cmp h2 srt2 (hd0 xs NULL) = Some (h', srt')"
      "chain_ok h' srt' (foldl (\<lambda>ys x. put cmp x ys) (put cmp x ys) xs)" "unchanged (set (xs @ put cmp x ys)) h2 h'"
    using Cons.IH [OF h2(2)] Cons.prems(3) x by auto
  moreover have "unchanged (set ((x # xs) @ ys)) h h'"
    using calculation(3) h2(3) sp by (auto simp: unchanged_def ll_others)
  ultimately show ?case using h2(1) x by (simp add: sort_loop.simps [of cmp h srt x] Let_def)
qed

lemma foldl_put:
  fixes key :: "nat \<Rightarrow> 'k::linorder"
  assumes "\<And>a b. cmp a b < 0 \<longleftrightarrow> key a < key b"
  shows "sorted (map key ys) \<Longrightarrow> sorted (map key (foldl (\<lambda>ys x. put cmp x ys) ys xs))"
    and "mset (foldl (\<lambda>ys x. put cmp x ys) ys xs) = mset xs + mset ys"
  by (induction xs arbitrary: ys) (auto simp: sorted_put [OF assms])

subsection \<open>The interface of a queue of nodes\<close>

text \<open>
  What the scheduler, the futexes and the page allocator rely on: the list of the nodes in
  order, and the effect of every operation on it.
\<close>

locale deque =
  fixes inv :: "'s \<Rightarrow> bool"
    and items :: "'s \<Rightarrow> nat list"
    and push_front :: "nat \<Rightarrow> 's \<Rightarrow> 's"
    and push_back :: "nat \<Rightarrow> 's \<Rightarrow> 's"
    and pop_front :: "'s \<Rightarrow> (nat \<times> 's) option"
    and pop_back :: "'s \<Rightarrow> (nat \<times> 's) option"
    and unlink :: "nat \<Rightarrow> 's \<Rightarrow> 's option"
  assumes push_front: "inv s \<Longrightarrow> n \<noteq> NULL \<Longrightarrow> n \<notin> set (items s) \<Longrightarrow>
      inv (push_front n s) \<and> items (push_front n s) = n # items s"
    and push_back: "inv s \<Longrightarrow> n \<noteq> NULL \<Longrightarrow> n \<notin> set (items s) \<Longrightarrow>
      inv (push_back n s) \<and> items (push_back n s) = items s @ [n]"
    and pop_front: "inv s \<Longrightarrow> items s = x # xs \<Longrightarrow> \<exists>s'. pop_front s = Some (x, s') \<and> inv s' \<and> items s' = xs"
    and pop_back: "inv s \<Longrightarrow> items s = xs @ [x] \<Longrightarrow> \<exists>s'. pop_back s = Some (x, s') \<and> inv s' \<and> items s' = xs"
    and pop_empty: "inv s \<Longrightarrow> items s = [] \<Longrightarrow> pop_front s = Some (NULL, s) \<and> pop_back s = Some (NULL, s)"
    and unlink: "inv s \<Longrightarrow> items s = xs @ n # ys \<Longrightarrow> \<exists>s'. unlink n s = Some s' \<and> inv s' \<and> items s' = xs @ ys"
begin

fun pop_back_many :: "nat \<Rightarrow> 's \<Rightarrow> (nat list \<times> 's) option" where
  "pop_back_many 0 s = Some ([], s)"
| "pop_back_many (Suc n) s =
     do { (x, s1) \<leftarrow> pop_back s; (xs, s2) \<leftarrow> pop_back_many n s1; Some (x # xs, s2) }"

lemma fold_push_front:
  "inv s \<Longrightarrow> distinct (ns @ items s) \<Longrightarrow> NULL \<notin> set ns \<Longrightarrow>
     inv (fold push_front ns s) \<and> items (fold push_front ns s) = rev ns @ items s"
proof (induction ns arbitrary: s)
  case (Cons n ns)
  have "inv (push_front n s)" "items (push_front n s) = n # items s"
    using push_front [of s n] Cons.prems by auto
  then show ?case using Cons.IH [of "push_front n s"] Cons.prems by auto
qed simp

lemma pop_back_all:
  "inv s \<Longrightarrow> items s = rev ns \<Longrightarrow> \<exists>s'. pop_back_many (length ns) s = Some (ns, s') \<and> inv s' \<and> items s' = []"
proof (induction ns arbitrary: s)
  case (Cons n ns)
  then obtain s1 where "pop_back s = Some (n, s1)" "inv s1" "items s1 = rev ns"
    using pop_back [of s "rev ns" n] by auto
  with Cons.IH [of s1] show ?case by auto
qed simp

text \<open>What is pushed at the front comes out at the back in the same order.\<close>

lemma fifo:
  assumes "inv s" "items s = []" "distinct ns" "NULL \<notin> set ns"
  shows "\<exists>s'. pop_back_many (length ns) (fold push_front ns s) = Some (ns, s') \<and> inv s' \<and> items s' = []"
  using fold_push_front [of s ns] pop_back_all [of "fold push_front ns s" ns] assms by auto

end

fun follow :: "llheap \<Rightarrow> nat \<Rightarrow> nat \<Rightarrow> nat list" where
  "follow h p 0 = []"
| "follow h p (Suc n) = p # follow h (ln_next (h p)) n"

definition ll_items :: "llheap \<times> llhead \<Rightarrow> nat list" where
  "ll_items s = follow (fst s) (ll_first (snd s)) (nat (ll_count (snd s)))"

definition ll_inv :: "llheap \<times> llhead \<Rightarrow> bool" where
  "ll_inv s \<longleftrightarrow> list_ok (fst s) (snd s) (ll_items s)"

lemma follow_seg: "lseg h p xs NULL \<Longrightarrow> follow h (hd0 xs NULL) (length xs) = xs"
  by (induction xs arbitrary: p) auto

lemma ll_items_ok: "list_ok h l xs \<Longrightarrow> ll_items (h, l) = xs"
  using follow_seg [of h NULL xs] by (simp add: ll_items_def list_ok_def)

lemma ll_invI: "list_ok h l xs \<Longrightarrow> ll_inv (h, l) \<and> ll_items (h, l) = xs"
  by (simp add: ll_inv_def ll_items_ok)

interpretation ll: deque ll_inv ll_items "\<lambda>n (h, l). ll_push_front h l n" "\<lambda>n (h, l). ll_push_back h l n"
  "\<lambda>(h, l). ll_pop_front h l" "\<lambda>(h, l). ll_pop_back h l" "\<lambda>n (h, l). ll_remove h l n"
proof (unfold_locales, goal_cases)
  case (1 s n)
  then show ?case using push_front_ok [of "fst s" "snd s" "ll_items s" n] ll_invI
    by (auto simp: ll_inv_def case_prod_beta)
next
  case (2 s n)
  then show ?case using push_back_ok [of "fst s" "snd s" "ll_items s" n] ll_invI
    by (auto simp: ll_inv_def case_prod_beta)
next
  case (3 s x xs)
  then show ?case using pop_front_ok [of "fst s" "snd s" x xs] ll_invI
    by (auto simp: ll_inv_def case_prod_beta)
next
  case (4 s xs x)
  then show ?case using pop_back_ok [of "fst s" "snd s" xs x] ll_invI
    by (auto simp: ll_inv_def case_prod_beta)
next
  case (5 s)
  then show ?case using pop_front_empty [of "fst s" "snd s"] pop_back_empty [of "fst s" "snd s"]
    by (auto simp: ll_inv_def case_prod_beta)
next
  case (6 s xs n ys)
  then show ?case using remove_ok [of "fst s" "snd s" xs n ys] ll_invI
    by (auto simp: ll_inv_def case_prod_beta)
qed

subsection \<open>Properties\<close>

text \<open>
  C16: a list used as a queue with \<^verbatim>\<open>ll_enqueue\<close> and \<^verbatim>\<open>ll_dequeue\<close> is first in, first out: after
  enqueuing any distinct nodes on an empty list, dequeuing as many returns them in the same
  order, no assert fails, and the list is empty and well linked again.
\<close>

theorem ll_queue_fifo:
  assumes "list_ok h l []" "distinct ns" "NULL \<notin> set ns"
  shows "\<exists>s'. ll.pop_back_many (length ns) (fold (\<lambda>n (h, l). ll_push_front h l n) ns (h, l)) = Some (ns, s') \<and>
    ll_inv s' \<and> ll_items s' = []"
  by (rule ll.fifo) (use assms ll_invI in auto)

theorem ll_queue_fifo_witness:
  "\<exists>s'. ll.pop_back_many (length [5, 3, 9 :: nat]) (fold (\<lambda>n (h, l). ll_push_front h l n) [5, 3, 9] (\<lambda>_. \<lparr>ln_prev = 7, ln_next = 7\<rparr>, llist_init)) =
     Some ([5, 3, 9], s') \<and> ll_items s' = []"
proof -
  have "distinct [5, 3, 9 :: nat]" "NULL \<notin> set [5, 3, 9]" by simp_all
  then show ?thesis using ll_queue_fifo [OF list_ok_init] by blast
qed

text \<open>
  C15: \<^verbatim>\<open>ll_remove\<close> of a node anywhere in a list ends, passes all its asserts, takes exactly that
  node out, keeps the order of the others and both directions of links, clears the links of
  the removed node and writes to no other node.
\<close>

theorem ll_remove_correct:
  assumes "list_ok h l (xs @ n # ys)"
  shows "\<exists>h' l'. ll_remove h l n = Some (h', l') \<and> list_ok h' l' (xs @ ys) \<and>
    (\<forall>x. x \<notin> set (xs @ n # ys) \<longrightarrow> h' x = h x) \<and> ln_prev (h' n) = NULL \<and> ln_next (h' n) = NULL"
  using remove_ok [OF assms] by (auto simp: unchanged_def)

definition pair_heap :: llheap where
  "pair_heap = (\<lambda>_. \<lparr>ln_prev = 0, ln_next = 0\<rparr>)(4 := \<lparr>ln_prev = 0, ln_next = 6\<rparr>, 6 := \<lparr>ln_prev = 4, ln_next = 0\<rparr>)"

definition pair_head :: llhead where
  "pair_head = \<lparr>ll_first = 4, ll_last = 6, ll_count = 2\<rparr>"

lemma pair_ok: "list_ok pair_heap pair_head [4, 6]"
  by (simp add: list_ok_def pair_heap_def pair_head_def)

theorem ll_remove_correct_witness:
  "\<exists>h' l'. ll_remove pair_heap pair_head 4 = Some (h', l') \<and> list_ok h' l' [6]"
  using ll_remove_correct [of pair_heap pair_head "[]" 4 "[6]"] pair_ok by auto

text \<open>
  C17: \<^verbatim>\<open>llist_sort\<close> ends and leaves the nodes of the list, each exactly once, in increasing order
  along the forward links, with the right first node, last node and count, for every
  comparison that orders the items by a key.
\<close>

theorem llist_sort_correct:
  fixes key :: "nat \<Rightarrow> int"
  assumes "list_ok h l xs" "\<And>a b. cmp a b < 0 \<longleftrightarrow> key a < key b"
  shows "\<exists>h' l' ys. llist_sort cmp h l = Some (h', l') \<and> chain_ok h' l' ys \<and>
    mset ys = mset xs \<and> sorted (map key ys) \<and> (\<forall>x. x \<notin> set xs \<longrightarrow> h' x = h x)"
proof -
  have "chain_ok h llist_init []" by (simp add: chain_ok_def llist_init_def)
  then obtain h' srt where s: "sort_loop cmp h llist_init (hd0 xs NULL) = Some (h', srt)"
      "chain_ok h' srt (foldl (\<lambda>ys x. put cmp x ys) [] xs)" "unchanged (set xs) h h'"
    using sort_loop_ok [of h llist_init "[]" xs cmp] assms(1) fseg_lseg by (auto simp: list_ok_def)
  moreover have "sorted (map key (foldl (\<lambda>ys x. put cmp x ys) [] xs))"
    by (rule foldl_put(1) [OF assms(2)]) simp
  moreover have "mset (foldl (\<lambda>ys x. put cmp x ys) [] xs) = mset xs"
    using foldl_put(2) [where cmp = cmp and key = key and ys = "[]" and xs = xs] assms(2) by simp
  ultimately show ?thesis using list_okD(3) [OF assms(1)]
    by (auto simp: llist_sort_def chain_ok_def unchanged_def)
qed

theorem llist_sort_correct_witness:
  "\<exists>h' l' ys. llist_sort (\<lambda>a b. int b - int a) pair_heap pair_head = Some (h', l') \<and> chain_ok h' l' ys \<and>
     mset ys = {#4, 6#} \<and> sorted (map (\<lambda>n. - int n) ys)"
  using llist_sort_correct [OF pair_ok, of "\<lambda>a b. int b - int a" "\<lambda>n. - int n"] by auto

text \<open>
  \<^verbatim>\<open>llist_check\<close> rejects every well-formed list that is not empty: with one node the count of
  links is compared to the count of nodes, with more the back link of the first node is
  compared to the node itself.
\<close>

theorem llist_check_rejects_all:
  assumes "list_ok h l xs" "xs \<noteq> []"
  shows "llist_check h l = Some False"
  by (rule check_rejects [OF assms])

theorem llist_check_rejects_all_witness: "llist_check pair_heap pair_head = Some False"
  using llist_check_rejects_all [OF pair_ok] by simp

end
