(* ===== verification/HMap.thy ===== *)
theory HMap
  imports Prelude
begin

section \<open>Hash map (\<^verbatim>\<open>src/stdc/hmap.c\<close>)\<close>

text \<open>
  The chained hash table of the kernel. A key is the list of its bytes (the code passes a
  pointer and a length), a chain is the list of its entries in link order, and the table is
  the list of the chains; \<^verbatim>\<open>malloc\<close> always succeeds. Keys are compared as \<^verbatim>\<open>memcmp\<close> of \<^verbatim>\<open>string.c\<close> does it, which
  reads past two empty keys.
\<close>

unbundle bit_operations_syntax

subsection \<open>Model\<close>

record 'v hnode =
  hn_value :: 'v
  hn_hash :: u32
  hn_key :: "u8 list"

record 'v hmap =
  hm_hashes :: "'v hnode list list"
  hm_mask :: u32
  hm_seed :: u32
  hm_count :: u32

text \<open>A little-endian 32-bit word read from (at most) the first four bytes of a list.\<close>

definition le_word :: "u8 list \<Rightarrow> u32" where
  "le_word bs = foldr (\<lambda>b w. push_bit 8 w OR ucast b) (take 4 bs) 0"

definition mix_k :: "u32 \<Rightarrow> u32" where
  "mix_k k = (let k = k * 0xcc9e2d51; k = push_bit 15 k OR drop_bit 17 k in k * 0x1b873593)"

fun murmur_blocks :: "u8 list \<Rightarrow> u32 \<Rightarrow> u8 list \<times> u32" where
  "murmur_blocks (a # b # c # d # bs) hash =
     (let k = mix_k (le_word [a, b, c, d]);
          hash = hash XOR k;
          hash = push_bit 13 k OR drop_bit 19 k
      in murmur_blocks bs (hash * 5 + 0xe6546b64))"
| "murmur_blocks bs hash = (bs, hash)"

definition murmur_final :: "nat \<Rightarrow> u32 \<Rightarrow> u32" where
  "murmur_final n hash =
     (let hash = hash XOR of_nat n;
          hash = hash XOR drop_bit 16 hash;
          hash = hash * 0x85ebca6b;
          hash = hash XOR drop_bit 13 hash;
          hash = hash * 0xc2b2ae35
      in hash XOR drop_bit 16 hash)"

definition murmur3_32 :: "u8 list \<Rightarrow> u32 \<Rightarrow> u32" where
  "murmur3_32 key seed =
     (let (rest, hash) = murmur_blocks key seed;
          hash = (if rest \<noteq> [] then hash XOR mix_k (le_word rest) else hash)
      in murmur_final (length key) hash)"

definition hmp_init :: "u32 \<Rightarrow> 'v hmap option" where
  "hmp_init lg =
     (if lg AND (lg - 1) \<noteq> 0 then None
      else Some \<lparr>hm_hashes = replicate (unat lg) [], hm_mask = lg - 1, hm_seed = 0xa5a5a5a5, hm_count = 0\<rparr>)"

text \<open>The entries are freed from the last chain to the first; the header is then zeroed.\<close>

definition hmp_destroy :: "'v hmap \<Rightarrow> 'v hnode list \<times> 'v hmap" where
  "hmp_destroy hm = (concat (rev (hm_hashes hm)), \<lparr>hm_hashes = [], hm_mask = 0, hm_seed = 0, hm_count = 0\<rparr>)"

definition bucket :: "u32 \<Rightarrow> u32 \<Rightarrow> nat" where
  "bucket hash msk = unat (hash AND msk)"

definition push_entry :: "u32 \<Rightarrow> 'v hnode list list \<Rightarrow> 'v hnode \<Rightarrow> 'v hnode list list" where
  "push_entry msk tbl e = tbl[bucket (hn_hash e) msk := e # tbl ! bucket (hn_hash e) msk]"

definition hmap_grow :: "'v hmap \<Rightarrow> 'v hmap" where
  "hmap_grow hm =
     (let lg = (hm_mask hm + 1) * 2;
          msk = lg - 1;
          htable = replicate (unat lg) []
      in hm\<lparr>hm_mask := msk, hm_hashes := foldl (push_entry msk) htable (concat (hm_hashes hm))\<rparr>)"

text \<open>\<^verbatim>\<open>memcmp\<close> of \<^verbatim>\<open>string.c\<close> on two keys: the length is decremented before it is tested, so that the last byte
  is compared after the loop and a length of 0 wraps around. \<open>None\<close> is a read past the end of a key: what the code
  then finds is not determined by the table.\<close>

fun key_cmp :: "u8 list \<Rightarrow> u8 list \<Rightarrow> int option" where
  "key_cmp (a # as) (b # bs) = (if as \<noteq> [] \<and> a = b then key_cmp as bs else Some (sint a - sint b))"
| "key_cmp _ _ = None"

text \<open>The test \<^verbatim>\<open>entry->lg == lg && memcmp(entry->key, key, lg) == 0\<close>.\<close>

definition key_match :: "'v hnode \<Rightarrow> u8 list \<Rightarrow> bool option" where
  "key_match e key =
     (if length (hn_key e) = length key then do { c \<leftarrow> key_cmp (hn_key e) key; Some (c = 0) } else Some False)"

fun chain_put :: "u8 list \<Rightarrow> 'v \<Rightarrow> 'v hnode list \<Rightarrow> 'v hnode list option option" where
  "chain_put key v [] = Some None"
| "chain_put key v (e # es) =
     do { eq \<leftarrow> key_match e key;
          if eq then Some (Some (e\<lparr>hn_value := v\<rparr> # es))
          else do { r \<leftarrow> chain_put key v es; Some (map_option ((#) e) r) } }"

definition hmp_put :: "'v hmap \<Rightarrow> u8 list \<Rightarrow> 'v \<Rightarrow> 'v hmap option" where
  "hmp_put hm key v =
     (let hash = murmur3_32 key (hm_seed hm);
          i = bucket hash (hm_mask hm)
      in do {
        r \<leftarrow> chain_put key v (hm_hashes hm ! i);
        Some (case r of
           Some es \<Rightarrow> hm\<lparr>hm_hashes := (hm_hashes hm)[i := es]\<rparr>
         | None \<Rightarrow>
             let hm = (if hm_count hm > 3 * (hm_mask hm + 1) then hmap_grow hm else hm);
                 e = \<lparr>hn_value = v, hn_hash = hash, hn_key = key\<rparr>
             in hm\<lparr>hm_hashes := push_entry (hm_mask hm) (hm_hashes hm) e, hm_count := hm_count hm + 1\<rparr>) })"

text \<open>The inner option of a lookup is the null pointer.\<close>

fun chain_get :: "u8 list \<Rightarrow> 'v hnode list \<Rightarrow> 'v option option" where
  "chain_get key [] = Some None"
| "chain_get key (e # es) =
     do { eq \<leftarrow> key_match e key; if eq then Some (Some (hn_value e)) else chain_get key es }"

definition hmp_get :: "'v hmap \<Rightarrow> u8 list \<Rightarrow> 'v option option" where
  "hmp_get hm key = chain_get key (hm_hashes hm ! bucket (murmur3_32 key (hm_seed hm)) (hm_mask hm))"

fun chain_remove :: "u8 list \<Rightarrow> 'v hnode list \<Rightarrow> 'v hnode list option option" where
  "chain_remove key [] = Some None"
| "chain_remove key (e # es) =
     do { eq \<leftarrow> key_match e key;
          if eq then Some (Some es)
          else do { r \<leftarrow> chain_remove key es; Some (map_option ((#) e) r) } }"

definition hmp_remove :: "'v hmap \<Rightarrow> u8 list \<Rightarrow> 'v hmap option" where
  "hmp_remove hm key =
     (let i = bucket (murmur3_32 key (hm_seed hm)) (hm_mask hm)
      in do {
        r \<leftarrow> chain_remove key (hm_hashes hm ! i);
        Some (case r of
           None \<Rightarrow> hm
         | Some es \<Rightarrow> hm\<lparr>hm_hashes := (hm_hashes hm)[i := es], hm_count := hm_count hm - 1\<rparr>) })"

subsection \<open>The interface of a finite map\<close>

text \<open>What a client of the hash map relies on, for keys that are not empty: \<open>look\<close> is the map that the table stands for,
  and \<open>room\<close> bounds the number of keys.\<close>

locale finite_map =
  fixes inv :: "'m \<Rightarrow> bool"
    and room :: "'m \<Rightarrow> bool"
    and look :: "'m \<Rightarrow> u8 list \<Rightarrow> 'v option"
    and get :: "'m \<Rightarrow> u8 list \<Rightarrow> 'v option option"
    and put :: "'m \<Rightarrow> u8 list \<Rightarrow> 'v \<Rightarrow> 'm option"
    and del :: "'m \<Rightarrow> u8 list \<Rightarrow> 'm option"
  assumes get_look: "inv m \<Longrightarrow> k \<noteq> [] \<Longrightarrow> get m k = Some (look m k)"
    and put_look: "inv m \<Longrightarrow> room m \<Longrightarrow> k \<noteq> [] \<Longrightarrow> \<exists>m'. put m k v = Some m' \<and> inv m' \<and> look m' = (look m)(k \<mapsto> v)"
    and del_look: "inv m \<Longrightarrow> k \<noteq> [] \<Longrightarrow> \<exists>m'. del m k = Some m' \<and> inv m' \<and> look m' = (look m)(k := None)"
begin

lemma put_del:
  assumes "inv m" "room m" "k \<noteq> []" "look m k = None"
  shows "\<exists>m1 m2. put m k v = Some m1 \<and> del m1 k = Some m2 \<and> inv m2 \<and> look m2 = look m"
proof -
  obtain m1 where 1: "put m k v = Some m1" "inv m1" "look m1 = (look m)(k \<mapsto> v)" using put_look assms(1-3) by blast
  then obtain m2 where "del m1 k = Some m2" "inv m2" "look m2 = (look m1)(k := None)" using del_look assms(3) by blast
  then show ?thesis using 1 assms(4) by (auto simp: fun_upd_idem)
qed

end

subsection \<open>Comparing keys as values\<close>

text \<open>The same operations with the keys compared for equality. On keys of at least one byte they are what the code computes.\<close>

fun upd_key :: "u8 list \<Rightarrow> 'v \<Rightarrow> 'v hnode list \<Rightarrow> 'v hnode list option" where
  "upd_key key v [] = None"
| "upd_key key v (e # es) =
     (if hn_key e = key then Some (e\<lparr>hn_value := v\<rparr> # es)
      else do { es' \<leftarrow> upd_key key v es; Some (e # es') })"

definition map_put :: "'v hmap \<Rightarrow> u8 list \<Rightarrow> 'v \<Rightarrow> 'v hmap" where
  "map_put hm key v =
     (let hash = murmur3_32 key (hm_seed hm);
          i = bucket hash (hm_mask hm)
      in case upd_key key v (hm_hashes hm ! i) of
           Some es \<Rightarrow> hm\<lparr>hm_hashes := (hm_hashes hm)[i := es]\<rparr>
         | None \<Rightarrow>
             let hm = (if hm_count hm > 3 * (hm_mask hm + 1) then hmap_grow hm else hm);
                 e = \<lparr>hn_value = v, hn_hash = hash, hn_key = key\<rparr>
             in hm\<lparr>hm_hashes := push_entry (hm_mask hm) (hm_hashes hm) e, hm_count := hm_count hm + 1\<rparr>)"

fun find_key :: "u8 list \<Rightarrow> 'v hnode list \<Rightarrow> 'v option" where
  "find_key key [] = None"
| "find_key key (e # es) = (if hn_key e = key then Some (hn_value e) else find_key key es)"

definition map_get :: "'v hmap \<Rightarrow> u8 list \<Rightarrow> 'v option" where
  "map_get hm key = find_key key (hm_hashes hm ! bucket (murmur3_32 key (hm_seed hm)) (hm_mask hm))"

fun del_key :: "u8 list \<Rightarrow> 'v hnode list \<Rightarrow> ('v hnode list) option" where
  "del_key key [] = None"
| "del_key key (e # es) =
     (if hn_key e = key then Some es else do { es' \<leftarrow> del_key key es; Some (e # es') })"

definition map_del :: "'v hmap \<Rightarrow> u8 list \<Rightarrow> 'v hmap" where
  "map_del hm key =
     (let i = bucket (murmur3_32 key (hm_seed hm)) (hm_mask hm)
      in case del_key key (hm_hashes hm ! i) of
           None \<Rightarrow> hm
         | Some es \<Rightarrow> hm\<lparr>hm_hashes := (hm_hashes hm)[i := es], hm_count := hm_count hm - 1\<rparr>)"

lemma key_cmp_eq: "length a = length b \<Longrightarrow> a \<noteq> [] \<Longrightarrow> \<exists>c. key_cmp a b = Some c \<and> (c = 0 \<longleftrightarrow> a = b)"
proof (induction a b rule: key_cmp.induct)
  case (1 a as b bs)
  have "sint a - sint b = 0 \<longleftrightarrow> a = b" by (auto simp: signed_word_eqI)
  then show ?case using 1 by auto
qed auto

lemma key_match_eq: "k \<noteq> [] \<Longrightarrow> key_match e k = Some (hn_key e = k)"
  using key_cmp_eq [of "hn_key e" k] by (cases "hn_key e = []") (auto simp: key_match_def)

lemma chain_refs:
  assumes "k \<noteq> []"
  shows "chain_put k v es = Some (upd_key k v es)" "chain_get k es = Some (find_key k es)" "chain_remove k es = Some (del_key k es)"
  by (induction es) (auto simp: key_match_eq [OF assms] split: bind_splits)

lemma hmp_refs:
  assumes "k \<noteq> []"
  shows "hmp_put hm k v = Some (map_put hm k v)" "hmp_get hm k = Some (map_get hm k)" "hmp_remove hm k = Some (map_del hm k)"
  by (simp_all add: hmp_put_def map_put_def hmp_get_def map_get_def hmp_remove_def map_del_def chain_refs [OF assms] Let_def)

subsection \<open>Well-formed tables\<close>

definition tbl_ok :: "u32 \<Rightarrow> u32 \<Rightarrow> 'v hnode list list \<Rightarrow> bool" where
  "tbl_ok msk seed tbl \<longleftrightarrow> length tbl = Suc (unat msk) \<and>
     (\<forall>i < length tbl. distinct (map hn_key (tbl ! i)) \<and>
        (\<forall>e \<in> set (tbl ! i). hn_hash e = murmur3_32 (hn_key e) seed \<and> bucket (murmur3_32 (hn_key e) seed) msk = i))"

definition hm_size :: "'v hmap \<Rightarrow> nat" where
  "hm_size hm = length (concat (hm_hashes hm))"

definition hm_inv :: "'v hmap \<Rightarrow> bool" where
  "hm_inv hm \<longleftrightarrow> tbl_ok (hm_mask hm) (hm_seed hm) (hm_hashes hm) \<and> unat (hm_count hm) = hm_size hm \<and>
     3 * Suc (unat (hm_mask hm)) < 2 ^ 32"

definition hm_room :: "'v hmap \<Rightarrow> bool" where
  "hm_room hm \<longleftrightarrow> hm_size hm < 2 ^ 31"

lemma bucket_less: "bucket hash msk < Suc (unat msk)"
  using word_and_le1 [of hash msk] by (simp add: bucket_def word_le_nat_alt le_imp_less_Suc)

lemma find_key_iff:
  "distinct (map hn_key es) \<Longrightarrow> find_key k es = Some v \<longleftrightarrow> (\<exists>e \<in> set es. hn_key e = k \<and> hn_value e = v)"
  by (induction es) (auto simp: image_iff)

abbreviation upd_value :: "u8 list \<Rightarrow> 'v \<Rightarrow> 'v hnode \<Rightarrow> 'v hnode" where
  "upd_value k v \<equiv> \<lambda>e. if hn_key e = k then e\<lparr>hn_value := v\<rparr> else e"

lemma upd_key_eq:
  "distinct (map hn_key es) \<Longrightarrow>
     upd_key k v es = (if k \<in> hn_key ` set es then Some (map (upd_value k v) es) else None)"
proof (induction es)
  case (Cons e es)
  show ?case
  proof (cases "hn_key e = k")
    case True
    then have "k \<notin> hn_key ` set es" using Cons.prems by simp
    then have "map (upd_value k v) es = es" by (intro map_idI) auto
    then show ?thesis using True by simp
  next
    case False
    then show ?thesis using Cons by auto
  qed
qed simp

lemma del_key_None: "del_key k es = None \<longleftrightarrow> k \<notin> hn_key ` set es"
  by (induction es) (auto split: bind_splits)

lemma del_key_Some:
  "del_key k es = Some es' \<Longrightarrow> distinct (map hn_key es) \<Longrightarrow>
     es' = filter (\<lambda>e. hn_key e \<noteq> k) es \<and> Suc (length es') = length es"
proof (induction es arbitrary: es')
  case (Cons e es)
  show ?case
  proof (cases "hn_key e = k")
    case True
    then have "k \<notin> hn_key ` set es" using Cons.prems(2) by simp
    then have "filter (\<lambda>e. hn_key e \<noteq> k) es = es" by (intro filter_True) blast
    then show ?thesis using True Cons.prems(1) by simp
  next
    case False
    then show ?thesis using Cons by (auto split: bind_splits)
  qed
qed simp

lemma tbl_okD:
  assumes "tbl_ok msk seed tbl"
  shows "length tbl = Suc (unat msk)"
    "i < length tbl \<Longrightarrow> distinct (map hn_key (tbl ! i))"
    "i < length tbl \<Longrightarrow> e \<in> set (tbl ! i) \<Longrightarrow> hn_hash e = murmur3_32 (hn_key e) seed"
    "i < length tbl \<Longrightarrow> e \<in> set (tbl ! i) \<Longrightarrow> i = bucket (murmur3_32 (hn_key e) seed) msk"
  using assms unfolding tbl_ok_def by metis+

lemma in_bucket:
  assumes "tbl_ok msk seed tbl"
  shows "e \<in> set (concat tbl) \<longleftrightarrow> e \<in> set (tbl ! bucket (murmur3_32 (hn_key e) seed) msk)"
  using tbl_okD(1,4) [OF assms] bucket_less by (fastforce simp: in_set_conv_nth)

lemma tbl_get:
  assumes "tbl_ok msk seed tbl"
  shows "find_key k (tbl ! bucket (murmur3_32 k seed) msk) = Some v \<longleftrightarrow>
    (\<exists>e \<in> set (concat tbl). hn_key e = k \<and> hn_value e = v)"
proof -
  have "bucket (murmur3_32 k seed) msk < length tbl" using bucket_less tbl_okD(1) [OF assms] by simp
  from find_key_iff [OF tbl_okD(2) [OF assms this], of k v] in_bucket [OF assms]
  show ?thesis by auto
qed

text \<open>Two tables with the same contents answer alike.\<close>

lemma tbl_get_eqI:
  assumes "tbl_ok msk seed tbl" "\<And>w. (\<exists>e \<in> set (concat tbl). hn_key e = k \<and> hn_value e = w) \<longleftrightarrow> r = Some w"
  shows "find_key k (tbl ! bucket (murmur3_32 k seed) msk) = r"
  using tbl_get [OF assms(1), of k] assms(2) by (metis option.exhaust)

lemma length_concat_upd:
  "i < length xss \<Longrightarrow> length (concat (xss[i := ys])) + length (xss ! i) = length (concat xss) + length ys"
proof (induction xss arbitrary: i)
  case (Cons xs xss)
  then show ?case by (cases i) auto
qed simp

lemma tbl_ok_upd:
  assumes "tbl_ok msk seed tbl" "i < length tbl" "distinct (map hn_key es)"
    "\<And>e. e \<in> set es \<Longrightarrow> hn_hash e = murmur3_32 (hn_key e) seed \<and> bucket (murmur3_32 (hn_key e) seed) msk = i"
  shows "tbl_ok msk seed (tbl[i := es])"
  using assms unfolding tbl_ok_def by (auto simp: nth_list_update)

lemma set_concat_upd:
  assumes "tbl_ok msk seed tbl" "i < length tbl" "tbl_ok msk seed (tbl[i := es])"
  shows "e \<in> set (concat (tbl[i := es])) \<longleftrightarrow>
    (if bucket (murmur3_32 (hn_key e) seed) msk = i then e \<in> set es else e \<in> set (concat tbl))"
  using in_bucket [OF assms(1)] in_bucket [OF assms(3)] assms(2) by (auto simp: nth_list_update)

lemma push_entry_ok:
  assumes "tbl_ok msk seed tbl" "hn_hash e = murmur3_32 (hn_key e) seed" "hn_key e \<notin> hn_key ` set (concat tbl)"
  shows "tbl_ok msk seed (push_entry msk tbl e)" "set (concat (push_entry msk tbl e)) = insert e (set (concat tbl))"
    "length (concat (push_entry msk tbl e)) = Suc (length (concat tbl))"
proof -
  let ?i = "bucket (hn_hash e) msk"
  have i: "?i < length tbl" using bucket_less tbl_okD(1) [OF assms(1)] by simp
  have sub: "set (tbl ! ?i) \<subseteq> set (concat tbl)" using nth_mem [OF i] by auto
  then have "hn_key e \<notin> hn_key ` set (tbl ! ?i)" using assms(3) by blast
  then show ok: "tbl_ok msk seed (push_entry msk tbl e)"
    unfolding push_entry_def using tbl_okD [OF assms(1)] i assms(2) by (intro tbl_ok_upd [OF assms(1) i]) auto
  show "set (concat (push_entry msk tbl e)) = insert e (set (concat tbl))"
  proof (rule set_eqI)
    fix x
    show "x \<in> set (concat (push_entry msk tbl e)) \<longleftrightarrow> x \<in> insert e (set (concat tbl))"
      using set_concat_upd [OF assms(1) i ok [unfolded push_entry_def], of x] in_bucket [OF assms(1), of x] assms(2)
      unfolding push_entry_def by (auto simp del: set_concat)
  qed
  show "length (concat (push_entry msk tbl e)) = Suc (length (concat tbl))"
    using length_concat_upd [OF i, of "e # tbl ! ?i"] by (simp add: push_entry_def)
qed

lemma foldl_push_entry:
  assumes "tbl_ok msk seed tbl" "\<forall>e\<in>set es. hn_hash e = murmur3_32 (hn_key e) seed"
    "distinct (map hn_key es)" "hn_key ` set es \<inter> hn_key ` set (concat tbl) = {}"
  shows "tbl_ok msk seed (foldl (push_entry msk) tbl es) \<and>
    set (concat (foldl (push_entry msk) tbl es)) = set es \<union> set (concat tbl) \<and>
    length (concat (foldl (push_entry msk) tbl es)) = length es + length (concat tbl)"
  using assms
proof (induction es arbitrary: tbl)
  case (Cons e es)
  have e: "hn_hash e = murmur3_32 (hn_key e) seed" "hn_key e \<notin> hn_key ` set (concat tbl)"
    using Cons.prems by auto
  note p = push_entry_ok [OF Cons.prems(1) e]
  have "hn_key ` set es \<inter> hn_key ` set (concat (push_entry msk tbl e)) = {}"
    unfolding p(2) using Cons.prems(3,4) by auto
  then show ?case using Cons.IH [OF p(1)] Cons.prems(2,3) p(2,3) by auto
qed simp

lemma distinct_concat_keys:
  assumes "\<And>i. i < length xss \<Longrightarrow> distinct (map f (xss ! i))"
    "\<And>i x. i < length xss \<Longrightarrow> x \<in> set (xss ! i) \<Longrightarrow> g (f x) = c + i"
  shows "distinct (map f (concat xss))"
  using assms
proof (induction xss arbitrary: c)
  case (Cons xs xss)
  have "distinct (map f (concat xss))"
  proof (rule Cons.IH [of "Suc c"])
    show "distinct (map f (xss ! i))" if "i < length xss" for i using Cons.prems(1) [of "Suc i"] that by simp
    show "g (f x) = Suc c + i" if "i < length xss" "x \<in> set (xss ! i)" for i x
      using Cons.prems(2) [of "Suc i" x] that by simp
  qed
  moreover have "distinct (map f xs)" using Cons.prems(1) [of 0] by simp
  moreover have "f x \<noteq> f y" if "x \<in> set xs" "y \<in> set (concat xss)" for x y
  proof -
    obtain i where "i < length xss" "y \<in> set (xss ! i)" using \<open>y \<in> set (concat xss)\<close> by (metis UN_E in_set_conv_nth set_concat)
    then have "g (f y) = c + Suc i" using Cons.prems(2) [of "Suc i" y] by simp
    moreover have "g (f x) = c" using Cons.prems(2) [of 0 x] that by simp
    ultimately show ?thesis by auto
  qed
  ultimately show ?case by (auto simp: distinct_append)
qed simp

lemma tbl_distinct: "tbl_ok msk seed tbl \<Longrightarrow> distinct (map hn_key (concat tbl))"
  by (rule distinct_concat_keys [where g = "\<lambda>k. bucket (murmur3_32 k seed) msk" and c = 0])
    (auto dest: tbl_okD)

lemma tbl_hashes: "tbl_ok msk seed tbl \<Longrightarrow> \<forall>e\<in>set (concat tbl). hn_hash e = murmur3_32 (hn_key e) seed"
  by (metis UN_E in_set_conv_nth set_concat tbl_okD(3))

lemma empty_tbl: "length tbl = Suc (unat msk) \<Longrightarrow> \<forall>es\<in>set tbl. es = [] \<Longrightarrow> tbl_ok msk seed tbl"
  using nth_mem [of _ tbl] unfolding tbl_ok_def by (metis distinct.simps(1) empty_iff list.map_disc_iff list.set(1))

text \<open>The sizes stay far below the range of the 32-bit mask, so the doubling does not wrap.\<close>

lemma grow_size:
  fixes msk :: u32
  assumes "2 * Suc (unat msk) < 2 ^ 32"
  shows "unat ((msk + 1) * 2) = 2 * Suc (unat msk)" "unat ((msk + 1) * 2 - 1) = Suc (2 * unat msk)"
proof -
  show 1: "unat ((msk + 1) * 2) = 2 * Suc (unat msk)" using assms by (simp add: unat_word_ariths)
  then have "1 \<le> (msk + 1) * 2" by (simp add: word_le_nat_alt)
  from unat_sub [OF this] 1 show "unat ((msk + 1) * 2 - 1) = Suc (2 * unat msk)" by simp
qed

definition hm_entries :: "'v hmap \<Rightarrow> (u8 list \<times> 'v) set" where
  "hm_entries hm = (\<lambda>e. (hn_key e, hn_value e)) ` set (concat (hm_hashes hm))"

lemma map_get_iff: "hm_inv hm \<Longrightarrow> map_get hm k = Some v \<longleftrightarrow> (k, v) \<in> hm_entries hm"
  unfolding map_get_def hm_entries_def using tbl_get [of "hm_mask hm" "hm_seed hm" "hm_hashes hm" k v]
  by (auto simp: hm_inv_def simp del: set_concat)

lemma map_get_eqI:
  assumes "hm_inv hm" "\<And>v. (k, v) \<in> hm_entries hm \<longleftrightarrow> r = Some v"
  shows "map_get hm k = r"
  using map_get_iff [OF assms(1), of k] assms(2) by (metis option.exhaust)

lemma hmap_grow_ok:
  fixes hm :: "'v hmap"
  assumes "hm_inv hm" "hm_room hm" "hm_count hm > 3 * (hm_mask hm + 1)"
  shows "hm_inv (hmap_grow hm)" "hm_entries (hmap_grow hm) = hm_entries hm"
    "hm_size (hmap_grow hm) = hm_size hm" "hm_seed (hmap_grow hm) = hm_seed hm"
    "hm_count (hmap_grow hm) = hm_count hm"
proof -
  let ?m = "(hm_mask hm + 1) * 2 - 1" and ?t = "replicate (unat ((hm_mask hm + 1) * 2)) [] :: 'v hnode list list"
  have b: "3 * Suc (unat (hm_mask hm)) < 2 ^ 32" and ok: "tbl_ok (hm_mask hm) (hm_seed hm) (hm_hashes hm)"
    and cnt: "unat (hm_count hm) = hm_size hm" using assms(1) by (simp_all add: hm_inv_def)
  have "unat (3 * (hm_mask hm + 1)) = 3 * Suc (unat (hm_mask hm))" using b by (simp add: unat_word_ariths)
  then have b2: "6 * Suc (unat (hm_mask hm)) < 2 ^ 32" using assms(2,3) cnt by (simp add: word_less_nat_alt hm_room_def)
  note g = grow_size [of "hm_mask hm"]
  have t: "tbl_ok ?m (hm_seed hm) ?t" using g b by (intro empty_tbl) auto
  have f: "tbl_ok ?m (hm_seed hm) (foldl (push_entry ?m) ?t (concat (hm_hashes hm))) \<and>
    set (concat (foldl (push_entry ?m) ?t (concat (hm_hashes hm)))) = set (concat (hm_hashes hm)) \<union> set (concat ?t) \<and>
    length (concat (foldl (push_entry ?m) ?t (concat (hm_hashes hm)))) = length (concat (hm_hashes hm)) + length (concat ?t)"
    by (rule foldl_push_entry [OF t tbl_hashes [OF ok] tbl_distinct [OF ok]]) simp
  have e: "concat ?t = []" by simp
  show "hm_seed (hmap_grow hm) = hm_seed hm" "hm_count (hmap_grow hm) = hm_count hm"
    by (simp_all add: hmap_grow_def Let_def)
  show sz: "hm_size (hmap_grow hm) = hm_size hm" using f e by (simp add: hmap_grow_def Let_def hm_size_def del: length_concat)
  show "hm_entries (hmap_grow hm) = hm_entries hm" using f e
    by (simp add: hmap_grow_def Let_def hm_entries_def del: set_concat)
  show "hm_inv (hmap_grow hm)" using f sz cnt g b b2 by (simp add: hm_inv_def) (simp add: hmap_grow_def Let_def)
qed

definition home :: "'v hmap \<Rightarrow> u8 list \<Rightarrow> nat" where
  "home hm k = bucket (murmur3_32 k (hm_seed hm)) (hm_mask hm)"

lemma home_less: "hm_inv hm \<Longrightarrow> home hm k < length (hm_hashes hm)"
  using bucket_less tbl_okD(1) [of "hm_mask hm" "hm_seed hm" "hm_hashes hm"] by (simp add: hm_inv_def home_def)

text \<open>Replacing the chain of a key by one that holds other entries of the same chain.\<close>

lemma chain_upd:
  fixes hm :: "'v hmap"
  assumes inv: "hm_inv hm" and d: "distinct (map hn_key es)"
    and es: "\<And>e. e \<in> set es \<Longrightarrow> hn_hash e = murmur3_32 (hn_key e) (hm_seed hm) \<and> home hm (hn_key e) = home hm k"
    and cnt: "unat cnt + length (hm_hashes hm ! home hm k) = hm_size hm + length es"
  defines "hm' \<equiv> hm\<lparr>hm_hashes := (hm_hashes hm)[home hm k := es], hm_count := cnt\<rparr>"
  shows "hm_inv hm'"
    "(j, v) \<in> hm_entries hm' \<longleftrightarrow>
       (if home hm j = home hm k then (\<exists>e \<in> set es. hn_key e = j \<and> hn_value e = v) else (j, v) \<in> hm_entries hm)"
proof -
  note i = home_less [OF inv, of k]
  have ok: "tbl_ok (hm_mask hm) (hm_seed hm) (hm_hashes hm)" using inv by (simp add: hm_inv_def)
  have ok': "tbl_ok (hm_mask hm) (hm_seed hm) ((hm_hashes hm)[home hm k := es])"
    using es by (intro tbl_ok_upd [OF ok i d]) (auto simp: home_def)
  show "hm_inv hm'"
    using ok' inv cnt length_concat_upd [OF i, of es] by (simp add: hm_inv_def hm'_def hm_size_def del: length_concat)
  have "(\<exists>e \<in> set (concat ((hm_hashes hm)[home hm k := es])). hn_key e = j \<and> hn_value e = v) \<longleftrightarrow>
       (if home hm j = home hm k then (\<exists>e \<in> set es. hn_key e = j \<and> hn_value e = v)
        else (\<exists>e \<in> set (concat (hm_hashes hm)). hn_key e = j \<and> hn_value e = v))"
    using set_concat_upd [OF ok i ok'] unfolding home_def by (metis (full_types))
  then show "(j, v) \<in> hm_entries hm' \<longleftrightarrow>
       (if home hm j = home hm k then (\<exists>e \<in> set es. hn_key e = j \<and> hn_value e = v) else (j, v) \<in> hm_entries hm)"
    unfolding hm_entries_def hm'_def by (simp add: image_iff eq_commute [of j] eq_commute [of v] del: set_concat)
qed

lemma chain_facts:
  assumes "hm_inv hm"
  shows "distinct (map hn_key (hm_hashes hm ! home hm k))"
    "e \<in> set (hm_hashes hm ! home hm k) \<Longrightarrow> hn_hash e = murmur3_32 (hn_key e) (hm_seed hm) \<and> home hm (hn_key e) = home hm k"
    "(j, v) \<in> hm_entries hm \<longleftrightarrow> (\<exists>e \<in> set (hm_hashes hm ! home hm j). hn_key e = j \<and> hn_value e = v)"
proof -
  have ok: "tbl_ok (hm_mask hm) (hm_seed hm) (hm_hashes hm)" using assms by (simp add: hm_inv_def)
  note i = home_less [OF assms, of k]
  show "distinct (map hn_key (hm_hashes hm ! home hm k))" by (rule tbl_okD(2) [OF ok i])
  show "e \<in> set (hm_hashes hm ! home hm k) \<Longrightarrow> hn_hash e = murmur3_32 (hn_key e) (hm_seed hm) \<and> home hm (hn_key e) = home hm k"
    using tbl_okD(3,4) [OF ok i, of e] by (simp add: home_def)
  show "(j, v) \<in> hm_entries hm \<longleftrightarrow> (\<exists>e \<in> set (hm_hashes hm ! home hm j). hn_key e = j \<and> hn_value e = v)"
    unfolding hm_entries_def using in_bucket [OF ok] by (auto simp: home_def image_iff simp del: set_concat)
qed

lemma upd_value_entries:
  "(\<exists>e \<in> set (map (upd_value k v) es). hn_key e = j \<and> hn_value e = w) \<longleftrightarrow>
     (if j = k then k \<in> hn_key ` set es \<and> w = v else \<exists>e \<in> set es. hn_key e = j \<and> hn_value e = w)"
proof (induction es)
  case (Cons e es)
  then show ?case by (cases "hn_key e = k") auto
qed simp

lemma map_put_existing:
  assumes inv: "hm_inv hm" and k: "k \<in> hn_key ` set (hm_hashes hm ! home hm k)"
  shows "hm_inv (map_put hm k v) \<and> map_get (map_put hm k v) = (map_get hm)(k \<mapsto> v) \<and> hm_size (map_put hm k v) = hm_size hm"
proof -
  let ?es = "map (upd_value k v) (hm_hashes hm ! home hm k)"
  note c = chain_facts [OF inv]
  have eq: "map_put hm k v = hm\<lparr>hm_hashes := (hm_hashes hm)[home hm k := ?es], hm_count := hm_count hm\<rparr>"
    using upd_key_eq [OF c(1), of k v k] k by (simp add: map_put_def Let_def home_def)
  have same: "hn_key (upd_value k v e) = hn_key e" "hn_hash (upd_value k v e) = hn_hash e" for e by simp_all
  have keys: "map hn_key ?es = map hn_key (hm_hashes hm ! home hm k)" by (simp only: map_map comp_def same)
  note u = chain_upd [OF inv, of ?es k "hm_count hm"]
  have p: "distinct (map hn_key ?es)" "unat (hm_count hm) + length (hm_hashes hm ! home hm k) = hm_size hm + length ?es"
    using c(1) [of k] inv by (simp_all only: keys length_map hm_inv_def)
  have p3: "hn_hash e = murmur3_32 (hn_key e) (hm_seed hm) \<and> home hm (hn_key e) = home hm k" if e: "e \<in> set ?es" for e
  proof -
    obtain d where "d \<in> set (hm_hashes hm ! home hm k)" "e = upd_value k v d" using e by (auto simp only: set_map)
    then show ?thesis using c(2) [of d k] same [of d] by simp
  qed
  have inv': "hm_inv (map_put hm k v)" unfolding eq by (rule u(1) [OF p(1) p3 p(2)])
  have "(j, w) \<in> hm_entries (map_put hm k v) \<longleftrightarrow> ((map_get hm)(k \<mapsto> v)) j = Some w" for j w
    using u(2) [OF p(1) p3 p(2), of j w, folded eq, unfolded upd_value_entries] map_get_iff [OF inv, of j w]
      c(3) [of j w] k by auto
  then have "map_get (map_put hm k v) = (map_get hm)(k \<mapsto> v)" by (intro ext map_get_eqI [OF inv']) simp
  moreover have "hm_size (map_put hm k v) = hm_size hm" using inv inv' by (simp add: hm_inv_def eq)
  ultimately show ?thesis using inv' by simp
qed

lemma hmp_push:
  assumes inv: "hm_inv hm" and room: "hm_room hm" and k: "map_get hm k = None"
    and e: "hn_hash e = murmur3_32 k (hm_seed hm)" "hn_key e = k"
  defines "hm' \<equiv> hm\<lparr>hm_hashes := push_entry (hm_mask hm) (hm_hashes hm) e, hm_count := hm_count hm + 1\<rparr>"
  shows "hm_inv hm' \<and> map_get hm' = (map_get hm)(k \<mapsto> hn_value e) \<and> hm_size hm' = Suc (hm_size hm)"
proof -
  let ?es = "e # hm_hashes hm ! home hm k"
  note c = chain_facts [OF inv]
  have eq: "hm' = hm\<lparr>hm_hashes := (hm_hashes hm)[home hm k := ?es], hm_count := hm_count hm + 1\<rparr>"
    using e by (simp add: hm'_def push_entry_def home_def)
  have new: "k \<notin> hn_key ` set (hm_hashes hm ! home hm k)" using k c(3) [of k] map_get_iff [OF inv, of k] by auto
  have cnt: "unat (hm_count hm + 1) = Suc (hm_size hm)"
    using inv room by (simp add: hm_inv_def hm_room_def unat_word_ariths)
  have p: "distinct (map hn_key ?es)" "unat (hm_count hm + 1) + length (hm_hashes hm ! home hm k) = hm_size hm + length ?es"
    "\<And>e. e \<in> set ?es \<Longrightarrow> hn_hash e = murmur3_32 (hn_key e) (hm_seed hm) \<and> home hm (hn_key e) = home hm k"
    using c(1) [of k] c(2) [of _ k] new e cnt by auto
  note u = chain_upd [OF inv p(1) p(3) p(2)]
  have inv': "hm_inv hm'" unfolding eq by (rule u(1))
  have "(j, w) \<in> hm_entries hm' \<longleftrightarrow> ((map_get hm)(k \<mapsto> hn_value e)) j = Some w" for j w
    using u(2) [of j w, folded eq] map_get_iff [OF inv, of j w] c(3) [of j w] e new by (auto simp: image_iff)
  then have "map_get hm' = (map_get hm)(k \<mapsto> hn_value e)" by (intro ext map_get_eqI [OF inv']) simp
  moreover have "hm_size hm' = Suc (hm_size hm)" using inv' cnt by (simp add: hm_inv_def eq)
  ultimately show ?thesis using inv' by simp
qed

lemma map_get_cong: "hm_inv hm \<Longrightarrow> hm_inv hm' \<Longrightarrow> hm_entries hm' = hm_entries hm \<Longrightarrow> map_get hm' = map_get hm"
  by (intro ext map_get_eqI) (simp_all add: map_get_iff)

lemma map_put_ok:
  assumes inv: "hm_inv hm" and room: "hm_room hm"
  shows "hm_inv (map_put hm k v)" "map_get (map_put hm k v) = (map_get hm)(k \<mapsto> v)"
    "hm_size (map_put hm k v) = hm_size hm + (if map_get hm k = None then 1 else 0)"
proof -
  let ?g = "if hm_count hm > 3 * (hm_mask hm + 1) then hmap_grow hm else hm"
  let ?e = "\<lparr>hn_value = v, hn_hash = murmur3_32 k (hm_seed hm), hn_key = k\<rparr>"
  have mem: "k \<in> hn_key ` set (hm_hashes hm ! home hm k) \<longleftrightarrow> map_get hm k \<noteq> None"
    using chain_facts(3) [OF inv, of k] map_get_iff [OF inv, of k] by auto
  have "hm_inv (map_put hm k v) \<and> map_get (map_put hm k v) = (map_get hm)(k \<mapsto> v) \<and>
    hm_size (map_put hm k v) = hm_size hm + (if map_get hm k = None then 1 else 0)"
  proof (cases "map_get hm k = None")
    case True
    have g: "hm_inv ?g" "hm_entries ?g = hm_entries hm" "hm_size ?g = hm_size hm" "hm_seed ?g = hm_seed hm"
      using inv hmap_grow_ok [OF inv room] by auto
    have get: "map_get ?g = map_get hm" by (rule map_get_cong [OF inv g(1,2)])
    have "map_put hm k v = ?g\<lparr>hm_hashes := push_entry (hm_mask ?g) (hm_hashes ?g) ?e, hm_count := hm_count ?g + 1\<rparr>"
      using upd_key_eq [OF chain_facts(1) [OF inv], of k v k] mem True unfolding map_put_def Let_def home_def by simp
    then show ?thesis using hmp_push [OF g(1), of k ?e] room get g(3,4) True by (simp add: hm_room_def)
  next
    case False
    then show ?thesis using map_put_existing [OF inv, of k v] mem by simp
  qed
  then show "hm_inv (map_put hm k v)" "map_get (map_put hm k v) = (map_get hm)(k \<mapsto> v)"
    "hm_size (map_put hm k v) = hm_size hm + (if map_get hm k = None then 1 else 0)" by simp_all
qed

lemma map_del_ok:
  assumes inv: "hm_inv hm"
  shows "hm_inv (map_del hm k)" "map_get (map_del hm k) = (map_get hm)(k := None)"
    "hm_size (map_del hm k) = hm_size hm - (if map_get hm k = None then 0 else 1)"
proof -
  note c = chain_facts [OF inv]
  have mem: "k \<in> hn_key ` set (hm_hashes hm ! home hm k) \<longleftrightarrow> map_get hm k \<noteq> None"
    using c(3) [of k] map_get_iff [OF inv, of k] by auto
  have "hm_inv (map_del hm k) \<and> map_get (map_del hm k) = (map_get hm)(k := None) \<and>
    hm_size (map_del hm k) = hm_size hm - (if map_get hm k = None then 0 else 1)"
  proof (cases "del_key k (hm_hashes hm ! home hm k)")
    case None
    have "map_get hm k = None" using None mem unfolding del_key_None by blast
    moreover have "map_del hm k = hm" using None by (simp add: map_del_def Let_def home_def)
    ultimately show ?thesis using inv by (simp add: fun_upd_idem)
  next
    case (Some es)
    note r = del_key_Some [OF Some c(1)]
    have eq: "map_del hm k = hm\<lparr>hm_hashes := (hm_hashes hm)[home hm k := es], hm_count := hm_count hm - 1\<rparr>"
      using Some by (simp add: map_del_def Let_def home_def)
    have "length (hm_hashes hm ! home hm k) \<le> hm_size hm"
      using length_concat_upd [OF home_less [OF inv], of k "[]"] unfolding hm_size_def by simp
    then have pos: "0 < hm_size hm" using r by simp
    have cnt: "unat (hm_count hm - 1) = hm_size hm - 1"
      using inv pos unat_sub [of 1 "hm_count hm"] by (simp add: hm_inv_def word_le_nat_alt)
    have p: "distinct (map hn_key es)" "unat (hm_count hm - 1) + length (hm_hashes hm ! home hm k) = hm_size hm + length es"
      "\<And>e. e \<in> set es \<Longrightarrow> hn_hash e = murmur3_32 (hn_key e) (hm_seed hm) \<and> home hm (hn_key e) = home hm k"
      using c(1) [of k] c(2) [of _ k] r cnt pos by (auto simp: distinct_map_filter)
    note u = chain_upd [OF inv p(1) p(3) p(2)]
    have inv': "hm_inv (map_del hm k)" unfolding eq by (rule u(1))
    have "(j, w) \<in> hm_entries (map_del hm k) \<longleftrightarrow> ((map_get hm)(k := None)) j = Some w" for j w
      using u(2) [of j w, folded eq] map_get_iff [OF inv, of j w] c(3) [of j w] r by auto
    then have "map_get (map_del hm k) = (map_get hm)(k := None)" by (intro ext map_get_eqI [OF inv']) simp
    moreover have "hm_size (map_del hm k) = hm_size hm - 1" using inv' cnt by (simp add: hm_inv_def eq)
    moreover have "map_get hm k \<noteq> None" using mem Some del_key_None by (metis option.distinct(1))
    ultimately show ?thesis using inv' by auto
  qed
  then show "hm_inv (map_del hm k)" "map_get (map_del hm k) = (map_get hm)(k := None)"
    "hm_size (map_del hm k) = hm_size hm - (if map_get hm k = None then 0 else 1)" by simp_all
qed

lemma hmp_init_ok:
  assumes "hmp_init lg = Some hm" "lg \<noteq> 0" "3 * unat lg < 2 ^ 32"
  shows "hm_inv hm \<and> map_get hm = Map.empty \<and> hm_size hm = 0"
proof -
  have hm: "hm = \<lparr>hm_hashes = replicate (unat lg) [], hm_mask = lg - 1, hm_seed = 0xa5a5a5a5, hm_count = 0\<rparr>"
    using assms(1) by (auto simp: hmp_init_def split: if_splits)
  have s: "Suc (unat (lg - 1)) = unat lg" using assms(2) by (metis Suc_pred' unat_gt_0 unat_minus_one)
  have "tbl_ok (lg - 1) 0xa5a5a5a5 (replicate (unat lg) [])" using s by (intro empty_tbl) auto
  then have "hm_inv hm" using assms(3) s by (simp add: hm hm_inv_def hm_size_def)
  moreover have "map_get hm = Map.empty"
    by (intro ext map_get_eqI [OF \<open>hm_inv hm\<close>]) (simp add: hm hm_entries_def)
  ultimately show ?thesis by (simp add: hm hm_size_def)
qed

interpretation hm: finite_map hm_inv hm_room map_get hmp_get hmp_put hmp_remove
  by unfold_locales (simp_all add: hmp_refs map_put_ok map_del_ok)

subsection \<open>Properties\<close>

text \<open>C18: On a well-formed table holding fewer than 2^31 keys and for a key of at least one byte, \<^verbatim>\<open>hmp_put\<close> returns and keeps the
  table well formed (also when it doubles the table); \<^verbatim>\<open>hmp_get\<close> of any key of at least one byte then answers exactly as
  before except for the key written, and the number of stored entries grows by one precisely when the key is new. The empty
  key is excluded: comparing it with another empty key reads past both.\<close>

theorem hmp_put_correct:
  assumes "hm_inv hm" "hm_room hm" "k \<noteq> []"
  shows "\<exists>hm'. hmp_put hm k v = Some hm' \<and> hm_inv hm' \<and>
    (\<forall>j. j \<noteq> [] \<longrightarrow> hmp_get hm' j = (if j = k then Some (Some v) else hmp_get hm j)) \<and>
    hm_size hm' = hm_size hm + (if hmp_get hm k = Some None then 1 else 0)"
  using map_put_ok [OF assms(1,2), of k v] assms(3) by (simp add: hmp_refs)

definition hm_sample :: "nat hmap" where
  "hm_sample = the (hmp_put (the (hmp_init 1)) [1] 7)"

lemma hm_sample_ok: "hm_inv hm_sample" "hm_room hm_sample" "map_get hm_sample = [[1] \<mapsto> 7]"
proof -
  have "\<exists>hm :: nat hmap. hmp_init 1 = Some hm" by (simp add: hmp_init_def)
  then obtain hm :: "nat hmap" where h: "hmp_init 1 = Some hm" by blast
  have i: "hm_inv hm \<and> map_get hm = Map.empty \<and> hm_size hm = 0" by (rule hmp_init_ok [OF h]) simp_all
  then have "hm_room hm" by (simp add: hm_room_def)
  with i map_put_ok [of hm "[1]" 7] h show "hm_inv hm_sample" "hm_room hm_sample" "map_get hm_sample = [[1] \<mapsto> 7]"
    by (simp_all add: hm_sample_def hmp_refs hm_room_def)
qed

theorem hmp_put_correct_witness:
  "\<exists>hm'. hmp_put hm_sample [2, 3] 9 = Some hm' \<and> hmp_get hm' [2, 3] = Some (Some 9) \<and> hmp_get hm' [1] = Some (Some 7)"
  using hmp_put_correct [OF hm_sample_ok(1,2), of "[2, 3]" 9] hmp_refs(2) [of "[1]" hm_sample] hm_sample_ok(3) by auto

text \<open>C19: For a key of at least one byte \<^verbatim>\<open>hmp_remove\<close> returns, keeps the table well formed, forgets exactly the key given and, when
  the key was absent, changes no answer; it exactly undoes an \<^verbatim>\<open>hmp_put\<close> of a new key.\<close>

theorem hmp_remove_correct:
  assumes "hm_inv hm" "hm_room hm" "k \<noteq> []"
  shows "(\<exists>hm'. hmp_remove hm k = Some hm' \<and> hm_inv hm' \<and>
      (\<forall>j. j \<noteq> [] \<longrightarrow> hmp_get hm' j = (if j = k then Some None else hmp_get hm j)) \<and>
      hm_size hm' = hm_size hm - (if hmp_get hm k = Some None then 0 else 1)) \<and>
    (hmp_get hm k = Some None \<longrightarrow> (\<exists>hm1 hm2. hmp_put hm k v = Some hm1 \<and> hmp_remove hm1 k = Some hm2 \<and> hm_inv hm2 \<and>
      (\<forall>j. j \<noteq> [] \<longrightarrow> hmp_get hm2 j = hmp_get hm j)))"
proof
  show "\<exists>hm'. hmp_remove hm k = Some hm' \<and> hm_inv hm' \<and>
      (\<forall>j. j \<noteq> [] \<longrightarrow> hmp_get hm' j = (if j = k then Some None else hmp_get hm j)) \<and>
      hm_size hm' = hm_size hm - (if hmp_get hm k = Some None then 0 else 1)"
    using map_del_ok [OF assms(1), of k] assms(3) by (simp add: hmp_refs)
  show "hmp_get hm k = Some None \<longrightarrow> (\<exists>hm1 hm2. hmp_put hm k v = Some hm1 \<and> hmp_remove hm1 k = Some hm2 \<and> hm_inv hm2 \<and>
      (\<forall>j. j \<noteq> [] \<longrightarrow> hmp_get hm2 j = hmp_get hm j))"
    using hm.put_del [OF assms, of v] assms(3) by (auto simp: hmp_refs(2))
qed

theorem hmp_remove_correct_witness:
  "(\<exists>hm'. hmp_remove hm_sample [1] = Some hm' \<and> hmp_get hm' [1] = Some None) \<and>
   (\<exists>hm1 hm2. hmp_put hm_sample [2] 5 = Some hm1 \<and> hmp_remove hm1 [2] = Some hm2 \<and> hmp_get hm2 [1] = Some (Some 7))"
proof
  show "\<exists>hm'. hmp_remove hm_sample [1] = Some hm' \<and> hmp_get hm' [1] = Some None"
    using hmp_remove_correct [OF hm_sample_ok(1,2), of "[1]" 0] by auto
  have "hmp_get hm_sample [2] = Some None" "hmp_get hm_sample [1] = Some (Some 7)" using hm_sample_ok(3) by (simp_all add: hmp_refs(2))
  then show "\<exists>hm1 hm2. hmp_put hm_sample [2] 5 = Some hm1 \<and> hmp_remove hm1 [2] = Some hm2 \<and> hmp_get hm2 [1] = Some (Some 7)"
    using hmp_remove_correct [OF hm_sample_ok(1,2), of "[2]" 5] by fastforce
qed

lemma murmur_block_restart: "length b = 4 \<Longrightarrow> murmur_blocks (b @ r) s = murmur_blocks (b @ r) s'"
  by (cases "(b @ r, s)" rule: murmur_blocks.cases) (auto simp: Let_def dest: arg_cong [of _ _ length])

lemma murmur_blocks_last:
  "4 dvd length p \<Longrightarrow> length b = 4 \<Longrightarrow> murmur_blocks (p @ b @ r) s = murmur_blocks (b @ r) s'"
proof (induction "length p div 4" arbitrary: p s)
  case 0
  then show ?case using murmur_block_restart by (auto simp: dvd_div_eq_0_iff)
next
  case (Suc n)
  then have "4 \<le> length p" by (cases "length p < 4") auto
  then obtain a1 a2 a3 a4 p' where p: "p = a1 # a2 # a3 # a4 # p'"
    by (auto simp: numeral_eq_Suc Suc_le_length_iff)
  have "4 dvd length p'" using Suc.prems(1) unfolding p by simp presburger
  moreover from this have "n = length p' div 4" using Suc.hyps(2) unfolding p by simp
  ultimately show ?case using Suc.hyps(1) [of p'] Suc.prems(2) by (simp add: p Let_def)
qed

text \<open>Line 54 rotates the scrambled block instead of the running hash, so the block loop keeps
  nothing of what it read before: the hash of a key of more than four bytes depends only on its
  length and on its last full block and tail. Two keys of the same length that differ only in
  earlier blocks collide, whatever the seeds.\<close>

theorem murmur3_forgets_blocks:
  assumes "length p = length q" "4 dvd length p" "length b = 4"
  shows "murmur3_32 (p @ b @ r) seed = murmur3_32 (q @ b @ r) seed'"
  using murmur_blocks_last [of p b r seed 0] murmur_blocks_last [of q b r seed' 0] assms
  by (simp add: murmur3_32_def)

theorem murmur3_forgets_blocks_witness:
  "murmur3_32 ([1, 2, 3, 4] @ [9, 9, 9, 9] @ []) 0 = murmur3_32 ([5, 6, 7, 8] @ [9, 9, 9, 9] @ []) 1"
  by (rule murmur3_forgets_blocks) (simp_all, presburger)

end
