(* ===== verification/PageShare.thy ===== *)
theory PageShare
  imports HMap
begin

section \<open>Reference counts of shared pages (\<^verbatim>\<open>src/mem/pages.c\<close>)\<close>

text \<open>
  \<^verbatim>\<open>page_shared\<close> counts, per physical page, how many address spaces of a sharing group map it.
  The counts live in a hash map keyed by the four bytes of the page address; the laws of the
  hash map are used through its interface. An entry is owned by the table alone, so the update
  of a count through the entry pointer is a \<open>hmp_put\<close> on a key that is present.
\<close>

unbundle bit_operations_syntax

subsection \<open>Model\<close>

record page_sharing_entry =
  pse_page :: size_t
  pse_count :: int

record page_sharing =
  psh_lock :: bool
  psh_map :: "page_sharing_entry hmap"
  psh_usage :: int

text \<open>The bytes of \<^verbatim>\<open>(char *)&page\<close>.\<close>

definition page_key :: "size_t \<Rightarrow> u8 list" where
  "page_key page = [ucast page, ucast (drop_bit 8 page), ucast (drop_bit 16 page), ucast (drop_bit 24 page)]"

text \<open>\<open>None\<close> is a failed assertion, or a spin on a lock that is already held. The count of a page is taken to stay below \<^verbatim>\<open>INT_MAX\<close>.\<close>

definition page_shared :: "page_sharing option \<Rightarrow> size_t \<Rightarrow> int \<Rightarrow> (page_sharing option \<times> bool) option" where
  "page_shared share page cnt =
     (case share of
        None \<Rightarrow> if cnt = 0 then Some (None, True) else None
      | Some sh \<Rightarrow>
          if psh_lock sh then None else
          do {
            e \<leftarrow> hmp_get (psh_map sh) (page_key page);
            case e of
              None \<Rightarrow>
                if cnt = 0 then Some (Some sh, True)
                else if cnt > 0 then do {
                  hm \<leftarrow> hmp_put (psh_map sh) (page_key page) \<lparr>pse_page = page, pse_count = cnt\<rparr>;
                  Some (Some (sh\<lparr>psh_map := hm\<rparr>), False) }
                else None
            | Some ps \<Rightarrow>
                let ps = ps\<lparr>pse_count := pse_count ps + cnt\<rparr> in
                if pse_count ps \<le> 0 then do {
                  hm \<leftarrow> hmp_remove (psh_map sh) (page_key page);
                  Some (Some (sh\<lparr>psh_map := hm\<rparr>), True) }
                else do {
                  hm \<leftarrow> hmp_put (psh_map sh) (page_key page) ps;
                  Some (Some (sh\<lparr>psh_map := hm\<rparr>), False) } })"

subsection \<open>The abstract reference count\<close>

definition refs :: "page_sharing \<Rightarrow> size_t \<Rightarrow> int" where
  "refs sh page = (case map_get (psh_map sh) (page_key page) of None \<Rightarrow> 0 | Some e \<Rightarrow> pse_count e)"

definition share_inv :: "page_sharing \<Rightarrow> bool" where
  "share_inv sh \<longleftrightarrow> \<not> psh_lock sh \<and> hm_inv (psh_map sh) \<and>
     (\<forall>k e. map_get (psh_map sh) k = Some e \<longrightarrow> pse_count e > 0 \<and> k = page_key (pse_page e))"

lemma page_key_inject: "page_key p = page_key q \<longleftrightarrow> p = q"
proof
  assume "page_key p = page_key q"
  then have u: "ucast (drop_bit (8 * j) p) = (ucast (drop_bit (8 * j) q) :: u8)" if "j < 4" for j
    using that by (auto simp: page_key_def less_Suc_eq numeral_eq_Suc)
  show "p = q"
  proof (rule bit_word_eqI)
    fix n assume "n < LENGTH(32)"
    then have "n div 8 < 4" by simp
    from arg_cong [OF u [OF this], of "\<lambda>w. bit w (n mod 8)"] show "bit p n = bit q n"
      by (simp add: bit_simps)
  qed
qed simp

lemma page_key_nonempty [simp]: "page_key p \<noteq> []"
  by (simp add: page_key_def)

lemma refs_pos: "share_inv sh \<Longrightarrow> refs sh p > 0 \<longleftrightarrow> map_get (psh_map sh) (page_key p) \<noteq> None"
  by (auto simp: refs_def share_inv_def split: option.splits)

lemma share_upd:
  assumes "share_inv sh" "hm_inv m" "map_get m = (map_get (psh_map sh))(page_key p := r)"
    "case r of None \<Rightarrow> True | Some e \<Rightarrow> pse_count e > 0 \<and> pse_page e = p"
  shows "share_inv (sh\<lparr>psh_map := m\<rparr>)"
    "refs (sh\<lparr>psh_map := m\<rparr>) = (refs sh)(p := case r of None \<Rightarrow> 0 | Some e \<Rightarrow> pse_count e)"
  using assms by (auto simp: share_inv_def refs_def page_key_inject fun_eq_iff split: option.splits if_splits)

subsection \<open>Properties\<close>

text \<open>C31: On a well-formed sharing table with room for one more page, \<^verbatim>\<open>page_shared\<close> returns for
  every adjustment that does not make a missing count negative. It sets the count of that page,
  clipped at zero, and of no other, releases the lock, keeps the table well formed, and answers
  \<^verbatim>\<open>true\<close> exactly when the page is not (or no longer) counted, apart from a first count.\<close>

theorem page_shared_counts:
  assumes "share_inv sh" "hm_room (psh_map sh)" "0 \<le> n \<or> 0 < refs sh page"
  shows "\<exists>sh' r. page_shared (Some sh) page n = Some (Some sh', r) \<and> share_inv sh' \<and>
    refs sh' = (refs sh)(page := max 0 (refs sh page + n)) \<and> r = (refs sh' page = 0)"
proof -
  have inv: "hm_inv (psh_map sh)" "\<not> psh_lock sh" using assms(1) by (simp_all add: share_inv_def)
  note key = page_key_nonempty [of page]
  have get: "hmp_get (psh_map sh) (page_key page) = Some (map_get (psh_map sh) (page_key page))" by (rule hm.get_look [OF inv(1) key])
  note put = hm.put_look [OF inv(1) assms(2) key]
  show ?thesis
  proof (cases "map_get (psh_map sh) (page_key page)")
    case None
    then have z: "refs sh page = 0" by (simp add: refs_def)
    show ?thesis
    proof (cases "n = 0")
      case True
      then show ?thesis using None inv assms(1) z by (simp add: page_shared_def get fun_upd_idem)
    next
      case False
      then have "n > 0" using assms(3) z by simp
      moreover obtain m where "hmp_put (psh_map sh) (page_key page) \<lparr>pse_page = page, pse_count = n\<rparr> = Some m" "hm_inv m"
          "map_get m = (map_get (psh_map sh))(page_key page \<mapsto> \<lparr>pse_page = page, pse_count = n\<rparr>)" using put by blast
      ultimately show ?thesis using None inv(2) z share_upd [OF assms(1), of m page] by (simp add: page_shared_def get)
    qed
  next
    case (Some e)
    then have "pse_count e > 0 \<and> page_key page = page_key (pse_page e)" using assms(1) unfolding share_inv_def by blast
    then have e: "refs sh page = pse_count e" "pse_page e = page" "pse_count e > 0"
      using Some by (simp_all add: refs_def page_key_inject)
    show ?thesis
    proof (cases "pse_count e + n \<le> 0")
      case True
      moreover obtain m where "hmp_remove (psh_map sh) (page_key page) = Some m" "hm_inv m"
          "map_get m = (map_get (psh_map sh))(page_key page := None)" using hm.del_look [OF inv(1) key] by blast
      ultimately show ?thesis using Some inv(2) e share_upd [OF assms(1), of m page] by (simp add: page_shared_def get Let_def)
    next
      case False
      moreover obtain m where "hmp_put (psh_map sh) (page_key page) (e\<lparr>pse_count := pse_count e + n\<rparr>) = Some m" "hm_inv m"
          "map_get m = (map_get (psh_map sh))(page_key page \<mapsto> e\<lparr>pse_count := pse_count e + n\<rparr>)" using put by blast
      ultimately show ?thesis using Some inv(2) e share_upd [OF assms(1), of m page] by (simp add: page_shared_def get Let_def)
    qed
  qed
qed

definition share_sample :: page_sharing where
  "share_sample = \<lparr>psh_lock = False, psh_map = the (hmp_init 16), psh_usage = 1\<rparr>"

lemma share_sample_ok: "share_inv share_sample" "hm_room (psh_map share_sample)" "refs share_sample p = 0"
proof -
  have "\<exists>m :: page_sharing_entry hmap. hmp_init 16 = Some m" by (simp add: hmp_init_def)
  then obtain m :: "page_sharing_entry hmap" where m: "hmp_init 16 = Some m" by blast
  have "hm_inv m \<and> map_get m = Map.empty \<and> hm_size m = 0" by (rule hmp_init_ok [OF m]) simp_all
  then show "share_inv share_sample" "hm_room (psh_map share_sample)" "refs share_sample p = 0"
    using m by (simp_all add: share_sample_def share_inv_def hm_room_def refs_def)
qed

theorem page_shared_counts_witness:
  "\<exists>sh'. page_shared (Some share_sample) 0x1000 2 = Some (Some sh', False) \<and> refs sh' 0x1000 = 2 \<and> refs sh' 0x2000 = 0"
  using page_shared_counts [OF share_sample_ok(1,2), of 2 "0x1000"] share_sample_ok(3) by auto

end
