(* ===== verification/Strings.thy ===== *)
theory Strings
  imports Prelude
begin

section \<open>Memory blocks and C strings (\<^verbatim>\<open>src/stdc/string.c\<close>, \<^verbatim>\<open>include/ctype.h\<close>)\<close>

text \<open>
  The routines work on one byte memory shared by all their arguments, so that overlapping
  arguments behave as in the code. An address is a natural number, \<open>0\<close> is \<^verbatim>\<open>NULL\<close>; a
  length is a \<open>size_t\<close> and wraps when the code decrements it at zero. A loop that waits for a
  byte of memory may run forever and is a partial function, \<open>None\<close> meaning that it does.
  The routines that are only declared (\<^verbatim>\<open>strcspn\<close>, \<^verbatim>\<open>strstr\<close>, \<dots>) have no model. A
  routine that allocates takes the address that \<^verbatim>\<open>kalloc\<close> returned as its first argument.
\<close>

unbundle bit_operations_syntax

subsection \<open>Characters\<close>

text \<open>\<^verbatim>\<open>char\<close> is signed; as an argument of a \<^verbatim>\<open>ctype.h\<close> function it is sign-extended.\<close>

definition isalpha :: "u32 \<Rightarrow> bool" where
  "isalpha a \<longleftrightarrow> (a OR 32) - 97 < 26"

definition isdigit :: "u32 \<Rightarrow> bool" where
  "isdigit a \<longleftrightarrow> a - 48 < 10"

definition islower :: "u32 \<Rightarrow> bool" where
  "islower a \<longleftrightarrow> a - 97 < 26"

definition isupper :: "u32 \<Rightarrow> bool" where
  "isupper a \<longleftrightarrow> a - 65 < 26"

definition isprint :: "u32 \<Rightarrow> bool" where
  "isprint a \<longleftrightarrow> a - 0x20 < 0x5f"

definition isgraph :: "u32 \<Rightarrow> bool" where
  "isgraph a \<longleftrightarrow> a - 0x21 < 0x5e"

definition isspace :: "u32 \<Rightarrow> bool" where
  "isspace a \<longleftrightarrow> a = 32 \<or> a - 9 < 5"

definition isalnum :: "u32 \<Rightarrow> bool" where
  "isalnum a \<longleftrightarrow> (a OR 32) - 97 < 26 \<or> a - 48 < 10"

definition tolower :: "u32 \<Rightarrow> u32" where
  "tolower a = (if a - 65 < 26 then a OR 0x20 else a)"

definition toupper :: "u32 \<Rightarrow> u32" where
  "toupper a = (if a - 97 < 26 then a AND NOT 0x20 else a)"

abbreviation ext :: "u8 \<Rightarrow> u32" where
  "ext c \<equiv> scast c"

subsection \<open>Blocks\<close>

lemma unat_pred2: "(n :: size_t) \<noteq> 1 \<Longrightarrow> unat (n - 2) < unat (n - 1)"
  using unat_minus_one [of "n - 1"] by (simp add: unat_gt_0 diff_diff_eq2)

function memchr :: "bytes \<Rightarrow> nat \<Rightarrow> u32 \<Rightarrow> size_t \<Rightarrow> nat" where
  "memchr m str c len =
     (if len > 0 \<and> m str \<noteq> ucast c then memchr m (str + 1) c (len - 1) else if len \<noteq> 0 then str else 0)"
  by pat_completeness auto
termination by (relation "measure (\<lambda>(m, str, c, len). unat len)") (auto simp: unat_minus_one unat_gt_0)

text \<open>The decrement comes before the test, so a length of zero wraps to the largest one.\<close>

function memcmp :: "bytes \<Rightarrow> nat \<Rightarrow> nat \<Rightarrow> size_t \<Rightarrow> int" where
  "memcmp m s1 s2 len =
     (if len - 1 \<noteq> 0 \<and> m s1 = m s2 then memcmp m (s1 + 1) (s2 + 1) (len - 1) else sint (m s1) - sint (m s2))"
  by pat_completeness auto
termination by (relation "measure (\<lambda>(m, s1, s2, len). unat (len - 1))") (auto simp: unat_pred2)

function memcpy :: "bytes \<Rightarrow> nat \<Rightarrow> nat \<Rightarrow> size_t \<Rightarrow> bytes" where
  "memcpy m dest src len = (if len > 0 then memcpy (m(dest := m src)) (dest + 1) (src + 1) (len - 1) else m)"
  by pat_completeness auto
termination by (relation "measure (\<lambda>(m, dest, src, len). unat len)") (auto simp: unat_minus_one unat_gt_0)

function copy_down :: "bytes \<Rightarrow> nat \<Rightarrow> nat \<Rightarrow> size_t \<Rightarrow> bytes" where
  "copy_down m dest src len = (if len > 0 then copy_down (m(dest := m src)) (dest - 1) (src - 1) (len - 1) else m)"
  by pat_completeness auto
termination by (relation "measure (\<lambda>(m, dest, src, len). unat len)") (auto simp: unat_minus_one unat_gt_0)

definition memmove :: "bytes \<Rightarrow> nat \<Rightarrow> nat \<Rightarrow> size_t \<Rightarrow> bytes" where
  "memmove m dest src len =
     (if dest \<ge> src \<or> dest \<ge> src + unat len then memcpy m dest src len
      else copy_down m (dest + unat len - 1) (src + unat len - 1) len)"

function memset :: "bytes \<Rightarrow> nat \<Rightarrow> u32 \<Rightarrow> size_t \<Rightarrow> bytes" where
  "memset m buffer c num = (if num \<noteq> 0 then memset (m(buffer := ucast c)) (buffer + 1) c (num - 1) else m)"
  by pat_completeness auto
termination by (relation "measure (\<lambda>(m, buffer, c, num). unat num)") (auto simp: unat_minus_one unat_gt_0)

definition memdup :: "nat \<Rightarrow> bytes \<Rightarrow> nat \<Rightarrow> size_t \<Rightarrow> bytes \<times> nat" where
  "memdup ptr m buf lg = (memcpy m ptr buf lg, ptr)"

declare memchr.simps [simp del] memcmp.simps [simp del] memcpy.simps [simp del]
  copy_down.simps [simp del] memset.simps [simp del]

subsection \<open>Strings\<close>

partial_function (option) str_end :: "bytes \<Rightarrow> nat \<Rightarrow> nat option" where
  "str_end m p = (if m p \<noteq> 0 then str_end m (p + 1) else Some p)"

partial_function (option) copy_str :: "bytes \<Rightarrow> nat \<Rightarrow> nat \<Rightarrow> bytes option" where
  "copy_str m ptr1 ptr2 =
     (let m' = m(ptr1 := m ptr2) in if m' ptr1 \<noteq> 0 then copy_str m' (ptr1 + 1) (ptr2 + 1) else Some m')"

definition strlen :: "bytes \<Rightarrow> nat \<Rightarrow> size_t option" where
  "strlen m str = do { e \<leftarrow> str_end m str; Some (of_nat (e - str)) }"

definition strcat :: "bytes \<Rightarrow> nat \<Rightarrow> nat \<Rightarrow> bytes option" where
  "strcat m dest src = do { e \<leftarrow> str_end m dest; copy_str m e src }"

definition strcpy :: "bytes \<Rightarrow> nat \<Rightarrow> nat \<Rightarrow> bytes option" where
  "strcpy m dest src = copy_str m dest src"

partial_function (option) strchr :: "bytes \<Rightarrow> nat \<Rightarrow> u32 \<Rightarrow> nat option" where
  "strchr m str c =
     (if m str \<noteq> 0 then if m str = ucast c then Some str else strchr m (str + 1) c else Some 0)"

partial_function (option) strcmp :: "bytes \<Rightarrow> nat \<Rightarrow> nat \<Rightarrow> int option" where
  "strcmp m s1 s2 =
     (if m s1 \<noteq> 0 \<and> m s1 = m s2 then strcmp m (s1 + 1) (s2 + 1) else Some (sint (m s1) - sint (m s2)))"

partial_function (option) stricmp :: "bytes \<Rightarrow> nat \<Rightarrow> nat \<Rightarrow> int option" where
  "stricmp m s1 s2 =
     (if m s1 \<noteq> 0 \<and> tolower (ext (m s1)) = tolower (ext (m s2)) then stricmp m (s1 + 1) (s2 + 1)
      else Some (sint (m s1) - sint (m s2)))"

function strnlen_end :: "bytes \<Rightarrow> nat \<Rightarrow> size_t \<Rightarrow> nat" where
  "strnlen_end m e maxlen =
     (if m e \<noteq> 0 \<and> maxlen - 1 \<noteq> 0 then strnlen_end m (e + 1) (maxlen - 1) else e)"
  by pat_completeness auto
termination by (relation "measure (\<lambda>(m, e, maxlen). unat (maxlen - 1))") (auto simp: unat_pred2)

definition strnlen :: "bytes \<Rightarrow> nat \<Rightarrow> size_t \<Rightarrow> size_t" where
  "strnlen m str maxlen =
     (let e = strnlen_end m str maxlen; e = (if m e \<noteq> 0 then e + 1 else e) in of_nat (e - str))"

function ncopy :: "bytes \<Rightarrow> nat \<Rightarrow> nat \<Rightarrow> size_t \<Rightarrow> bytes" where
  "ncopy m ptr1 ptr2 maxlen =
     (if maxlen > 0 then
        let m' = m(ptr1 := m ptr2) in if m' ptr1 \<noteq> 0 then ncopy m' (ptr1 + 1) (ptr2 + 1) (maxlen - 1) else m'
      else m)"
  by pat_completeness auto
termination by (relation "measure (\<lambda>(m, ptr1, ptr2, maxlen). unat maxlen)") (auto simp: unat_minus_one unat_gt_0)

definition strncat :: "bytes \<Rightarrow> nat \<Rightarrow> nat \<Rightarrow> size_t \<Rightarrow> bytes option" where
  "strncat m dest src maxlen = do { e \<leftarrow> str_end m dest; Some (ncopy m e src maxlen) }"

definition strncpy :: "bytes \<Rightarrow> nat \<Rightarrow> nat \<Rightarrow> size_t \<Rightarrow> bytes" where
  "strncpy m dest src maxlen = ncopy m dest src maxlen"

function strncmp :: "bytes \<Rightarrow> nat \<Rightarrow> nat \<Rightarrow> size_t \<Rightarrow> int" where
  "strncmp m s1 s2 maxlen =
     (if maxlen - 1 \<noteq> 0 \<and> m s1 \<noteq> 0 \<and> m s1 = m s2 then strncmp m (s1 + 1) (s2 + 1) (maxlen - 1)
      else sint (m s1) - sint (m s2))"
  by pat_completeness auto
termination by (relation "measure (\<lambda>(m, s1, s2, maxlen). unat (maxlen - 1))") (auto simp: unat_pred2)

function strnicmp :: "bytes \<Rightarrow> nat \<Rightarrow> nat \<Rightarrow> size_t \<Rightarrow> int" where
  "strnicmp m s1 s2 maxlen =
     (if maxlen - 1 \<noteq> 0 \<and> m s1 \<noteq> 0 \<and> tolower (ext (m s1)) = tolower (ext (m s2))
      then strnicmp m (s1 + 1) (s2 + 1) (maxlen - 1) else sint (m s1) - sint (m s2))"
  by pat_completeness auto
termination by (relation "measure (\<lambda>(m, s1, s2, maxlen). unat (maxlen - 1))") (auto simp: unat_pred2)

text \<open>The loop counts down from the last character; \<open>n\<close> is \<^verbatim>\<open>lg + 1\<close>.\<close>

fun strrchr_loop :: "bytes \<Rightarrow> nat \<Rightarrow> u32 \<Rightarrow> nat \<Rightarrow> nat" where
  "strrchr_loop m str c 0 = 0"
| "strrchr_loop m str c (Suc lg) = (if m (str + lg) = ucast c then str + lg else strrchr_loop m str c lg)"

definition strrchr :: "bytes \<Rightarrow> nat \<Rightarrow> u32 \<Rightarrow> nat option" where
  "strrchr m str c = do { lg \<leftarrow> strlen m str; Some (strrchr_loop m str c (unat lg)) }"

definition strdup :: "nat \<Rightarrow> bytes \<Rightarrow> nat \<Rightarrow> (bytes \<times> nat) option" where
  "strdup ptr m str =
     do { lg \<leftarrow> strlen m str;
          let m = memcpy m ptr str lg;
          Some (m(ptr + unat lg := 0), ptr) }"

definition strndup :: "nat \<Rightarrow> bytes \<Rightarrow> nat \<Rightarrow> size_t \<Rightarrow> bytes \<times> nat" where
  "strndup ptr m str maxlen =
     (let lg = strnlen m str maxlen; m = memcpy m ptr str lg in (m(ptr + unat lg := 0), ptr))"

partial_function (option) strlwr :: "bytes \<Rightarrow> nat \<Rightarrow> bytes option" where
  "strlwr m ptr = (if m ptr \<noteq> 0 then strlwr (m(ptr := ucast (tolower (ext (m ptr))))) (ptr + 1) else Some m)"

partial_function (option) strupr :: "bytes \<Rightarrow> nat \<Rightarrow> bytes option" where
  "strupr m ptr = (if m ptr \<noteq> 0 then strupr (m(ptr := ucast (toupper (ext (m ptr))))) (ptr + 1) else Some m)"

partial_function (option) strset :: "bytes \<Rightarrow> nat \<Rightarrow> u32 \<Rightarrow> bytes option" where
  "strset m str c = (if m str \<noteq> 0 then strset (m(str := ucast c)) (str + 1) c else Some m)"

function strnset :: "bytes \<Rightarrow> nat \<Rightarrow> u32 \<Rightarrow> size_t \<Rightarrow> bytes" where
  "strnset m str c maxlen =
     (if m str \<noteq> 0 \<and> maxlen > 0 then strnset (m(str := ucast c)) (str + 1) c (maxlen - 1) else m)"
  by pat_completeness auto
termination by (relation "measure (\<lambda>(m, str, c, maxlen). unat maxlen)") (auto simp: unat_minus_one unat_gt_0)

declare strnlen_end.simps [simp del] ncopy.simps [simp del] strncmp.simps [simp del]
  strnicmp.simps [simp del] strnset.simps [simp del]

subsection \<open>Tokens\<close>

text \<open>The two scans of the delimiter string; the second one also stops at its final NUL.\<close>

partial_function (option) is_delim :: "bytes \<Rightarrow> nat \<Rightarrow> u8 \<Rightarrow> bool option" where
  "is_delim m spanp c =
     (if m spanp = 0 then Some False else if c = m spanp then Some True else is_delim m (spanp + 1) c)"

partial_function (option) ends_token :: "bytes \<Rightarrow> nat \<Rightarrow> u8 \<Rightarrow> bool option" where
  "ends_token m spanp c =
     (if m spanp = c then Some True else if m spanp = 0 then Some False else ends_token m (spanp + 1) c)"

text \<open>The address of the first byte that is no delimiter. \<^verbatim>\<open>skip_leading_delim\<close> is the constant
  \<open>1\<close>, so the branch that returns an empty token is dead.\<close>

partial_function (option) skip_delims :: "bytes \<Rightarrow> nat \<Rightarrow> nat \<Rightarrow> nat option" where
  "skip_delims m delim s = do { d \<leftarrow> is_delim m delim (m s); if d then skip_delims m delim (s + 1) else Some s }"

partial_function (option) token_end :: "bytes \<Rightarrow> nat \<Rightarrow> nat \<Rightarrow> nat option" where
  "token_end m delim s = do { d \<leftarrow> ends_token m delim (m s); if d then Some s else token_end m delim (s + 1) }"

text \<open>The result is the memory, the new \<^verbatim>\<open>*lasts\<close> and the token (\<open>0\<close> is \<^verbatim>\<open>NULL\<close> for both).\<close>

definition strtok_r :: "bytes \<Rightarrow> nat \<Rightarrow> nat \<Rightarrow> nat \<Rightarrow> (bytes \<times> nat \<times> nat) option" where
  "strtok_r m s delim lasts =
     (let s = (if s = 0 then lasts else s) in
      if s = 0 then Some (m, lasts, 0)
      else do {
        tok \<leftarrow> skip_delims m delim s;
        if m tok = 0 then Some (m, 0, 0)
        else do {
          e \<leftarrow> token_end m delim (tok + 1);
          if m e = 0 then Some (m, 0, tok) else Some (m(e := 0), e + 1, tok) } })"

definition strtok :: "bytes \<Rightarrow> nat \<Rightarrow> nat \<Rightarrow> nat \<Rightarrow> (bytes \<times> nat \<times> nat) option" where
  "strtok m s1 s2 reent = strtok_r m s1 s2 reent"

subsection \<open>Copying blocks\<close>

text \<open>A memory with a run of bytes stored at an address.\<close>

definition put_bytes :: "bytes \<Rightarrow> nat \<Rightarrow> u8 list \<Rightarrow> bytes" where
  "put_bytes m a bs = (\<lambda>x. if a \<le> x \<and> x < a + length bs then bs ! (x - a) else m x)"

definition get_bytes :: "bytes \<Rightarrow> nat \<Rightarrow> nat \<Rightarrow> u8 list" where
  "get_bytes m a n = map (\<lambda>i. m (a + i)) [0..<n]"

lemma put_bytes_Nil [simp]: "put_bytes m a [] = m"
  by (rule ext) (auto simp: put_bytes_def)

lemma put_bytes_Cons: "put_bytes m a (b # bs) = put_bytes (m(a := b)) (Suc a) bs"
proof (rule ext)
  fix x
  show "put_bytes m a (b # bs) x = put_bytes (m(a := b)) (Suc a) bs x"
  proof (cases "a < x")
    case True
    then obtain k where "x = Suc (a + k)" using less_imp_Suc_add by blast
    then show ?thesis by (simp add: put_bytes_def)
  qed (auto simp: put_bytes_def)
qed

lemma length_get_bytes [simp]: "length (get_bytes m a n) = n"
  by (simp add: get_bytes_def)

lemma get_bytes_nth [simp]: "i < n \<Longrightarrow> get_bytes m a n ! i = m (a + i)"
  by (simp add: get_bytes_def)

text \<open>The forward copy, at every byte: when the destination starts \<open>k\<close> bytes inside the source,
  the first \<open>k\<close> bytes of the source are repeated.\<close>

definition forward_copy :: "bytes \<Rightarrow> nat \<Rightarrow> nat \<Rightarrow> nat \<Rightarrow> bytes" where
  "forward_copy m d s n =
     (\<lambda>x. if d \<le> x \<and> x < d + n then (if s < d then m (s + (x - d) mod (d - s)) else m (s + (x - d))) else m x)"

lemma forward_copy_Suc:
  "forward_copy (m(d := m s)) (d + 1) (s + 1) n = forward_copy m d s (Suc n)"
proof (rule ext)
  fix x
  show "forward_copy (m(d := m s)) (d + 1) (s + 1) n x = forward_copy m d s (Suc n) x"
  proof (cases "d < x \<and> x < d + Suc n")
    case True
    then have x: "x = d + Suc (x - d - 1)" by simp
    define j where "j = x - d - 1"
    have x: "x = d + Suc j" using x by (simp add: j_def)
    show ?thesis
    proof (cases "s < d")
      case sd: True
      define r where "r = j mod (d - s)"
      have r: "r < d - s" "Suc j mod (d - s) = (if Suc r = d - s then 0 else Suc r)"
        using sd by (simp_all add: r_def mod_Suc)
      have "forward_copy (m(d := m s)) (d + 1) (s + 1) n x = (m(d := m s)) (Suc s + r)"
        using True sd by (simp add: forward_copy_def x r_def)
      also have "\<dots> = m (s + Suc j mod (d - s))" unfolding r(2) using r(1) by auto
      also have "\<dots> = forward_copy m d s (Suc n) x" using True sd by (simp add: forward_copy_def x)
      finally show ?thesis .
    next
      case False
      then show ?thesis using True x by (simp add: forward_copy_def)
    qed
  next
    case False
    then consider "x < d" | "x = d" | "d + Suc n \<le> x" by linarith
    then show ?thesis by cases (simp_all add: forward_copy_def)
  qed
qed

lemma memcpy_forward: "memcpy m d s len = forward_copy m d s (unat len)"
proof (induction "unat len" arbitrary: m d s len)
  case 0
  then show ?case by (auto simp: memcpy.simps [of m d s 0] unat_eq_0 forward_copy_def fun_eq_iff)
next
  case (Suc n)
  then have pos: "len > 0" by (metis nat.distinct(1) unat_eq_zero word_gt_0)
  then have n: "n = unat (len - 1)" using Suc.hyps(2) by (simp add: unat_minus_one word_gt_0)
  show ?case using Suc.hyps(1) [OF n] pos Suc.hyps(2) n forward_copy_Suc
    by (simp add: memcpy.simps [of m d s len])
qed

lemma forward_copy_exact: "d \<le> s \<or> s + n \<le> d \<Longrightarrow> forward_copy m d s n = put_bytes m d (get_bytes m s n)"
  by (auto simp: forward_copy_def put_bytes_def fun_eq_iff)

lemma get_bytes_upd: "x < a \<or> a + n \<le> x \<Longrightarrow> get_bytes (m(x := v)) a n = get_bytes m a n"
  by (auto simp: get_bytes_def)

lemma put_bytes_snoc: "put_bytes (m(a + length bs := b)) a bs = put_bytes m a (bs @ [b])"
  by (auto simp: put_bytes_def fun_eq_iff nth_append less_Suc_eq)

lemma copy_down_disjoint:
  "d + unat len \<le> s \<Longrightarrow> copy_down m (d + unat len - 1) (s + unat len - 1) len = put_bytes m d (get_bytes m s (unat len))"
proof (induction "unat len" arbitrary: m len)
  case 0
  then show ?case by (simp add: copy_down.simps [of m _ _ 0] unat_eq_0 get_bytes_def)
next
  case (Suc n)
  then have pos: "len > 0" by (metis nat.distinct(1) unat_eq_zero word_gt_0)
  then have n: "n = unat (len - 1)" using Suc.hyps(2) by (simp add: unat_minus_one word_gt_0)
  let ?m = "m(d + n := m (s + n))"
  have "copy_down m (d + unat len - 1) (s + unat len - 1) len = copy_down ?m (d + n - 1) (s + n - 1) (len - 1)"
    using pos Suc.hyps(2) by (simp add: copy_down.simps [of m _ _ len] flip: Suc.hyps(2))
  also have "\<dots> = put_bytes ?m d (get_bytes ?m s n)" using Suc.hyps(1) [OF n, of ?m] Suc.prems Suc.hyps(2) n by simp
  also have "\<dots> = put_bytes m d (get_bytes m s n @ [m (s + n)])"
    using put_bytes_snoc [of m d "get_bytes m s n"] Suc.prems Suc.hyps(2) by (simp add: get_bytes_upd)
  finally show ?case by (simp add: get_bytes_def flip: Suc.hyps(2))
qed

lemma memset_bytes: "memset m a c len = put_bytes m a (replicate (unat len) (ucast c))"
proof (induction "unat len" arbitrary: m a len)
  case 0
  then show ?case by (simp add: memset.simps [of m a c 0] unat_eq_0)
next
  case (Suc n)
  then have pos: "len \<noteq> 0" by auto
  then have n: "n = unat (len - 1)" using Suc.hyps(2) by (simp add: unat_minus_one)
  show ?case using Suc.hyps(1) [OF n] pos Suc.hyps(2) n
    by (simp add: memset.simps [of m a c len] put_bytes_Cons flip: Suc.hyps(2))
qed

subsection \<open>C strings in memory\<close>

fun str_at :: "bytes \<Rightarrow> nat \<Rightarrow> u8 list \<Rightarrow> bool" where
  "str_at m p [] \<longleftrightarrow> m p = 0"
| "str_at m p (c # cs) \<longleftrightarrow> c \<noteq> 0 \<and> m p = c \<and> str_at m (Suc p) cs"

lemma str_at_iff: "str_at m p s \<longleftrightarrow> get_bytes m p (Suc (length s)) = s @ [0] \<and> 0 \<notin> set s"
proof (induction s arbitrary: p)
  case (Cons c s)
  have "get_bytes m p (Suc (length (c # s))) = m p # get_bytes m (Suc p) (Suc (length s))"
    by (simp add: get_bytes_def upt_conv_Cons map_Suc_upt [symmetric] del: upt_Suc)
  then show ?case using Cons [of "Suc p"] by auto
qed (simp add: get_bytes_def)

lemma str_at_frame:
  "str_at m p s \<Longrightarrow> (\<And>x. p \<le> x \<Longrightarrow> x \<le> p + length s \<Longrightarrow> m' x = m x) \<Longrightarrow> str_at m' p s"
proof (induction s arbitrary: p)
  case (Cons c s)
  have "str_at m' (Suc p) s" by (rule Cons.IH) (use Cons.prems in auto)
  then show ?case using Cons.prems by simp
qed simp

lemma str_at_inject: "str_at m p s \<Longrightarrow> str_at m p t \<Longrightarrow> s = t"
proof (induction s arbitrary: p t)
  case Nil
  then show ?case by (cases t) auto
next
  case (Cons c s)
  then show ?case by (cases t) auto
qed

lemma str_end: "str_at m p s \<Longrightarrow> str_end m p = Some (p + length s)"
  by (induction s arbitrary: p) (simp_all add: str_end.simps)

lemma strlen_at: "str_at m p s \<Longrightarrow> strlen m p = Some (of_nat (length s))"
  by (simp add: strlen_def str_end)

lemma copy_str:
  "str_at m p s \<Longrightarrow> d + length s < p \<or> p + length s < d \<Longrightarrow> copy_str m d p = Some (put_bytes m d (s @ [0]))"
proof (induction s arbitrary: m p d)
  case Nil
  then show ?case by (simp add: copy_str.simps [of m] put_bytes_Cons Let_def fun_eq_iff)
next
  case (Cons c s)
  then have at: "str_at m (Suc p) s" "m p = c" "c \<noteq> 0" by simp_all
  have "str_at (m(d := c)) (Suc p) s" by (rule str_at_frame [OF at(1)]) (use Cons.prems(2) in auto)
  then have "copy_str (m(d := c)) (Suc d) (Suc p) = Some (put_bytes (m(d := c)) (Suc d) (s @ [0]))"
    by (rule Cons.IH) (use Cons.prems(2) in auto)
  then show ?case using at(2,3) by (simp add: copy_str.simps [of m d p] put_bytes_Cons Let_def)
qed

lemma str_at_put: "0 \<notin> set s \<Longrightarrow> str_at (put_bytes m d (s @ [0])) d s"
  by (simp add: str_at_iff put_bytes_def list_eq_iff_nth_eq nth_append less_Suc_eq_le)

lemma str_at_nonzero: "str_at m p s \<Longrightarrow> 0 \<notin> set s"
  by (induction s arbitrary: p) auto

lemma str_at_append: "str_at m p (s @ t) \<longleftrightarrow> (\<forall>i < length s. s ! i \<noteq> 0 \<and> m (p + i) = s ! i) \<and> str_at m (p + length s) t"
proof (induction s arbitrary: p)
  case (Cons c s)
  then show ?case by (auto simp: nth_Cons less_Suc_eq_0_disj)
qed simp

lemma str_at_cong: "(\<And>x. p \<le> x \<Longrightarrow> x \<le> p + length s \<Longrightarrow> m' x = m x) \<Longrightarrow> str_at m' p s = str_at m p s"
  by (metis str_at_frame)

lemma sint_eq_0: "sint (c :: u8) = 0 \<longleftrightarrow> c = 0"
  by (metis signed_0 signed_word_eqI)

lemma strcmp_at:
  "str_at m p s \<Longrightarrow> str_at m q t \<Longrightarrow> \<exists>r. strcmp m p q = Some r \<and> (r = 0 \<longleftrightarrow> s = t) \<and>
     (r < 0 \<longleftrightarrow> (map sint (s @ [0]), map sint (t @ [0])) \<in> lexord {(a, b). a < b})"
proof (induction s arbitrary: p q t)
  case Nil
  then show ?case by (cases t) (auto simp: strcmp.simps [of m] sint_eq_0)
next
  case (Cons c s)
  show ?case
  proof (cases t)
    case Nil
    then show ?thesis using Cons.prems by (auto simp: strcmp.simps [of m] sint_eq_0)
  next
    case t: (Cons d t')
    show ?thesis
    proof (cases "c = d")
      case True
      then show ?thesis using Cons.IH [of "Suc p" "Suc q" t'] Cons.prems t by (simp add: strcmp.simps [of m])
    next
      case False
      then have "sint c \<noteq> sint d" using signed_word_eqI by blast
      then show ?thesis using Cons.prems t False by (auto simp: strcmp.simps [of m])
    qed
  qed
qed

lemma memcmp_first:
  assumes "i < unat len" "\<forall>j < i. m (a + j) = m (b + j)" "m (a + i) \<noteq> m (b + i) \<or> i = unat len - 1"
  shows "memcmp m a b len = sint (m (a + i)) - sint (m (b + i))"
  using assms
proof (induction i arbitrary: a b len)
  case 0
  then have "m a \<noteq> m b \<or> len = 1" by (auto simp: word_unat_eq_iff)
  then show ?case by (auto simp: memcmp.simps [of m a b])
next
  case (Suc i)
  have "len \<noteq> 0" "len \<noteq> 1" using Suc.prems(1) by auto
  then have u: "unat (len - 1) = unat len - 1" "len - 1 \<noteq> 0" by (simp_all add: unat_minus_one)
  have "memcmp m (a + 1) (b + 1) (len - 1) = sint (m (a + 1 + i)) - sint (m (b + 1 + i))"
    by (rule Suc.IH) (use Suc.prems u in auto)
  moreover have "m a = m b" using Suc.prems(2) [rule_format, of 0] by simp
  ultimately show ?case using u by (simp add: memcmp.simps [of m a b])
qed

text \<open>The two scans for delimiters, over the contents \<open>ds\<close> of the delimiter string.\<close>

lemma is_delim_at: "str_at m p ds \<Longrightarrow> is_delim m p c = Some (c \<in> set ds)"
  by (induction ds arbitrary: p) (auto simp: is_delim.simps)

lemma ends_token_at: "str_at m p ds \<Longrightarrow> ends_token m p c = Some (c = 0 \<or> c \<in> set ds)"
  by (induction ds arbitrary: p) (auto simp: ends_token.simps)

lemma skip_delims_at:
  "str_at m delim ds \<Longrightarrow> str_at m s str \<Longrightarrow>
     skip_delims m delim s = Some (s + length (takeWhile (\<lambda>c. c \<in> set ds) str))"
proof (induction str arbitrary: s)
  case Nil
  then have "0 \<notin> set ds" by (auto dest: str_at_nonzero)
  then show ?case using Nil is_delim_at [OF Nil(1), of 0] by (simp add: skip_delims.simps [of m delim s])
next
  case (Cons c str)
  then show ?case using Cons.IH [of "Suc s"] is_delim_at [OF Cons.prems(1), of c]
    by (simp add: skip_delims.simps [of m delim s])
qed

lemma token_end_at:
  "str_at m delim ds \<Longrightarrow> str_at m s str \<Longrightarrow>
     token_end m delim s = Some (s + length (takeWhile (\<lambda>c. c \<notin> set ds) str))"
proof (induction str arbitrary: s)
  case Nil
  then show ?case using ends_token_at [OF Nil(1), of 0] by (simp add: token_end.simps [of m delim s])
next
  case (Cons c str)
  then show ?case using Cons.IH [of "Suc s"] ends_token_at [OF Cons.prems(1), of c]
    by (simp add: token_end.simps [of m delim s])
qed

text \<open>The reference: the maximal runs of characters that are no delimiters.\<close>

function tokens :: "u8 list \<Rightarrow> u8 list \<Rightarrow> u8 list list" where
  "tokens ds str =
     (let str = dropWhile (\<lambda>c. c \<in> set ds) str in
      if str = [] then [] else takeWhile (\<lambda>c. c \<notin> set ds) str # tokens ds (dropWhile (\<lambda>c. c \<notin> set ds) str))"
  by pat_completeness auto
termination
proof (relation "measure (\<lambda>(ds, str). length str)", simp, goal_cases)
  case (1 ds str str')
  have "hd str' \<notin> set ds" using 1 hd_dropWhile [of "\<lambda>c. c \<in> set ds" str] by simp
  then have "dropWhile (\<lambda>c. c \<notin> set ds) str' = dropWhile (\<lambda>c. c \<notin> set ds) (tl str')" using 1(2) by (cases str') auto
  moreover have "length (dropWhile (\<lambda>c. c \<notin> set ds) (tl str')) \<le> length (tl str')" by (rule length_dropWhile_le)
  moreover have "length str' \<le> length str" using 1(1) length_dropWhile_le by simp
  ultimately show ?case using 1(2) by (cases str') auto
qed

declare tokens.simps [simp del]

lemma tokens_skip: "c \<in> set ds \<Longrightarrow> tokens ds (c # str) = tokens ds str"
  by (simp add: tokens.simps [of ds "c # str"] tokens.simps [of ds str])

lemma tokens_split:
  assumes "dropWhile (\<lambda>c. c \<notin> set ds) str = rest"
  shows "tokens ds rest = tokens ds (drop 1 rest)"
proof (cases rest)
  case (Cons c r)
  then have "c \<in> set ds" using assms dropWhile_eq_Cons_conv [of "\<lambda>c. c \<notin> set ds" str c r] by auto
  then show ?thesis using Cons by (simp add: tokens_skip)
qed simp

lemma str_at_drop: "str_at m p str \<Longrightarrow> n \<le> length str \<Longrightarrow> str_at m (p + n) (drop n str)"
  using str_at_append [of m p "take n str" "drop n str"] by (simp add: min_absorb2)

lemma str_at_take:
  assumes "str_at m p str" "n \<le> length str"
  shows "str_at (m(p + n := 0)) p (take n str)"
proof -
  have "\<forall>i < n. str ! i \<noteq> 0 \<and> m (p + i) = str ! i"
    using assms str_at_append [of m p "take n str" "drop n str"] by (simp add: min_absorb2)
  then show ?thesis using str_at_append [of "m(p + n := 0)" p "take n str" "[]"] assms(2) by (simp add: min_absorb2)
qed

text \<open>One call on a string \<open>str\<close>: \<open>k\<close> delimiters are skipped, the token has \<open>n\<close> characters.\<close>

lemma strtok_r_at:
  assumes "str_at m delim ds" "str_at m s str" "s \<noteq> 0"
    "k = length (takeWhile (\<lambda>c. c \<in> set ds) str)" "n = length (takeWhile (\<lambda>c. c \<notin> set ds) (drop k str))"
  shows "strtok_r m s delim lasts =
    (if k = length str then Some (m, 0, 0)
     else if k + n = length str then Some (m, 0, s + k)
     else Some (m(s + k + n := 0), s + k + n + 1, s + k))"
proof -
  have sk: "skip_delims m delim s = Some (s + k)" using skip_delims_at [OF assms(1,2)] assms(4) by simp
  have kle: "k \<le> length str" using assms(4) length_takeWhile_le by simp
  have at: "str_at m (s + k) (drop k str)" by (rule str_at_drop [OF assms(2) kle])
  show ?thesis
  proof (cases "k = length str")
    case True
    then have "m (s + k) = 0" using at by simp
    then show ?thesis using sk True assms(3) by (simp add: strtok_r_def Let_def)
  next
    case False
    then have klt: "k < length str" using kle by simp
    then obtain c r where cr: "drop k str = c # r" by (metis Cons_nth_drop_Suc)
    have "dropWhile (\<lambda>c. c \<in> set ds) str = c # r" using cr assms(4) dropWhile_eq_drop [of "\<lambda>c. c \<in> set ds" str] by simp
    then have c: "c \<notin> set ds" "c \<noteq> 0" "m (s + k) = c"
      using at cr dropWhile_eq_Cons_conv [of "\<lambda>c. c \<in> set ds" str c r] by auto
    have te: "token_end m delim (s + k + 1) = Some (s + k + n)"
      using token_end_at [OF assms(1), of "s + k + 1" r] at cr c(1) assms(5) by simp
    have nle: "n \<le> length (drop k str)" unfolding assms(5) by (rule length_takeWhile_le)
    note at2 = str_at_drop [OF at nle]
    show ?thesis
    proof (cases "k + n = length str")
      case True
      then have "m (s + k + n) = 0" using at2 by simp
      then show ?thesis using sk te True assms(3) c klt by (simp add: strtok_r_def Let_def)
    next
      case False
      then have "drop n (drop k str) \<noteq> []" using nle klt by simp
      then obtain d t where "drop n (drop k str) = d # t" by (metis neq_Nil_conv)
      then have "m (s + k + n) \<noteq> 0" using at2 by auto
      then show ?thesis using sk te False assms(3) c klt by (simp add: strtok_r_def Let_def)
    qed
  qed
qed

subsection \<open>Properties\<close>

text \<open>C35: On blocks that do not overlap, \<^verbatim>\<open>memcpy\<close> and \<^verbatim>\<open>memmove\<close> both store exactly the bytes of the
  source at the destination and change no other byte; \<^verbatim>\<open>memset\<close> fills exactly its block. For
  \<^verbatim>\<open>memcpy\<close> it is enough that the destination does not start inside the source.\<close>

theorem block_copies_correct:
  assumes "dest + unat len \<le> src \<or> src + unat len \<le> dest"
  shows "memmove m dest src len = put_bytes m dest (get_bytes m src (unat len)) \<and>
    memcpy m dest src len = put_bytes m dest (get_bytes m src (unat len)) \<and>
    memset m dest c len = put_bytes m dest (replicate (unat len) (ucast c))"
proof -
  have cpy: "memcpy m dest src len = put_bytes m dest (get_bytes m src (unat len))"
    unfolding memcpy_forward by (rule forward_copy_exact) (use assms in auto)
  have "memmove m dest src len = put_bytes m dest (get_bytes m src (unat len))"
  proof (cases "dest \<ge> src \<or> dest \<ge> src + unat len")
    case False
    then show ?thesis using assms copy_down_disjoint [of dest len src m] by (simp add: memmove_def)
  qed (simp add: memmove_def cpy)
  then show ?thesis using cpy memset_bytes by simp
qed

theorem block_copies_correct_witness:
  "memmove (\<lambda>_. 7) 10 20 3 = put_bytes (\<lambda>_. 7) 10 (get_bytes (\<lambda>_. 7) 20 3)"
  using block_copies_correct [of 10 3 20 "\<lambda>_. 7" 0] by simp

text \<open>\<^verbatim>\<open>memmove\<close> chooses its direction the wrong way round. When the destination starts \<open>k\<close>
  bytes inside the source, it copies forward over bytes it has still to read: the first \<open>k\<close> bytes
  of the source are repeated over the whole destination, so the block is not moved.\<close>

theorem memmove_smears:
  assumes "src < dest" "i < unat len"
  shows "memmove m dest src len (dest + i) = m (src + i mod (dest - src))"
  using assms by (simp add: memmove_def memcpy_forward forward_copy_def)

theorem memmove_smears_witness: "memmove (\<lambda>a. if a = 5 then 1 else 2) 6 5 2 (6 + 1) = 1"
  using memmove_smears [of 5 6 1 2 "\<lambda>a. if a = 5 then 1 else 2"] by simp

text \<open>\<^verbatim>\<open>strcpy\<close>, \<^verbatim>\<open>strcat\<close> and \<^verbatim>\<open>strdup\<close> return on terminated strings whose blocks do not overlap
  the destination: the destination then holds the source string (after the old contents for
  \<^verbatim>\<open>strcat\<close>), no byte outside the destination changes, and \<^verbatim>\<open>strcmp\<close> finds copy and source equal.\<close>

theorem string_copies_correct:
  assumes "str_at m src s" "length s < 2 ^ 32" "dest + length s < src \<or> src + length s < dest"
  shows "strcpy m dest src = Some (put_bytes m dest (s @ [0])) \<and>
    strdup dest m src = Some (put_bytes m dest (s @ [0]), dest) \<and>
    str_at (put_bytes m dest (s @ [0])) dest s \<and>
    strcmp (put_bytes m dest (s @ [0])) dest src = Some 0"
proof -
  let ?m = "put_bytes m dest (s @ [0])"
  have d: "str_at ?m dest s" by (rule str_at_put [OF str_at_nonzero [OF assms(1)]])
  have "str_at ?m src s" by (rule str_at_frame [OF assms(1)]) (use assms(3) in \<open>auto simp: put_bytes_def\<close>)
  then have "strcmp ?m dest src = Some 0" using strcmp_at [OF d] by force
  moreover have "get_bytes m src (length s) = s"
    using assms(1) unfolding str_at_iff by (simp add: get_bytes_def)
  then have "memcpy m dest src (of_nat (length s)) = put_bytes m dest s"
    using forward_copy_exact [of dest src "length s" m] assms(2,3)
    by (auto simp: memcpy_forward unat_of_nat)
  then have "strdup dest m src = Some (?m, dest)"
    using assms(2) strlen_at [OF assms(1)] put_bytes_snoc [of m dest s 0]
    by (auto simp: strdup_def unat_of_nat put_bytes_def fun_eq_iff nth_append)
  ultimately show ?thesis using d copy_str [OF assms(1,3)] by (simp add: strcpy_def)
qed

theorem string_copies_correct_witness:
  "strcpy (\<lambda>a. if a = 5 then 65 else 0) 20 5 = Some (put_bytes (\<lambda>a. if a = 5 then 65 else 0) 20 ([65] @ [0]))"
  using string_copies_correct [of "\<lambda>a. if a = 5 then 65 else 0" 5 "[65]" 20] by simp

text \<open>One call of \<^verbatim>\<open>strtok_r\<close> on a string: if only delimiters are left it returns \<^verbatim>\<open>NULL\<close>. Otherwise
  it returns the next token, now terminated, and \<^verbatim>\<open>*lasts\<close> is either \<^verbatim>\<open>NULL\<close>, with no token
  left, or the rest of the string behind the token, whose tokens are the remaining ones.\<close>

lemma strtok_r_step:
  assumes "str_at m delim ds" "str_at m s str" "s \<noteq> 0"
  shows "\<exists>m' lasts' tok. strtok_r m s delim lasts = Some (m', lasts', tok) \<and>
    (\<forall>x. m' x \<noteq> m x \<longrightarrow> s \<le> x \<and> x < s + length str \<and> m x \<in> set ds) \<and>
    (case tokens ds str of
       [] \<Rightarrow> tok = 0 \<and> lasts' = 0
     | t # ts \<Rightarrow> tok \<noteq> 0 \<and> str_at m' tok t \<and>
         (if lasts' = 0 then ts = []
          else \<exists>rest. str_at m' lasts' rest \<and> tokens ds rest = ts \<and> s \<le> tok \<and> tok + length t < lasts' \<and> lasts' + length rest = s + length str))"
proof -
  define k where "k = length (takeWhile (\<lambda>c. c \<in> set ds) str)"
  define n where "n = length (takeWhile (\<lambda>c. c \<notin> set ds) (drop k str))"
  note call = strtok_r_at [OF assms k_def n_def, of lasts]
  have dk: "dropWhile (\<lambda>c. c \<in> set ds) str = drop k str" by (simp add: k_def dropWhile_eq_drop)
  have dn: "dropWhile (\<lambda>c. c \<notin> set ds) (drop k str) = drop n (drop k str)" by (simp add: n_def dropWhile_eq_drop)
  have tn: "takeWhile (\<lambda>c. c \<notin> set ds) (drop k str) = take n (drop k str)" unfolding n_def by (rule takeWhile_eq_take)
  have kle: "k \<le> length str" by (simp add: k_def length_takeWhile_le)
  have nle: "n \<le> length str - k" using length_takeWhile_le [of _ "drop k str"] by (simp add: n_def)
  have toks: "tokens ds str = (if k = length str then [] else take n (drop k str) # tokens ds (drop n (drop k str)))"
    using kle by (simp add: tokens.simps [of ds str] dk dn tn)
  have at: "str_at m (s + k) (drop k str)" by (rule str_at_drop [OF assms(2) kle])
  consider "k = length str" | "k < length str" "k + n = length str" | "k < length str" "k + n < length str"
    using kle nle by linarith
  then show ?thesis
  proof cases
    case 1
    then show ?thesis using call toks by (simp add: strtok_r_def)
  next
    case 2
    then show ?thesis using call toks at assms(3) by (simp add: tokens.simps [of ds "[]"])
  next
    case 3
    let ?m = "m(s + k + n := 0)"
    have d: "drop n (drop k str) = (str ! (k + n)) # drop (Suc (k + n)) str" using 3 by (simp add: Cons_nth_drop_Suc add.commute)
    have mem: "str ! (k + n) \<in> set ds" "m (s + k + n) = str ! (k + n)"
      using dn d dropWhile_eq_Cons_conv [of "\<lambda>c. c \<notin> set ds" "drop k str"] str_at_drop [OF at, of n] nle by auto
    have at3: "str_at m (Suc (s + k + n)) (drop (Suc (k + n)) str)"
      using str_at_drop [OF assms(2), of "Suc (k + n)"] 3 by (simp add: add.assoc)
    have "tokens ds (drop (Suc (k + n)) str) = tokens ds (drop n (drop k str))"
      using tokens_split [OF dn] d by (simp add: add.commute)
    moreover have "str_at ?m (Suc (s + k + n)) (drop (Suc (k + n)) str)"
      using str_at_frame [OF at3, of ?m] by simp
    moreover have "str_at ?m (s + k) (take n (drop k str))" using str_at_take [OF at, of n] nle by simp
    moreover have "strtok_r m s delim lasts = Some (?m, s + k + n + 1, s + k)" using call 3 by simp
    moreover have "tokens ds str = take n (drop k str) # tokens ds (drop n (drop k str))" using toks 3 by simp
    moreover have "\<forall>x. ?m x \<noteq> m x \<longrightarrow> s \<le> x \<and> x < s + length str \<and> m x \<in> set ds" using mem 3 by auto
    moreover have "length (take n (drop k str)) = n" "Suc (s + k + n) + length (drop (Suc (k + n)) str) = s + length str"
      using 3 nle by auto
    ultimately show ?thesis using assms(3) by auto
  qed
qed

text \<open>A caller that goes through a string: one call with the string, then calls with \<^verbatim>\<open>NULL\<close> until the result is \<^verbatim>\<open>NULL\<close>.\<close>

partial_function (option) strtok_rest :: "bytes \<Rightarrow> nat \<Rightarrow> nat \<Rightarrow> (bytes \<times> nat list) option" where
  "strtok_rest m delim lasts =
     do { (m, lasts, tok) \<leftarrow> strtok_r m 0 delim lasts;
          if tok = 0 then Some (m, [])
          else do { (m, toks) \<leftarrow> strtok_rest m delim lasts; Some (m, tok # toks) } }"

definition strtok_all :: "bytes \<Rightarrow> nat \<Rightarrow> nat \<Rightarrow> nat \<Rightarrow> (bytes \<times> nat list) option" where
  "strtok_all m s delim lasts =
     do { (m, lasts, tok) \<leftarrow> strtok_r m s delim lasts;
          if tok = 0 then Some (m, [])
          else do { (m, toks) \<leftarrow> strtok_rest m delim lasts; Some (m, tok # toks) } }"

definition apart :: "nat \<Rightarrow> u8 list \<Rightarrow> nat \<Rightarrow> u8 list \<Rightarrow> bool" where
  "apart p xs q ys \<longleftrightarrow> p + length xs < q \<or> q + length ys \<le> p"

lemma strtok_rest_null: "strtok_rest m delim 0 = Some (m, [])"
  by (subst strtok_rest.simps) (simp add: strtok_r_def)

lemma strtok_rest_resumes: "lasts \<noteq> 0 \<Longrightarrow> strtok_rest m delim lasts = strtok_all m lasts delim lasts"
  by (subst strtok_rest.simps) (simp add: strtok_all_def strtok_r_def)

lemma strtok_all_ok:
  assumes "str_at m delim ds" "str_at m s str" "s \<noteq> 0" "apart delim ds s str"
  shows "\<exists>m' toks. strtok_all m s delim lasts = Some (m', toks) \<and> list_all2 (str_at m') toks (tokens ds str) \<and>
    (\<forall>x. m' x \<noteq> m x \<longrightarrow> s \<le> x \<and> x < s + length str \<and> m x \<in> set ds)"
  using assms
proof (induction "tokens ds str" arbitrary: m s str lasts)
  case Nil
  then show ?case using strtok_r_step [OF Nil.prems(1-3), of lasts] by (auto simp: strtok_all_def)
next
  case (Cons t ts)
  obtain m1 l1 tok where c: "strtok_r m s delim lasts = Some (m1, l1, tok)" "\<forall>x. m1 x \<noteq> m x \<longrightarrow> s \<le> x \<and> x < s + length str \<and> m x \<in> set ds"
      "tok \<noteq> 0" "str_at m1 tok t" "if l1 = 0 then ts = []
        else \<exists>rest. str_at m1 l1 rest \<and> tokens ds rest = ts \<and> s \<le> tok \<and> tok + length t < l1 \<and> l1 + length rest = s + length str"
    using strtok_r_step [OF Cons.prems(1-3), of lasts] unfolding Cons.hyps(2) [symmetric] by auto
  show ?case
  proof (cases "l1 = 0")
    case True
    then show ?thesis using c Cons.hyps(2) [symmetric] by (simp add: strtok_all_def strtok_rest_null)
  next
    case False
    then obtain rest where r: "str_at m1 l1 rest" "ts = tokens ds rest" "tok + length t < l1" "l1 + length rest = s + length str" "s \<le> l1" using c(5) by auto
    have d: "str_at m1 delim ds"
      by (rule str_at_frame [OF Cons.prems(1)]) (use c(2) Cons.prems(4) in \<open>fastforce simp: apart_def\<close>)
    have "apart delim ds l1 rest" using Cons.prems(4) r(4,5) by (auto simp: apart_def)
    from Cons.hyps(1) [OF r(2) d r(1) False this, of l1]
    obtain m2 toks where i: "strtok_all m1 l1 delim l1 = Some (m2, toks)" "list_all2 (str_at m2) toks ts"
        "\<forall>x. m2 x \<noteq> m1 x \<longrightarrow> l1 \<le> x \<and> x < l1 + length rest \<and> m1 x \<in> set ds" using r(2) by auto
    have "str_at m2 tok t" by (rule str_at_frame [OF c(4)]) (use i(3) r(3) in fastforce)
    moreover have "strtok_all m s delim lasts = Some (m2, tok # toks)"
      using c(1,3) i(1) False by (simp add: strtok_all_def [of m s] strtok_rest_resumes)
    moreover have "\<forall>x. m2 x \<noteq> m x \<longrightarrow> s \<le> x \<and> x < s + length str \<and> m x \<in> set ds"
      using c(2) i(3) r(4,5) by (metis order_trans)
    ultimately show ?thesis using i(2) Cons.hyps(2) [symmetric] by auto
  qed
qed

text \<open>C36: A caller that passes a terminated string to \<^verbatim>\<open>strtok_r\<close>, and then \<^verbatim>\<open>NULL\<close> until \<^verbatim>\<open>NULL\<close> comes back, gets the tokens of the
  string, all of them and in order. Every call returns, and so does the whole sequence. At the end each pointer that was returned
  holds its token as a terminated string, and only delimiters inside the string were overwritten. The string of
  delimiters lies apart from the string.\<close>

theorem strtok_r_tokens:
  assumes "str_at m delim ds" "str_at m s str" "s \<noteq> 0" "apart delim ds s str"
  shows "\<exists>m' toks. strtok_all m s delim lasts = Some (m', toks) \<and> list_all2 (str_at m') toks (tokens ds str) \<and>
    (\<forall>x. m' x \<noteq> m x \<longrightarrow> s \<le> x \<and> x < s + length str \<and> m x \<in> set ds)"
  by (rule strtok_all_ok [OF assms])

definition tok_sample :: bytes where
  "tok_sample = put_bytes (put_bytes (\<lambda>_. 0) 100 [47]) 200 [47, 97, 98, 47, 99]"

lemma tok_sample_strings: "str_at tok_sample 100 [47]" "str_at tok_sample 200 [47, 97, 98, 47, 99]"
  by (simp_all add: tok_sample_def put_bytes_def)

lemma tok_sample_tokens: "tokens [47] [47, 97, 98, 47, 99] = [[97, 98], [99]]"
  by (simp add: tokens.simps)

theorem strtok_r_tokens_witness:
  "\<exists>m' p q. strtok_all tok_sample 200 100 0 = Some (m', [p, q]) \<and> str_at m' p [97, 98] \<and> str_at m' q [99]"
proof -
  have "apart 100 [47] 200 [47, 97, 98, 47, 99]" by (simp add: apart_def)
  from strtok_r_tokens [OF tok_sample_strings _ this, of 0] show ?thesis
    unfolding tok_sample_tokens list_all2_Cons2 list_all2_Nil2 by auto
qed

text \<open>C37: For a length that is not zero, \<^verbatim>\<open>memcmp\<close> returns 0 exactly when the blocks agree on all their
  bytes; otherwise it returns the difference of the first bytes that differ, read as signed
  characters. \<^verbatim>\<open>strcmp\<close> returns on terminated strings, with 0 exactly for equal strings, and it
  is negative exactly when the first string comes first in the order of signed characters. A length of zero is left out:
  \<^verbatim>\<open>memcmp\<close> decrements it before the first test, so it wraps and up to \<open>2 ^ 32\<close> bytes are compared.\<close>

theorem comparisons_correct:
  assumes "len \<noteq> 0" "str_at m p s" "str_at m q t"
  shows "(memcmp m a b len = 0 \<longleftrightarrow> get_bytes m a (unat len) = get_bytes m b (unat len)) \<and>
    (\<forall>i < unat len. (\<forall>j < i. m (a + j) = m (b + j)) \<longrightarrow> m (a + i) \<noteq> m (b + i) \<longrightarrow>
       memcmp m a b len = sint (m (a + i)) - sint (m (b + i))) \<and>
    (\<exists>r. strcmp m p q = Some r \<and> (r = 0 \<longleftrightarrow> s = t) \<and>
       (r < 0 \<longleftrightarrow> (map sint (s @ [0]), map sint (t @ [0])) \<in> lexord {(a, b). a < b}))"
proof -
  have pos: "0 < unat len" using assms(1) by (simp add: unat_gt_0)
  have "memcmp m a b len = 0 \<longleftrightarrow> (\<forall>i < unat len. m (a + i) = m (b + i))"
  proof (cases "\<forall>i < unat len. m (a + i) = m (b + i)")
    case True
    then have "m (a + (unat len - 1)) = m (b + (unat len - 1))" using pos diff_less zero_less_one by blast
    moreover have "memcmp m a b len = sint (m (a + (unat len - 1))) - sint (m (b + (unat len - 1)))"
      by (rule memcmp_first) (use True pos in auto)
    ultimately show ?thesis using True by simp
  next
    case False
    then obtain i where i: "i < unat len \<and> m (a + i) \<noteq> m (b + i)" "\<forall>j < i. \<not> (j < unat len \<and> m (a + j) \<noteq> m (b + j))"
      using exists_least_iff [of "\<lambda>i. i < unat len \<and> m (a + i) \<noteq> m (b + i)"] by auto
    then have "memcmp m a b len = sint (m (a + i)) - sint (m (b + i))" by (intro memcmp_first) auto
    moreover have "sint (m (a + i)) \<noteq> sint (m (b + i))" using i(1) signed_word_eqI by blast
    ultimately show ?thesis using False by auto
  qed
  then show ?thesis using memcmp_first [of _ len m a b] strcmp_at [OF assms(2,3)]
    by (simp add: list_eq_iff_nth_eq)
qed

theorem comparisons_correct_witness:
  "memcmp tok_sample 100 200 1 = 0 \<and> (\<exists>r < 0. strcmp tok_sample 100 200 = Some r)"
  using comparisons_correct [OF _ tok_sample_strings, of 1 100 200]
  by (auto simp: get_bytes_def tok_sample_def put_bytes_def)

end
