(* ===== verification/FormatInt.thy ===== *)
theory FormatInt
  imports Strings
begin

section \<open>Conversion of integers from and to text (\<^verbatim>\<open>src/stdc/format_integer.c\<close>)\<close>

text \<open>
  A C string is the list of its characters before the final NUL; a read at its end gives the
  NUL. The \<^verbatim>\<open>endptr\<close> result is the number of characters passed. \<^verbatim>\<open>__ulong\<close> has 64 bits,
  \<^verbatim>\<open>long\<close> has 32. The part under \<^verbatim>\<open>__USE_C99\<close>, which nothing defines, is not compiled.
\<close>

unbundle bit_operations_syntax

subsection \<open>Model\<close>

type_synonym cstr = "u8 list"

definition cur :: "cstr \<Rightarrow> u8" where
  "cur s = (case s of [] \<Rightarrow> 0 | c # _ \<Rightarrow> c)"

definition utoa_digits :: "u8 list" where
  "utoa_digits = map of_nat ([48..<58] @ [97..<123] @ [65..<91] @ [43, 61])"

text \<open>\<^verbatim>\<open>(pst == NULL) ? 65 : pst - _utoa_digits\<close> for \<^verbatim>\<open>pst = strchr(_utoa_digits, c)\<close>.\<close>

definition digit_of :: "u8 \<Rightarrow> nat" where
  "digit_of c = (if c \<in> set utoa_digits then length (takeWhile (\<lambda>d. d \<noteq> c) utoa_digits) else 65)"

definition digit_any_case :: "u8 \<Rightarrow> nat \<Rightarrow> nat" where
  "digit_any_case c base = (let v = digit_of c in if v \<ge> base then digit_of (c OR 0x20) else v)"

fun strtox_loop :: "cstr \<Rightarrow> nat \<Rightarrow> nat \<Rightarrow> u64 \<Rightarrow> (u64 \<times> nat) option" where
  "strtox_loop [] base pos value = Some (value, pos)"
| "strtox_loop (c # s) base pos value =
     (let v = digit_any_case c base in
      if v \<ge> base then Some (value, pos)
      else let bkp = value * of_nat base in
        if value \<noteq> 0 \<and> bkp div of_nat base \<noteq> value then None
        else strtox_loop s base (pos + 1) (value * of_nat base + of_nat v))"

datatype sign = Plus | Minus | Overflow

record strtox_result =
  sx_value :: u64
  sx_end :: nat
  sx_sign :: sign
  sx_errno :: errno

text \<open>\<^verbatim>\<open>_strtox\<close> on a string that starts \<open>pos\<close> characters after the caller's pointer. \<open>EOK\<close> means that
  \<^verbatim>\<open>errno\<close> is not written.\<close>

definition strtox :: "cstr \<Rightarrow> nat \<Rightarrow> nat \<Rightarrow> strtox_result" where
  "strtox str start base =
     (let sp = takeWhile (\<lambda>c. isspace (ext c)) str;
          s = drop (length sp) str; pos = start + length sp;
          sg = (if cur s = 45 then Minus else Plus);
          (s, pos) = (if cur s = 45 \<or> cur s = 43 then (drop 1 s, pos + 1) else (s, pos));
          (base, s, pos) =
            (if base = 0 then
               if cur s \<noteq> 48 then (10, s, pos)
               else if cur (drop 1 s) OR 0x20 = 120 then (16, drop 2 s, pos + 2)
               else (8, drop 1 s, pos + 1)
             else (base, s, pos))
      in if digit_of (cur s) \<ge> base
         then \<lparr>sx_value = 0, sx_end = start, sx_sign = sg, sx_errno = EINVAL\<rparr>
         else case strtox_loop s base pos 0 of
           None \<Rightarrow> \<lparr>sx_value = 0, sx_end = start, sx_sign = Overflow, sx_errno = EOK\<rparr>
         | Some (value, e) \<Rightarrow> \<lparr>sx_value = value, sx_end = e, sx_sign = sg, sx_errno = EOK\<rparr>)"

abbreviation LONG_MAX :: u64 where "LONG_MAX \<equiv> 2147483647"
abbreviation ULONG_MAX :: u64 where "ULONG_MAX \<equiv> 4294967295"
abbreviation LONG_MIN_as_ulong :: u64 where "LONG_MIN_as_ulong \<equiv> - 2147483648"

text \<open>The result is the value, \<^verbatim>\<open>*endptr\<close> and \<^verbatim>\<open>errno\<close>. \<open>ucast\<close> is the conversion to \<^verbatim>\<open>long\<close>. The base is
  known to be non-negative where it is not rejected, so it is a natural number.\<close>

definition strtol :: "cstr \<Rightarrow> nat \<Rightarrow> u32 \<times> nat \<times> errno" where
  "strtol nptr base =
     (if base \<noteq> 0 \<and> (base < 2 \<or> base > 36) then (0, 0, EINVAL)
      else let r = strtox nptr 0 base; value = sx_value r in
        case sx_sign r of
          Overflow \<Rightarrow> (0, 0, EOVERFLOW)
        | Plus \<Rightarrow> if value > LONG_MAX then (0, 0, EOVERFLOW) else (ucast value, sx_end r, sx_errno r)
        | Minus \<Rightarrow> if value > LONG_MIN_as_ulong then (0, 0, EOVERFLOW)
                   else (ucast (NOT value + 1), sx_end r, sx_errno r))"

definition strtoul :: "cstr \<Rightarrow> nat \<Rightarrow> u32 \<times> nat \<times> errno" where
  "strtoul nptr base =
     (if base \<noteq> 0 \<and> (base < 2 \<or> base > 36) then (0, 0, EINVAL)
      else let sp = takeWhile (\<lambda>c. isspace (ext c)) nptr;
               pos = length sp; nptr = drop pos nptr in
        if cur nptr = 45 then (0, 0, EINVAL)
        else let r = strtox nptr pos base; value = sx_value r in
          if sx_sign r = Overflow then (0, pos, EOVERFLOW)
          else if value > ULONG_MAX then (0, pos, EOVERFLOW)
          else (ucast value, sx_end r, sx_errno r))"

definition atoi :: "cstr \<Rightarrow> u32" where
  "atoi nptr = (let r = strtox nptr 0 10 in if sx_sign r = Plus then ucast (sx_value r) else ucast (NOT (sx_value r) + 1))"

definition atol :: "cstr \<Rightarrow> u32" where
  "atol nptr = (let r = strtox nptr 0 10 in if sx_sign r = Plus then ucast (sx_value r) else ucast (NOT (sx_value r) + 1))"

text \<open>The digits pushed on the local stack, the last one pushed first. An \<^verbatim>\<open>int\<close> base that is no base
  (0 divides by zero, 1 overruns the stack) does not get here, see \<^verbatim>\<open>utoa\<close> below.\<close>

function utoa_stack :: "u64 \<Rightarrow> nat \<Rightarrow> u8 list \<Rightarrow> u8 list \<Rightarrow> u8 list" where
  "utoa_stack value base digits stack =
     (if value = 0 \<or> base < 2 \<or> 2 ^ 31 \<le> base then stack
      else let quot = value div of_nat base; rem = value mod of_nat base in
        utoa_stack quot base digits (digits ! unat rem # stack))"
  by pat_completeness auto
termination
proof (relation "measure (\<lambda>(value, base, digits, stack). unat value)", simp, goal_cases)
  case (1 val base digits stack quot rem)
  then have "unat (of_nat base :: u64) = base" by (simp add: unat_of_nat)
  then have "unat (val div of_nat base) = unat val div base" by (simp add: unat_div)
  moreover have "unat val div base < unat val" using 1 by (intro div_less_dividend) (auto simp: unat_gt_0)
  ultimately show ?case using 1 by simp
qed

declare utoa_stack.simps [simp del]

text \<open>The contents of the buffer before its NUL, and whether the result is the buffer (it is \<^verbatim>\<open>NULL\<close>
  for the value zero).\<close>

definition utoa :: "u64 \<Rightarrow> nat \<Rightarrow> u8 list \<Rightarrow> (cstr \<times> bool) option" where
  "utoa value base digits =
     (if value = 0 then Some ([48], False)
      else if base < 2 \<or> 2 ^ 31 \<le> base then None
      else Some (utoa_stack value base digits [], True))"

text \<open>The inner \<open>None\<close> is the result \<^verbatim>\<open>NULL\<close>, with the buffer untouched.\<close>

definition itoa :: "u32 \<Rightarrow> nat \<Rightarrow> cstr option option" where
  "itoa value base =
     (if base < 2 \<or> base > 36 then Some None
      else if base = 10 \<and> sint value < 0
      then do { (s, _) \<leftarrow> utoa (scast (- value)) base utoa_digits; Some (Some (45 # s)) }
      else do { (s, _) \<leftarrow> utoa (scast value) base utoa_digits; Some (Some s) })"

subsection \<open>Digits\<close>

lemma length_utoa_digits [simp]: "length utoa_digits = 64"
  by (simp add: utoa_digits_def)

lemma distinct_utoa_digits: "distinct utoa_digits"
proof -
  let ?ns = "[48..<58] @ [97..<123] @ [65..<91] @ [43, 61] :: nat list"
  have 1: "inj_on (of_nat :: nat \<Rightarrow> u8) {..<256}" by (rule inj_onI) (simp add: word_unat_eq_iff unat_of_nat)
  have 2: "set ?ns \<subseteq> {..<256}" by (auto simp del: upt_rec_numeral)
  have 3: "distinct ?ns" by (simp add: disjoint_iff del: upt_rec_numeral)
  show ?thesis unfolding utoa_digits_def distinct_map by (rule conjI [OF 3 inj_on_subset [OF 1 2]])
qed

lemma digit_of_nth: "v < 64 \<Longrightarrow> digit_of (utoa_digits ! v) = v"
proof -
  assume v: "v < 64"
  have "takeWhile (\<lambda>d. d \<noteq> utoa_digits ! v) utoa_digits = take v utoa_digits"
  proof (rule takeWhile_eq_take_P_nth)
    fix i assume "i < v" "i < length utoa_digits"
    then show "utoa_digits ! i \<noteq> utoa_digits ! v" using distinct_utoa_digits v by (simp add: nth_eq_iff_index_eq)
  qed simp
  then show ?thesis using v by (simp add: digit_of_def)
qed

text \<open>The positional value of a list of digits.\<close>

definition horner :: "nat \<Rightarrow> nat list \<Rightarrow> nat \<Rightarrow> nat" where
  "horner base vs n = foldl (\<lambda>a v. a * base + v) n vs"

lemma horner_mono: "2 \<le> base \<Longrightarrow> n \<le> horner base vs n"
proof (induction vs arbitrary: n)
  case (Cons v vs)
  have "n \<le> n * base + v" using Cons.prems by (simp add: trans_le_add1)
  then show ?case using Cons.IH [OF Cons.prems, of "n * base + v"] by (simp add: horner_def)
qed (simp add: horner_def)

text \<open>The loop computes the positional value of a run of digits whenever it fits in 64 bits.\<close>

lemma strtox_loop_digits:
  assumes "2 \<le> base" "base < 2 ^ 31" "\<forall>c \<in> set s. digit_any_case c base < base"
    "horner base (map (\<lambda>c. digit_any_case c base) s) n < 2 ^ 64"
  shows "strtox_loop s base pos (of_nat n) =
    Some (of_nat (horner base (map (\<lambda>c. digit_any_case c base) s) n), pos + length s)"
  using assms
proof (induction s arbitrary: n pos)
  case (Cons c s)
  let ?v = "digit_any_case c base"
  have hn: "horner base (map (\<lambda>c. digit_any_case c base) (c # s)) n = horner base (map (\<lambda>c. digit_any_case c base) s) (n * base + ?v)"
    by (simp add: horner_def)
  have le: "n * base + ?v < 2 ^ 64" using horner_mono [OF Cons.prems(1)] Cons.prems(4) unfolding hn by (meson le_less_trans)
  have nb: "n * base < 2 ^ 64" using le by simp
  have "n \<le> n * base" using Cons.prems(1) by (cases base) auto
  then have n: "n < 2 ^ 64" using nb by (rule le_less_trans)
  have "unat (of_nat n * of_nat base :: u64) = n * base" using nb by (simp add: unat_of_nat flip: of_nat_mult)
  then have "unat (of_nat n * of_nat base div of_nat base :: u64) = n"
    using Cons.prems(1,2) by (simp add: unat_div unat_of_nat)
  then have "of_nat n * of_nat base div of_nat base = (of_nat n :: u64)"
    using n by (simp add: word_unat_eq_iff unat_of_nat)
  then show ?case using Cons.IH [of "n * base + ?v" "pos + 1"] Cons.prems hn by (simp add: Let_def)
qed (simp add: horner_def)

lemma utoa_stack_digits:
  assumes "2 \<le> base" "base < 2 ^ 31"
  shows "\<exists>vs. utoa_stack v base ds st = map (\<lambda>i. ds ! i) vs @ st \<and> (\<forall>i \<in> set vs. i < base) \<and>
    horner base vs 0 = unat v \<and> (v \<noteq> 0 \<longrightarrow> vs \<noteq> [])"
  using assms
proof (induction v base ds st rule: utoa_stack.induct)
  case (1 v base ds st)
  show ?case
  proof (cases "v = 0")
    case True
    then show ?thesis by (auto simp: utoa_stack.simps [of 0] horner_def intro: exI [of _ "[]"])
  next
    case False
    let ?q = "v div of_nat base" and ?r = "v mod of_nat base"
    have b: "unat (of_nat base :: u64) = base" using 1(3) by (simp add: unat_of_nat)
    obtain vs where vs: "utoa_stack ?q base ds (ds ! unat ?r # st) = map (\<lambda>i. ds ! i) vs @ (ds ! unat ?r # st)"
      "\<forall>i \<in> set vs. i < base" "horner base vs 0 = unat ?q"
      using 1(1) [of ?q ?r] False 1(2,3) by auto
    have "unat ?r < base" using b 1(2) by (simp add: unat_mod)
    moreover have "horner base (vs @ [unat ?r]) 0 = unat v"
      using vs(3) b by (simp add: horner_def unat_div unat_mod)
    moreover have "utoa_stack v base ds st = map (\<lambda>i. ds ! i) (vs @ [unat ?r]) @ st"
      using vs(1) False 1(2,3) by (simp add: utoa_stack.simps [of v] Let_def)
    ultimately show ?thesis using vs(2) by (intro exI [of _ "vs @ [unat ?r]"]) auto
  qed
qed

lemma digit_chars:
  assumes "v < 36"
  shows "\<not> isspace (ext (utoa_digits ! v)) \<and> utoa_digits ! v \<noteq> 45 \<and> utoa_digits ! v \<noteq> 43"
proof -
  have "list_all (\<lambda>c. \<not> isspace (ext c) \<and> c \<noteq> 45 \<and> c \<noteq> 43) (take 36 utoa_digits)"
    by (simp add: utoa_digits_def isspace_def upt_rec)
  then show ?thesis using assms by (simp add: list_all_length)
qed

lemma digit_any_case_nth: "v < base \<Longrightarrow> base \<le> 36 \<Longrightarrow> digit_any_case (utoa_digits ! v) base = v"
  by (simp add: digit_any_case_def digit_of_nth)

text \<open>A run of digits in any base but 0, with an optional sign, is read as its positional value.\<close>

lemma strtox_number:
  assumes "2 \<le> base" "base \<le> 36" "vs \<noteq> []" "\<forall>v \<in> set vs. v < base" "horner base vs 0 < 2 ^ 64"
  defines "s \<equiv> map (\<lambda>v. utoa_digits ! v) vs"
  shows "strtox s pos base = \<lparr>sx_value = of_nat (horner base vs 0), sx_end = pos + length vs, sx_sign = Plus, sx_errno = EOK\<rparr>"
    "strtox (45 # s) pos base = \<lparr>sx_value = of_nat (horner base vs 0), sx_end = pos + 1 + length vs, sx_sign = Minus, sx_errno = EOK\<rparr>"
proof -
  obtain v vs' where vs: "vs = v # vs'" using assms(3) by (cases vs) auto
  then have v: "v < base" using assms(4) by simp
  define c where "c = utoa_digits ! v"
  have s: "s = c # map (\<lambda>v. utoa_digits ! v) vs'" by (simp add: s_def vs c_def)
  have ch: "\<not> isspace (ext c)" "c \<noteq> 45" "c \<noteq> 43" "digit_of c = v"
    using digit_chars [of v] digit_of_nth [of v] v assms(2) by (auto simp: c_def)
  have m: "map (\<lambda>c. digit_any_case c base) s = vs"
    using assms(2,4) by (simp add: s_def map_idI digit_any_case_nth)
  have d: "\<forall>c \<in> set s. digit_any_case c base < base"
    using assms(2,4) by (auto simp: s_def digit_any_case_nth)
  have len: "length s = length vs" by (simp add: s_def)
  have loop: "strtox_loop s base q 0 = Some (of_nat (horner base vs 0), q + length vs)" for q
    using strtox_loop_digits [OF assms(1) _ d, of 0 q] assms(2,5) unfolding m len by simp
  have sp: "\<not> isspace (ext 45)" by (simp add: isspace_def)
  show "strtox s pos base = \<lparr>sx_value = of_nat (horner base vs 0), sx_end = pos + length vs, sx_sign = Plus, sx_errno = EOK\<rparr>"
    using loop [of pos] ch v assms(1) unfolding s by (simp add: strtox_def cur_def)
  show "strtox (45 # s) pos base = \<lparr>sx_value = of_nat (horner base vs 0), sx_end = pos + 1 + length vs, sx_sign = Minus, sx_errno = EOK\<rparr>"
    using loop [of "pos + 1"] ch v assms(1) sp unfolding s by (simp add: strtox_def cur_def)
qed

lemma utoa_text:
  assumes "2 \<le> base" "base \<le> 36"
  shows "\<exists>vs r. utoa v base utoa_digits = Some (map (\<lambda>i. utoa_digits ! i) vs, r) \<and> vs \<noteq> [] \<and>
    (\<forall>i \<in> set vs. i < base) \<and> horner base vs 0 = unat v"
proof (cases "v = 0")
  case True
  have "utoa_digits ! 0 = 48" by (simp add: utoa_digits_def)
  then show ?thesis using True assms by (intro exI [of _ "[0]"] exI [of _ False]) (simp add: utoa_def horner_def)
next
  case False
  then show ?thesis using utoa_stack_digits [of base v utoa_digits "[]"] assms by (auto simp: utoa_def)
qed

lemma u64_less: "unat (x :: u64) < 2 ^ 64"
  using unsigned_less [of x] by simp

lemma ucast_of_int: "ucast (of_int x :: u64) = (of_int x :: u32)"
  by transfer (simp add: min_def)

lemma scast_of_int: "(scast (i :: u32) :: u64) = of_int (sint i)"
  by simp

lemma sint_minus: "- (2 ^ 31) < sint (i :: u32) \<Longrightarrow> sint (- i) = - sint i"
  using sint_range_size [of i] by (simp add: sint_word_ariths word_size signed_take_bit_int_eq_self)

lemma unat_of_int: "0 \<le> x \<Longrightarrow> x < 2 ^ 64 \<Longrightarrow> int (unat (of_int x :: u64)) = x"
  by (simp add: unat_eq_nat_uint uint_word_of_int take_bit_int_eq_self flip: take_bit_eq_mod)

text \<open>Reading back what \<^verbatim>\<open>utoa\<close> wrote, with and without a minus sign.\<close>

lemma utoa_strtox:
  assumes "2 \<le> base" "base \<le> 36"
  shows "\<exists>s r. utoa v base utoa_digits = Some (s, r) \<and>
    strtox s 0 base = \<lparr>sx_value = v, sx_end = length s, sx_sign = Plus, sx_errno = EOK\<rparr> \<and>
    strtox (45 # s) 0 base = \<lparr>sx_value = v, sx_end = Suc (length s), sx_sign = Minus, sx_errno = EOK\<rparr>"
proof -
  obtain vs r where u: "utoa v base utoa_digits = Some (map (\<lambda>i. utoa_digits ! i) vs, r)" "vs \<noteq> []"
    "\<forall>i \<in> set vs. i < base" "horner base vs 0 = unat v"
    using utoa_text [OF assms, of v] by blast
  then show ?thesis using strtox_number [OF assms u(2,3), of 0] u64_less [of v] by simp
qed

lemma itoa_text:
  assumes "- (2 ^ 31) < sint i"
  shows "\<exists>t. itoa i 10 = Some (Some t) \<and> atoi t = i \<and> strtol t 10 = (i, length t, EOK)"
proof (cases "sint i < 0")
  case True
  let ?v = "scast (- i) :: u64"
  have v: "?v = of_int (- sint i)" using sint_minus [OF assms] scast_of_int [of "- i"] by simp
  have neg: "ucast (NOT ?v + 1) = i" using ucast_of_int [of "sint i"] unfolding v by (simp add: not_eq_complement)
  obtain s r where u: "utoa ?v 10 utoa_digits = Some (s, r)"
    "strtox (45 # s) 0 10 = \<lparr>sx_value = ?v, sx_end = Suc (length s), sx_sign = Minus, sx_errno = EOK\<rparr>"
    using utoa_strtox [of 10 ?v] by auto
  have "int (unat ?v) = - sint i" unfolding v using True assms by (intro unat_of_int) auto
  moreover have "- 2147483648 < sint i" using assms by simp
  ultimately have small: "unat ?v \<le> 2147483648" by linarith
  have "\<not> ?v > LONG_MIN_as_ulong" using small by (simp add: word_less_nat_alt)
  then show ?thesis using True neg u by (simp add: itoa_def atoi_def strtol_def)
next
  case False
  let ?v = "scast i :: u64"
  have v: "?v = of_int (sint i)" by (rule scast_of_int)
  have pos: "ucast ?v = i" unfolding v ucast_of_int by simp
  obtain s r where u: "utoa ?v 10 utoa_digits = Some (s, r)"
    "strtox s 0 10 = \<lparr>sx_value = ?v, sx_end = length s, sx_sign = Plus, sx_errno = EOK\<rparr>"
    using utoa_strtox [of 10 ?v] by auto
  have "int (unat ?v) = sint i" unfolding v
    using False sint_range_size [of i] by (intro unat_of_int) (auto simp: word_size)
  moreover have "sint i < 2147483648" using sint_range_size [of i] by (simp add: word_size)
  ultimately have "unat ?v < 2147483648" by linarith
  then have "\<not> ?v > LONG_MAX" by (simp add: word_less_nat_alt)
  then show ?thesis using False pos u by (simp add: itoa_def atoi_def strtol_def)
qed

subsection \<open>Properties\<close>

text \<open>C38: Printing a 64-bit number in any base from 2 to 36 and reading the text back gives the
  number, with no error, a plus sign and all the characters read. In base 10, \<^verbatim>\<open>atoi\<close> and
  \<^verbatim>\<open>strtol\<close> read back every \<^verbatim>\<open>int\<close> that \<^verbatim>\<open>itoa\<close> prints, negative ones included, except for
  \<^verbatim>\<open>INT_MIN\<close>, whose negation overflows.\<close>

theorem integer_text_roundtrip:
  assumes "2 \<le> base" "base \<le> 36" "- (2 ^ 31) < sint i"
  shows "(\<exists>s r. utoa v base utoa_digits = Some (s, r) \<and>
      strtox s 0 base = \<lparr>sx_value = v, sx_end = length s, sx_sign = Plus, sx_errno = EOK\<rparr>) \<and>
    (\<exists>t. itoa i 10 = Some (Some t) \<and> atoi t = i \<and> strtol t 10 = (i, length t, EOK))"
  using utoa_strtox [OF assms(1,2), of v] itoa_text [OF assms(3)] by auto

theorem integer_text_roundtrip_witness:
  "\<exists>t. itoa (- 42) 10 = Some (Some t) \<and> atoi t = - 42 \<and> strtol t 10 = (- 42, length t, EOK)"
  using integer_text_roundtrip [of 10 "- 42" 0] by simp

text \<open>The range check of \<^verbatim>\<open>strtol\<close> on decimal text. A number without a sign is returned if it is at
  most \<^verbatim>\<open>LONG_MAX\<close> and refused with \<^verbatim>\<open>EOVERFLOW\<close> otherwise. A number with a minus sign is
  compared with \<^verbatim>\<open>LONG_MIN\<close> converted to 64 bits, so everything up to 2^64 - 2^31 is accepted and the
  low 32 bits of its negation are returned with no error.\<close>

theorem strtol_range:
  assumes "vs \<noteq> []" "\<forall>v \<in> set vs. v < 10" "horner 10 vs 0 = n" "n \<le> 2 ^ 64 - 2 ^ 31"
  defines "s \<equiv> map (\<lambda>v. utoa_digits ! v) vs"
  shows "strtol s 10 = (if n \<le> 2 ^ 31 - 1 then (of_nat n, length s, EOK) else (0, 0, EOVERFLOW)) \<and>
    strtol (45 # s) 10 = (- of_nat n, Suc (length s), EOK)"
proof -
  have n: "unat (of_nat n :: u64) = n" using assms(4) by (simp add: unat_of_nat)
  note st = strtox_number [of 10 vs, OF _ _ assms(1,2), of 0]
  have c: "ucast (of_nat n :: u64) = (of_nat n :: u32)" using ucast_of_int [of "int n"] by simp
  have "ucast (- of_nat n :: u64) = (- of_nat n :: u32)" using ucast_of_int [of "- int n"] by simp
  then show ?thesis using st assms(3,4) n c
    by (auto simp: strtol_def s_def word_less_nat_alt not_eq_complement)
qed

theorem strtol_range_witness:
  "strtol (45 # map (\<lambda>v. utoa_digits ! v) [3, 0, 0, 0, 0, 0, 0, 0, 0, 0]) 10 = (- 3000000000, 11, EOK)"
  using strtol_range [of "[3, 0, 0, 0, 0, 0, 0, 0, 0, 0]" 3000000000] by (simp add: horner_def)

end
