(* ===== verification/Calendar.thy ===== *)
theory Calendar
  imports Prelude "HOL-Library.Signed_Division"
begin

section \<open>Calendar time (\<^verbatim>\<open>src/stdc/time.c\<close>)\<close>

text \<open>
  The conversions between seconds since 1970 and broken-down time. The values are integers;
  the 32-bit \<^verbatim>\<open>long\<close> is written out where the code narrows a 64-bit value to it. Division
  and remainder are those of C (\<open>sdiv\<close>, \<open>smod\<close>), which truncate towards zero. \<^verbatim>\<open>asctime\<close> only
  formats the fields with \<^verbatim>\<open>snprintf\<close> and is not modelled.
\<close>

subsection \<open>Model\<close>

record tm =
  tm_sec :: int
  tm_min :: int
  tm_hour :: int
  tm_mday :: int
  tm_mon :: int
  tm_year :: int
  tm_wday :: int
  tm_yday :: int
  tm_isdst :: int

abbreviation LEAPOCH :: int where "LEAPOCH \<equiv> 951868800"
abbreviation SECS_PER_DAY :: int where "SECS_PER_DAY \<equiv> 86400"

definition to_long :: "int \<Rightarrow> int" where
  "to_long x = (x + 2 ^ 31) mod 2 ^ 32 - 2 ^ 31"

text \<open>The seconds at the start of a year (counted from 1900), and whether it is a leap year.\<close>

definition yeartosecs :: "int \<Rightarrow> int \<times> bool" where
  "yeartosecs year =
     (if (year - 2) mod 2 ^ 32 \<le> 136 then
        let leaps = (year - 68) div 4;
            is_leap = ((year - 68) mod 4 = 0);
            leaps = (if is_leap then leaps - 1 else leaps)
        in (31536000 * (year - 70) + 86400 * leaps, is_leap)
      else
        let cycles = (year - 100) sdiv 400;
            rem = (year - 100) smod 400;
            (cycles, rem) = (if rem < 0 then (cycles - 1, rem + 400) else (cycles, rem));
            (centuries, leaps, is_leap) =
              (if rem = 0 then (0, 0, True)
               else let (centuries, rem) =
                        (if rem \<ge> 200 then if rem \<ge> 300 then (3, rem - 300) else (2, rem - 200)
                         else if rem \<ge> 100 then (1, rem - 100) else (0, rem))
                    in if rem = 0 then (centuries, 0, False) else (centuries, rem div 4, rem mod 4 = 0));
            leaps = leaps + 97 * cycles + 24 * centuries - (if is_leap then 1 else 0)
        in ((year - 100) * 31536000 + leaps * 86400 + 946684800 + 86400, is_leap))"

definition secs_through_month :: "int list" where
  "secs_through_month = map (\<lambda>d. d * 86400) [0, 31, 59, 90, 120, 151, 181, 212, 243, 273, 304, 334]"

definition monthtosecs :: "int \<Rightarrow> bool \<Rightarrow> int" where
  "monthtosecs month is_leap =
     (let t = secs_through_month ! nat month in if is_leap \<and> month \<ge> 2 then t + 86400 else t)"

definition tmtosecs :: "tm \<Rightarrow> int" where
  "tmtosecs tm =
     (let year = tm_year tm; month = tm_mon tm;
          (year, month) =
            (if month \<ge> 12 \<or> month < 0 then
               let adj = month sdiv 12; month = month smod 12;
                   (adj, month) = (if month < 0 then (adj - 1, month + 12) else (adj, month))
               in (year + adj, month)
             else (year, month));
          (t, is_leap) = yeartosecs year
      in t + monthtosecs month is_leap + 86400 * (tm_mday tm - 1) + 3600 * tm_hour tm + 60 * tm_min tm + tm_sec tm)"

text \<open>One round of the loop over the 400, 100, 4 and 1 year cycles; \<open>m\<close> is \<^verbatim>\<open>CYCLES_MODS[i]\<close>, not used
  in the first round.\<close>

definition cycle_step :: "bool \<Rightarrow> int \<Rightarrow> int \<Rightarrow> int \<Rightarrow> int \<times> int" where
  "cycle_step first cdays m days =
     (let c = days sdiv cdays;
          c = (if \<not> first \<and> c = m then c - 1 else c);
          days = days - c * cdays
      in if days < 0 then (c - 1, days + cdays) else (c, days))"

definition days_in_month :: "int list" where
  "days_in_month = [31, 30, 31, 30, 31, 31, 30, 31, 30, 31, 31, 29]"

text \<open>The month loop; \<open>None\<close> is a read past the end of the table.\<close>

fun month_loop :: "int list \<Rightarrow> int \<Rightarrow> int \<Rightarrow> (int \<times> int) option" where
  "month_loop [] month days = None"
| "month_loop (n # ns) month days = (if n \<le> days then month_loop ns (month + 1) (days - n) else Some (month, days))"

text \<open>The inner \<open>None\<close> is the result \<open>- 1\<close>, with nothing written.\<close>

definition secstotm :: "int \<Rightarrow> tm \<Rightarrow> tm option option" where
  "secstotm timestamp tm =
     (let total_secs = timestamp - LEAPOCH;
          ts_date = total_secs sdiv SECS_PER_DAY;
          ts_time = total_secs smod SECS_PER_DAY in
      if timestamp < - (2 ^ 31) * 31622400 \<or> timestamp > (2 ^ 31 - 1) * 31622400 then Some None
      else
        let (ts_time, ts_date) = (if ts_time < 0 then (ts_time + SECS_PER_DAY, ts_date - 1) else (ts_time, ts_date));
            (c0, days) = cycle_step True 146097 0 (to_long ts_date);
            (c1, days) = cycle_step False 36524 4 days;
            (c2, days) = cycle_step False 1461 25 days;
            (c3, days) = cycle_step False 365 4 days;
            years = 400 * c0 + 100 * c1 + 4 * c2 + c3;
            leap = (if c3 = 0 \<and> (c2 \<noteq> 0 \<or> c1 = 0) then 1 else 0);
            yday = days + 31 + 28 + leap;
            yday = (if yday \<ge> 365 + leap then yday - (365 + leap) else yday)
        in do {
          (month, mdays) \<leftarrow> month_loop days_in_month 0 days;
          let (mon, year) = (if month + 2 \<ge> 12 then (month + 2 - 12, years + 100 + 1) else (month + 2, years + 100));
          let wday = (3 + ts_date) smod 7;
          Some (Some (tm\<lparr>tm_hour := ts_time div 3600, tm_min := ts_time div 60 mod 60, tm_sec := ts_time mod 60,
            tm_year := year, tm_yday := yday, tm_mon := mon, tm_mday := mdays + 1,
            tm_wday := (if wday < 0 then wday + 7 else wday)\<rparr>)) })"

text \<open>The result of \<^verbatim>\<open>timegm\<close> and \<^verbatim>\<open>mktime\<close> is the time and the normalised fields; the inner \<open>None\<close> is \<open>- 1\<close>
  with \<^verbatim>\<open>EOVERFLOW\<close>. The local variable \<^verbatim>\<open>datetime\<close> starts undefined; all its fields but
  \<^verbatim>\<open>tm_isdst\<close> are written.\<close>

definition timegm :: "tm \<Rightarrow> (int \<times> tm) option option" where
  "timegm tm =
     (let t = tmtosecs tm in
      do { r \<leftarrow> secstotm t tm;
           Some (case r of None \<Rightarrow> None | Some datetime \<Rightarrow> Some (t, datetime\<lparr>tm_isdst := 0\<rparr>)) })"

definition mktime :: "tm \<Rightarrow> (int \<times> tm) option option" where
  "mktime tm = timegm tm"

definition gmtime_r :: "int \<Rightarrow> tm \<Rightarrow> tm option option" where
  "gmtime_r time tm =
     do { r \<leftarrow> secstotm time tm; Some (case r of None \<Rightarrow> None | Some tm \<Rightarrow> Some (tm\<lparr>tm_isdst := 0\<rparr>)) }"

definition localtime :: "int \<Rightarrow> int \<Rightarrow> tm \<Rightarrow> tm option option" where
  "localtime timezone timep tm = gmtime_r (timep + timezone) tm"

subsection \<open>Truncated division as floor division\<close>

lemma sdiv_smod_pos:
  assumes "(0::int) < n"
  shows "(if a smod n < 0 then (a sdiv n - 1, a smod n + n) else (a sdiv n, a smod n)) = (a div n, a mod n)"
proof (cases "0 \<le> a")
  case True
  then show ?thesis using assms by (simp add: signed_divide_int_def signed_modulo_int_def sgn_if not_less minus_mult_div_eq_mod mult.commute)
next
  case False
  then have a: "a < 0" by simp
  have d: "a sdiv n = - ((- a) div n)" "a smod n = - ((- a) mod n)"
    using a assms by (auto simp: signed_divide_int_def signed_modulo_int_def sgn_if minus_mult_div_eq_mod minus_div_mult_eq_mod algebra_simps)
  show ?thesis unfolding d using assms
    by (auto simp: zdiv_zminus1_eq_if zmod_zminus1_eq_if pos_mod_sign pos_mod_bound split: if_splits)
qed

subsection \<open>The reference calendar\<close>

text \<open>Leap days up to the end of year \<open>y\<close>, the leap years, and the day number (from 1970) of the first
  of January; years are counted from 0.\<close>

definition leap_days :: "int \<Rightarrow> int" where
  "leap_days y = y div 4 - y div 100 + y div 400"

definition leap_year :: "int \<Rightarrow> bool" where
  "leap_year y \<longleftrightarrow> y mod 4 = 0 \<and> (y mod 100 \<noteq> 0 \<or> y mod 400 = 0)"

definition jan1 :: "int \<Rightarrow> int" where
  "jan1 y = 365 * (y - 1970) + leap_days (y - 1) - 477"

lemma div_pred: "(0::int) < k \<Longrightarrow> y div k = (y - 1) div k + (if y mod k = 0 then 1 else 0)"
proof (cases "y mod k = 0")
  assume k: "0 < k"
  case True
  then have "y - 1 = k * (y div k - 1) + (k - 1)" using mult_div_mod_eq [of k y] by (simp add: algebra_simps)
  then have "(y - 1) div k = y div k - 1" by (rule int_div_pos_eq) (use k in auto)
  then show ?thesis using True by simp
next
  assume k: "0 < k"
  case False
  then have "0 < y mod k" using k by (simp add: order.strict_iff_order)
  moreover have "y - 1 = k * (y div k) + (y mod k - 1)" using mult_div_mod_eq [of k y] by simp
  ultimately have "(y - 1) div k = y div k" using pos_mod_bound [OF k, of y] by (intro int_div_pos_eq [of "y - 1" k "y div k" "y mod k - 1"]) auto
  then show ?thesis using False by simp
qed

lemma div_shift: "(0::int) < k \<Longrightarrow> (m * k + y) div k = m + y div k \<and> (m * k + y) mod k = y mod k"
  by simp

lemmas div_shift_eq = div_shift [THEN conjunct1] and mod_shift_eq = div_shift [THEN conjunct2]

lemma div_ceiling: "0 < k \<Longrightarrow> 0 \<le> q \<Longrightarrow> q \<le> (k::int) \<Longrightarrow> (k - 1 + q) div k = (if q = 0 then 0 else 1)"
  using int_div_pos_eq [of "k - 1 + q" k 1 "q - 1"] by auto

lemma add_flags:
  "(r \<Longrightarrow> q) \<Longrightarrow> (q \<Longrightarrow> p) \<Longrightarrow> (a + (if p then 1 else 0)) - (b + (if q then 1 else 0)) + (c + (if r then 1 else 0)) =
    (a - b + c) + (if p \<and> (\<not> q \<or> r) then 1 else (0::int))"
  by (cases p; cases q; cases r) simp_all

lemma leap_days_step: "leap_days y = leap_days (y - 1) + (if leap_year y then 1 else 0)"
proof -
  have "y mod 400 mod 100 = y mod 100" "y mod 100 mod 4 = y mod 4" by (rule mod_mod_cancel, simp)+
  then have m: "y mod 400 = 0 \<Longrightarrow> y mod 100 = 0" "y mod 100 = 0 \<Longrightarrow> y mod 4 = 0" by (metis mod_0)+
  have d: "y div 4 = (y - 1) div 4 + (if y mod 4 = 0 then 1 else 0)"
    "y div 100 = (y - 1) div 100 + (if y mod 100 = 0 then 1 else 0)"
    "y div 400 = (y - 1) div 400 + (if y mod 400 = 0 then 1 else 0)" by (rule div_pred, simp)+
  show ?thesis unfolding leap_days_def leap_year_def d by (rule add_flags [OF m])
qed

lemma leap_days_shift: "leap_days (400 * c + y) = 97 * c + leap_days y"
  using div_shift_eq [of 4 "100 * c" y] div_shift_eq [of 100 "4 * c" y] div_shift_eq [of 400 c y]
  by (simp add: leap_days_def mult.commute)

lemma leap_year_shift: "leap_year (400 * c + y) = leap_year y"
  using mod_shift_eq [of 4 "100 * c" y] mod_shift_eq [of 100 "4 * c" y] mod_shift_eq [of 400 c y]
  by (simp add: leap_year_def mult.commute)

text \<open>Inside a cycle of 400 years, \<open>q\<close> years into its \<open>c\<close>-th century.\<close>

lemma century:
  assumes "0 \<le> c" "c < 4" "0 \<le> q" "q < (100::int)"
  shows "leap_days (1999 + (100 * c + q)) =
      480 + 24 * c + (q + 3) div 4 - (if q = 0 then 0 else 1) + (if 100 * c + q = 0 then 4 else 5)"
    "leap_year (2000 + (100 * c + q)) \<longleftrightarrow> q mod 4 = 0 \<and> (q \<noteq> 0 \<or> c = 0)"
proof -
  have "(1999 + (100 * c + q)) div 4 = 499 + 25 * c + (q + 3) div 4"
    using div_shift_eq [of 4 "499 + 25 * c" "q + 3"] by (simp add: algebra_simps)
  moreover have "(1999 + (100 * c + q)) div 100 = 19 + c + (if q = 0 then 0 else 1)"
    using div_shift_eq [of 100 "19 + c" "99 + q"] div_ceiling [of 100 q] assms by (simp add: algebra_simps)
  moreover have "(1999 + (100 * c + q)) div 400 = 4 + (if 100 * c + q = 0 then 0 else 1)"
    using div_shift_eq [of 400 4 "399 + (100 * c + q)"] div_ceiling [of 400 "100 * c + q"] assms by (simp add: algebra_simps)
  ultimately show "leap_days (1999 + (100 * c + q)) =
      480 + 24 * c + (q + 3) div 4 - (if q = 0 then 0 else 1) + (if 100 * c + q = 0 then 4 else 5)"
    by (simp add: leap_days_def)
  have "(2000 + (100 * c + q)) mod 4 = q mod 4" using mod_shift_eq [of 4 "500 + 25 * c" q] by (simp add: algebra_simps)
  moreover have "(2000 + (100 * c + q)) mod 100 = q"
    using mod_shift_eq [of 100 "20 + c" q] assms by (simp add: algebra_simps)
  moreover have "(2000 + (100 * c + q)) mod 400 = 100 * c + q"
    using mod_shift_eq [of 400 5 "100 * c + q"] assms by (simp add: algebra_simps)
  ultimately show "leap_year (2000 + (100 * c + q)) \<longleftrightarrow> q mod 4 = 0 \<and> (q \<noteq> 0 \<or> c = 0)"
    using assms by (auto simp: leap_year_def)
qed

text \<open>Both branches of \<^verbatim>\<open>__yeartosecs\<close> agree with the calendar.\<close>

lemma yeartosecs_near:
  assumes "2 \<le> y" "y \<le> 138"
  shows "(y - 68) div 4 - (if (y - 68) mod 4 = 0 then 1 else 0) = leap_days (y + 1899) - 477"
    "(y - 68) mod 4 = 0 \<longleftrightarrow> leap_year (y + 1900)"
proof -
  have m: "(y - 68) mod 4 = y mod 4" using mod_shift_eq [of 4 "- 17" y] by simp
  have d: "(y - 68) div 4 = y div 4 - 17" using div_shift_eq [of 4 "- 17" y] by simp
  have e: "y div 4 - (if y mod 4 = 0 then 1 else 0) = (y - 1) div 4" using div_pred [of 4 y] by simp
  have "(y + 1899) div 4 = 475 + (y - 1) div 4" using div_shift_eq [of 4 475 "y - 1"] by simp
  moreover have "(y + 1899) div 100 - (y + 1899) div 400 = 15"
  proof (cases "y \<le> 100")
    case True
    have "(y + 1899) div 100 = 19" by (rule int_div_pos_eq [of _ _ _ "y - 1"]) (use assms True in auto)
    moreover have "(y + 1899) div 400 = 4" by (rule int_div_pos_eq [of _ _ _ "y + 299"]) (use assms True in auto)
    ultimately show ?thesis by simp
  next
    case False
    have "(y + 1899) div 100 = 20" by (rule int_div_pos_eq [of _ _ _ "y - 101"]) (use assms False in auto)
    moreover have "(y + 1899) div 400 = 5" by (rule int_div_pos_eq [of _ _ _ "y - 101"]) (use assms False in auto)
    ultimately show ?thesis by simp
  qed
  ultimately show "(y - 68) div 4 - (if (y - 68) mod 4 = 0 then 1 else 0) = leap_days (y + 1899) - 477"
    unfolding leap_days_def m d using e by linarith
  have "(y + 1900) mod 4 = y mod 4" using mod_shift_eq [of 4 475 y] by (simp add: add.commute)
  moreover have "(y + 1900) mod 100 = y mod 100" using mod_shift_eq [of 100 19 y] by (simp add: add.commute)
  moreover have "y mod 100 = 0 \<Longrightarrow> y = 100"
    using assms mod_pos_pos_trivial [of y 100] mod_shift_eq [of 100 1 "y - 100"] mod_pos_pos_trivial [of "y - 100" 100]
    by (cases "y < 100") auto
  ultimately show "(y - 68) mod 4 = 0 \<longleftrightarrow> leap_year (y + 1900)" unfolding leap_year_def m by auto
qed

lemma yeartosecs_correct:
  assumes "- (2 ^ 31) \<le> y" "y < 2 ^ 31"
  shows "yeartosecs y = (86400 * jan1 (y + 1900), leap_year (y + 1900))"
proof (cases "(y - 2) mod 2 ^ 32 \<le> 136")
  case True
  have "2 \<le> y"
  proof (rule ccontr)
    assume "\<not> 2 \<le> y"
    then have "(1 * 4294967296 + (y - 2)) mod 4294967296 = 1 * 4294967296 + (y - 2)"
      using assms(1) by (intro mod_pos_pos_trivial) auto
    then show False using True assms mod_shift_eq [of 4294967296 1 "y - 2"] by simp
  qed
  then have y: "2 \<le> y" "y \<le> 138" using True assms by (auto simp: mod_pos_pos_trivial)
  note n = yeartosecs_near [OF y]
  show ?thesis using True n by (auto simp: yeartosecs_def jan1_def Let_def algebra_simps split: if_splits)
next
  case False
  define c r where "c = (y - 100) div 400" and "r = (y - 100) mod 400"
  define k q where "k = r div 100" and "q = r mod 100"
  have r: "0 \<le> r" "r < 400" "y = 100 + 400 * c + r" by (simp_all add: r_def c_def)
  have "r = 100 * k + q" "0 \<le> q" "q < 100" by (simp_all add: k_def q_def)
  moreover from this have "0 \<le> k" "k < 4" using r(1,2) by linarith+
  ultimately have kq: "r = 100 * k + q" "0 \<le> q" "q < 100" "0 \<le> k" "k < 4" by blast+
  have split: "(if (y - 100) smod 400 < 0 then ((y - 100) sdiv 400 - 1, (y - 100) smod 400 + 400)
    else ((y - 100) sdiv 400, (y - 100) smod 400)) = (c, r)"
    unfolding c_def r_def by (rule sdiv_smod_pos) simp
  have cent: "(if r \<ge> 200 then if r \<ge> 300 then (3, r - 300) else (2, r - 200) else if r \<ge> 100 then (1, r - 100) else (0, r)) = (k, q)"
    using kq by (cases "k = 0"; cases "k = 1"; cases "k = 2"; cases "k = 3") auto
  have l: "leap_days (y + 1899) = 97 * c + leap_days (1999 + (100 * k + q))" "leap_year (y + 1900) = leap_year (2000 + (100 * k + q))"
    using leap_days_shift [of c "1999 + r"] leap_year_shift [of c "2000 + r"] r(3) kq(1) by (simp_all add: algebra_simps)
  note l = l [unfolded century [OF kq(4,5,2,3)]]
  have q4: "q \<noteq> 0 \<Longrightarrow> (q + 3) div 4 = q div 4 + (if q mod 4 = 0 then 0 else 1)"
    using div_pred [of 4 "q + 4"] div_shift_eq [of 4 1 "q"] mod_shift_eq [of 4 1 q] by (auto simp: add.commute)
  define lp where "lp = (if q mod 4 = 0 then 1 else (0::int))"
  have j: "jan1 (y + 1900) = 365 * (y - 70) + leap_days (y + 1899) - 477" by (simp add: jan1_def algebra_simps)
  have eq: "yeartosecs y =
    (if r = 0 then ((y - 100) * 31536000 + (97 * c - 1) * 86400 + 946684800 + 86400, True)
     else if q = 0 then ((y - 100) * 31536000 + (97 * c + 24 * k) * 86400 + 946684800 + 86400, False)
     else ((y - 100) * 31536000 + (q div 4 + 97 * c + 24 * k - lp) * 86400 + 946684800 + 86400, q mod 4 = 0))"
    using False unfolding yeartosecs_def Let_def split prod.case cent lp_def by simp
  consider "k = 0" "q = 0" "r = 0" | "k \<noteq> 0" "q = 0" "r \<noteq> 0" | "q \<noteq> 0" "r \<noteq> 0" using kq by linarith
  then show ?thesis
  proof cases
    case 3
    have "(q + 3) div 4 = q div 4 + 1 - lp" unfolding lp_def using q4 [OF 3(1)] by simp
    then have "leap_days (y + 1899) = 97 * c + 484 + 24 * k + q div 4 + 1 - lp" using l(1) 3 kq by simp
    then show ?thesis unfolding eq j using 3 l(2) by simp
  qed (use eq j l in \<open>simp_all\<close>)
qed

subsection \<open>From seconds to the calendar\<close>

lemma cycle_step_first: "0 < n \<Longrightarrow> cycle_step True n m d = (d div n, d mod n)"
  unfolding cycle_step_def Let_def using sdiv_smod_pos [of n d] by (simp only: minus_sdiv_mult_eq_smod not_True_eq_False simp_thms if_False)

text \<open>In the later rounds the last cycle is one day longer.\<close>

lemma cycle_step_cap:
  assumes "0 < n" "0 < m" "0 \<le> d" "d \<le> m * n"
  shows "\<exists>c r. cycle_step False n m d = (c, r) \<and> d = c * n + r \<and> 0 \<le> c \<and> c < m \<and> 0 \<le> r \<and> r \<le> n \<and> (c < m - 1 \<longrightarrow> r < n)"
proof -
  define q r where "q = d div n" and "r = d mod n"
  have s: "d sdiv n = q" using assms by (simp add: q_def signed_divide_int_def sgn_if pos_imp_zdiv_nonneg_iff)
  have q: "0 \<le> q" "0 \<le> r" "r < n" "d = q * n + r"
    using assms by (simp_all add: q_def r_def pos_imp_zdiv_nonneg_iff)
  show ?thesis
  proof (cases "q = m")
    case True
    then have d: "d = m * n + r" using q(4) by (simp only:)
    then have "r = 0" using q(2) assms(4) by linarith
    moreover have "d - (m - 1) * n = n" using d \<open>r = 0\<close> by (simp add: left_diff_distrib)
    ultimately have "cycle_step False n m d = (m - 1, n)" using True assms(1) by (simp add: cycle_step_def s)
    moreover have "d = (m - 1) * n + n" using \<open>d - (m - 1) * n = n\<close> by linarith
    ultimately show ?thesis using assms(1,2) by auto
  next
    case False
    have "q < m"
    proof (rule ccontr)
      assume "\<not> q < m"
      then have "(m + 1) * n \<le> q * n" using False assms(1) by (intro mult_right_mono) auto
      then have "m * n + n \<le> q * n" by (simp only: distrib_right mult_1)
      then show False using q(2,4) assms(1,4) by linarith
    qed
    moreover have "d - q * n = r" using q(4) by linarith
    then have "cycle_step False n m d = (q, r)" using False q(2) by (simp add: cycle_step_def s)
    ultimately show ?thesis using q by auto
  qed
qed

lemma month_loop_year:
  assumes "0 \<le> d" "d \<le> 365"
  shows "\<exists>m r. month_loop days_in_month 0 d = Some (m, r) \<and> 0 \<le> m \<and> m < 12 \<and> 0 \<le> r \<and> r < 31 \<and>
    (m < 10 \<longrightarrow> d < 306 \<and> monthtosecs (m + 2) lp = 86400 * (59 + (if lp then 1 else 0) + d - r)) \<and>
    (10 \<le> m \<longrightarrow> 306 \<le> d \<and> monthtosecs (m - 10) lp = 86400 * (d - r - 306))"
  using assms by (auto simp: days_in_month_def monthtosecs_def secs_through_month_def)

lemma march_year:
  fixes a b c e :: int
  assumes "0 \<le> b" "b < 4" "0 \<le> c" "c < 25" "0 \<le> e" "e < 4"
  defines "y \<equiv> 2000 + (400 * a + 100 * b + 4 * c + e)"
  shows "leap_days y = 485 + 97 * a + 24 * b + c"
    "leap_year y \<longleftrightarrow> e = 0 \<and> (c \<noteq> 0 \<or> b = 0)"
proof -
  have y: "y = 400 * a + (2000 + (100 * b + (4 * c + e)))" by (simp add: y_def)
  have q: "0 \<le> 4 * c + e" "4 * c + e < 100" using assms by auto
  have "(4 * c + e) mod 4 = e" using assms mod_shift_eq [of 4 c e] by (simp add: mult.commute)
  then show ly: "leap_year y \<longleftrightarrow> e = 0 \<and> (c \<noteq> 0 \<or> b = 0)"
    unfolding y leap_year_shift using century(2) [OF assms(1,2) q] assms(3,5) by auto
  have d: "(4 * c + e + 3) div 4 = c + (if e = 0 then 0 else 1)"
    using div_shift_eq [of 4 c "3 + e"] div_ceiling [of 4 e] assms by (simp add: algebra_simps)
  have "leap_days (y - 1) = 97 * a + leap_days (1999 + (100 * b + (4 * c + e)))"
    using leap_days_shift [of a "1999 + (100 * b + (4 * c + e))"] by (simp add: y algebra_simps)
  also have "\<dots> = 97 * a + (480 + 24 * b + (c + (if e = 0 then 0 else 1)) - (if 4 * c + e = 0 then 0 else 1) +
      (if 100 * b + (4 * c + e) = 0 then 4 else 5))"
    unfolding century(1) [OF assms(1,2) q] d by simp
  finally have "leap_days (y - 1) = 97 * a + (480 + 24 * b + (c + (if e = 0 then 0 else 1)) - (if 4 * c + e = 0 then 0 else 1) +
      (if 100 * b + (4 * c + e) = 0 then 4 else 5))" .
  moreover have "4 * c + e = 0 \<longleftrightarrow> c = 0 \<and> e = 0" "100 * b + (4 * c + e) = 0 \<longleftrightarrow> b = 0 \<and> c = 0 \<and> e = 0"
    using assms(1,3,5) by (intro iffI conjI; linarith)+
  ultimately show "leap_days y = 485 + 97 * a + 24 * b + c" unfolding leap_days_step [of y] ly by auto
qed

text \<open>The whole decomposition of a day number (counted from the first of March 2000).\<close>

lemma cycles_correct:
  assumes "- (2 ^ 31) \<le> D" "D < 2 ^ 31"
  shows "\<exists>a d0 b d1 c d2 e d3. cycle_step True 146097 0 D = (a, d0) \<and> cycle_step False 36524 4 d0 = (b, d1) \<and>
    cycle_step False 1461 25 d1 = (c, d2) \<and> cycle_step False 365 4 d2 = (e, d3) \<and>
    D = 146097 * a + 36524 * b + 1461 * c + 365 * e + d3 \<and> 0 \<le> d3 \<and> d3 \<le> 365 \<and>
    0 \<le> b \<and> b < 4 \<and> 0 \<le> c \<and> c < 25 \<and> 0 \<le> e \<and> e < 4"
proof -
  define a d0 where "a = D div 146097" and "d0 = D mod 146097"
  have f: "cycle_step True 146097 0 D = (a, d0)" unfolding a_def d0_def by (rule cycle_step_first) simp
  have D: "D = 146097 * a + d0" "0 \<le> d0" "d0 < 146097" by (simp_all add: a_def d0_def)
  obtain b d1 where b: "cycle_step False 36524 4 d0 = (b, d1)" "d0 = b * 36524 + d1" "0 \<le> b" "b < 4" "0 \<le> d1" "d1 \<le> 36524"
    using cycle_step_cap [of 36524 4 d0] D(2,3) by auto
  obtain c d2 where c: "cycle_step False 1461 25 d1 = (c, d2)" "d1 = c * 1461 + d2" "0 \<le> c" "c < 25" "0 \<le> d2" "d2 \<le> 1461" "c < 24 \<longrightarrow> d2 < 1461"
    using cycle_step_cap [of 1461 25 d1] b(5,6) by auto
  have "d2 \<le> 1460" using c b(6) by (cases "c = 24") auto
  then obtain e d3 where e: "cycle_step False 365 4 d2 = (e, d3)" "d2 = e * 365 + d3" "0 \<le> e" "e < 4" "0 \<le> d3" "d3 \<le> 365"
    using cycle_step_cap [of 365 4 d2] c(5) by auto
  have "D = 146097 * a + 36524 * b + 1461 * c + 365 * e + d3" using D(1) b(2) c(2) e(2) by linarith
  then show ?thesis using f b(1,3,4) c(1,3,4) e(1,3-6) by blast
qed

lemma to_long_id: "- (2 ^ 31) \<le> x \<Longrightarrow> x < 2 ^ 31 \<Longrightarrow> to_long x = x"
  by (simp add: to_long_def mod_pos_pos_trivial)

lemma smod_7: "(let w = x smod 7 in if w < 0 then w + 7 else w) = (x :: int) mod 7"
  using sdiv_smod_pos [of 7 x] by (simp add: Let_def split: if_splits)

lemma secstotm_correct:
  fixes t :: int
  defines "D \<equiv> (t - LEAPOCH) div SECS_PER_DAY" and "S \<equiv> (t - LEAPOCH) mod SECS_PER_DAY"
  assumes "- (2 ^ 31) \<le> D" "D < 2 ^ 31"
  shows "\<exists>y mon yday mday. (\<forall>tm. secstotm t tm = Some (Some (tm\<lparr>tm_hour := S div 3600, tm_min := S div 60 mod 60, tm_sec := S mod 60,
            tm_year := y, tm_yday := yday, tm_mon := mon, tm_mday := mday, tm_wday := (3 + D) mod 7\<rparr>))) \<and>
    0 \<le> mon \<and> mon < 12 \<and> 1 \<le> mday \<and> mday \<le> 31 \<and> - (2 ^ 31) \<le> y \<and> y < 2 ^ 31 \<and>
    jan1 (y + 1900) + yday = D + 11017 \<and> 0 \<le> yday \<and> yday < 366 \<and>
    monthtosecs mon (leap_year (y + 1900)) + 86400 * (mday - 1) = 86400 * yday"
proof -
  have dm: "(if (t - LEAPOCH) smod SECS_PER_DAY < 0 then ((t - LEAPOCH) smod SECS_PER_DAY + SECS_PER_DAY, (t - LEAPOCH) sdiv SECS_PER_DAY - 1)
    else ((t - LEAPOCH) smod SECS_PER_DAY, (t - LEAPOCH) sdiv SECS_PER_DAY)) = (S, D)"
    using sdiv_smod_pos [of SECS_PER_DAY "t - LEAPOCH"] unfolding D_def S_def by (simp split: if_splits)
  have S: "0 \<le> S" "S < 86400" "t = LEAPOCH + 86400 * D + S" by (simp_all add: S_def D_def)
  have rng: "\<not> (t < - (2 ^ 31) * 31622400 \<or> t > (2 ^ 31 - 1) * 31622400)" using S assms(3,4) by simp
  obtain a d0 b d1 c d2 e d where cy: "cycle_step True 146097 0 D = (a, d0)" "cycle_step False 36524 4 d0 = (b, d1)"
    "cycle_step False 1461 25 d1 = (c, d2)" "cycle_step False 365 4 d2 = (e, d)"
    "D = 146097 * a + 36524 * b + 1461 * c + 365 * e + d" "0 \<le> d" "d \<le> 365"
    and bce: "0 \<le> b" "b < 4" "0 \<le> c" "c < 25" "0 \<le> e" "e < 4"
    using cycles_correct [OF assms(3,4)] by blast
  define Y where "Y = 2000 + (400 * a + 100 * b + 4 * c + e)"
  note my = march_year [OF bce, of a, folded Y_def]
  define lp where "lp = (if e = 0 \<and> (c \<noteq> 0 \<or> b = 0) then 1 else (0::int))"
  have lpY: "(if leap_year Y then 1 else 0) = lp" unfolding my(2) lp_def by simp
  have j: "jan1 (Y + 1) = 365 * (Y - 1969) + leap_days Y - 477" "jan1 Y = 365 * (Y - 1970) + leap_days Y - lp - 477"
    using leap_days_step [of Y] lpY by (simp_all add: jan1_def)
  obtain m r where m: "month_loop days_in_month 0 d = Some (m, r)" "0 \<le> m" "m < 12" "0 \<le> r" "r < 31"
    "m < 10 \<longrightarrow> d < 306 \<and> monthtosecs (m + 2) (leap_year Y) = 86400 * (59 + (if leap_year Y then 1 else 0) + d - r)"
    using month_loop_year [OF cy(6,7), of "leap_year Y"] by blast
  have m10: "10 \<le> m \<longrightarrow> 306 \<le> d \<and> monthtosecs (m - 10) (leap_year (Y + 1)) = 86400 * (d - r - 306)"
    using month_loop_year [OF cy(6,7), of "leap_year (Y + 1)"] m(1) by auto
  have Yr: "- (2 ^ 31) \<le> Y - 1900" "Y - 1899 < 2 ^ 31"
    using cy(5-7) bce assms(3,4) unfolding Y_def by simp_all
  define yday where "yday = (if d + 31 + 28 + lp \<ge> 365 + lp then d + 31 + 28 + lp - (365 + lp) else d + 31 + 28 + lp)"
  have res: "secstotm t tm = Some (Some (tm\<lparr>tm_hour := S div 3600, tm_min := S div 60 mod 60, tm_sec := S mod 60,
      tm_year := (if m + 2 \<ge> 12 then Y - 1899 else Y - 1900), tm_yday := yday, tm_mon := (if m + 2 \<ge> 12 then m - 10 else m + 2),
      tm_mday := r + 1, tm_wday := (3 + D) mod 7\<rparr>))" for tm
    unfolding secstotm_def Let_def dm prod.case if_not_P [OF rng] to_long_id [OF assms(3,4)] cy(1-4) lp_def [symmetric] yday_def [symmetric] m(1)
    by (simp add: Y_def smod_7 [unfolded Let_def])
  have lp01: "0 \<le> lp" "lp \<le> 1" by (simp_all add: lp_def)
  show ?thesis
  proof (cases "m < 10")
    case True
    then have yd: "yday = d + 59 + lp" using m(6) by (simp add: yday_def)
    have 1: "jan1 (Y - 1900 + 1900) + yday = D + 11017" unfolding diff_add_cancel yd j(2) my(1) cy(5) by (simp add: Y_def)
    have 2: "monthtosecs (m + 2) (leap_year (Y - 1900 + 1900)) + 86400 * (r + 1 - 1) = 86400 * yday"
      using True m(6) lpY unfolding diff_add_cancel yd by simp
    have 3: "d < 306" "\<not> 12 \<le> m + 2" using True m(6) by simp_all
    show ?thesis
      by (rule exI [of _ "Y - 1900"], rule exI [of _ "m + 2"], rule exI [of _ yday], rule exI [of _ "r + 1"], intro conjI)
        (rule allI res [unfolded if_not_P [OF 3(2)]] 1 2 | use m(2-5) 3 Yr yd lp01 cy(6) in linarith)+
  next
    case False
    then have yd: "yday = d - 306" using m10 by (simp add: yday_def)
    have e: "Y - 1899 + 1900 = Y + 1" by simp
    have 1: "jan1 (Y - 1899 + 1900) + yday = D + 11017" unfolding e yd j(1) my(1) cy(5) by (simp add: Y_def)
    have 2: "monthtosecs (m - 10) (leap_year (Y - 1899 + 1900)) + 86400 * (r + 1 - 1) = 86400 * yday"
      using False m10 unfolding e yd by simp
    have 3: "306 \<le> d" "12 \<le> m + 2" using False m10 by simp_all
    show ?thesis
      by (rule exI [of _ "Y - 1899"], rule exI [of _ "m - 10"], rule exI [of _ yday], rule exI [of _ "r + 1"], intro conjI)
        (rule allI res [unfolded if_P [OF 3(2)]] 1 2 | use m(2-5) 3 Yr yd cy(7) in linarith)+
  qed
qed

subsection \<open>Properties\<close>

text \<open>C39: For every time whose day number fits in a 32-bit \<^verbatim>\<open>long\<close>, \<^verbatim>\<open>gmtime_r\<close> returns fields in their
  ranges, the day of the week is right, the day of the year counts from the first of January of
  the year in the Gregorian calendar, and \<^verbatim>\<open>mktime\<close> on the fields gives the time back.\<close>

theorem gmtime_mktime_roundtrip:
  assumes "- (2 ^ 31) \<le> (t - LEAPOCH) div SECS_PER_DAY" "(t - LEAPOCH) div SECS_PER_DAY < 2 ^ 31"
  shows "\<exists>tm'. gmtime_r t tm = Some (Some tm') \<and> mktime tm' = Some (Some (t, tm')) \<and>
    0 \<le> tm_mon tm' \<and> tm_mon tm' < 12 \<and> 1 \<le> tm_mday tm' \<and> tm_mday tm' \<le> 31 \<and>
    0 \<le> tm_hour tm' \<and> tm_hour tm' < 24 \<and> 0 \<le> tm_min tm' \<and> tm_min tm' < 60 \<and> 0 \<le> tm_sec tm' \<and> tm_sec tm' < 60 \<and>
    tm_wday tm' = (4 + t div 86400) mod 7 \<and> jan1 (tm_year tm' + 1900) + tm_yday tm' = t div 86400"
proof -
  define D S where "D = (t - LEAPOCH) div SECS_PER_DAY" and "S = (t - LEAPOCH) mod SECS_PER_DAY"
  have S: "0 \<le> S" "S < 86400" "t = LEAPOCH + 86400 * D + S" by (simp_all add: S_def D_def)
  have td: "t div 86400 = D + 11017" using S by (intro int_div_pos_eq [of _ _ _ S]) auto
  define h mi se w where "h = S div 3600" and "mi = S div 60 mod 60" and "se = S mod 60" and "w = (3 + D) mod 7"
  obtain y mon yday mday where r: "\<And>tm. secstotm t tm = Some (Some (tm\<lparr>tm_hour := h, tm_min := mi,
      tm_sec := se, tm_year := y, tm_yday := yday, tm_mon := mon, tm_mday := mday, tm_wday := w\<rparr>))"
    "0 \<le> mon" "mon < 12" "1 \<le> mday" "mday \<le> 31" "- (2 ^ 31) \<le> y" "y < 2 ^ 31"
    "jan1 (y + 1900) + yday = D + 11017"
    "monthtosecs mon (leap_year (y + 1900)) + 86400 * (mday - 1) = 86400 * yday"
    using secstotm_correct [of t, folded D_def S_def, folded h_def mi_def se_def w_def] assms [folded D_def] by blast
  define tm' where "tm' = tm\<lparr>tm_hour := h, tm_min := mi, tm_sec := se, tm_year := y, tm_yday := yday,
    tm_mon := mon, tm_mday := mday, tm_wday := w, tm_isdst := 0\<rparr>"
  have g: "gmtime_r t tm = Some (Some tm')" unfolding gmtime_r_def r(1) tm'_def Option.bind.bind_lunit option.case ..
  have h: "h = S div 60 div 60" using zdiv_zmult2_eq [of 60 S 60] by (simp add: h_def)
  have day: "3600 * h + 60 * mi + se = S"
  proof -
    define q where "q = S div 60"
    have "60 * q + se = S" "60 * h + mi = q" unfolding h q_def se_def mi_def by (rule mult_div_mod_eq)+
    then show ?thesis by simp
  qed
  have "tmtosecs tm' = 86400 * jan1 (y + 1900) + monthtosecs mon (leap_year (y + 1900)) + 86400 * (mday - 1) + 3600 * h + 60 * mi + se"
    using r(2,3) yeartosecs_correct [OF r(6,7)] by (simp add: tmtosecs_def tm'_def)
  also have "\<dots> = t" using r(8,9) day S(3) by linarith
  finally have k: "mktime tm' = Some (Some (t, tm'))" by (simp add: mktime_def timegm_def Let_def r(1) tm'_def)
  have "0 \<le> mi" "mi < 60" "0 \<le> se" "se < 60" by (simp_all add: mi_def se_def)
  moreover have "0 \<le> h" "h < 24" using day S(1,2) \<open>0 \<le> mi\<close> \<open>mi < 60\<close> \<open>0 \<le> se\<close> \<open>se < 60\<close> by linarith+
  moreover have "w = (4 + (D + 11017)) mod 7" unfolding w_def using mod_shift_eq [of 7 1574 "3 + D"] by (simp add: algebra_simps)
  ultimately show ?thesis unfolding td using g k r(2-5,8) by (intro exI [of _ tm'] conjI) (simp_all add: tm'_def)
qed

definition epoch :: tm where
  "epoch = \<lparr>tm_sec = 0, tm_min = 0, tm_hour = 0, tm_mday = 1, tm_mon = 0, tm_year = 70, tm_wday = 4, tm_yday = 0, tm_isdst = 0\<rparr>"

theorem gmtime_mktime_roundtrip_witness:
  "\<exists>tm'. gmtime_r 1700000000 epoch = Some (Some tm') \<and> mktime tm' = Some (Some (1700000000, tm'))"
  using gmtime_mktime_roundtrip [of 1700000000 epoch] by auto

end
