(* ===== verification/Mmu.thy ===== *)
theory Mmu
  imports Pages
begin

section \<open>Page tables of the i386 port (\<^verbatim>\<open>arch/i386/boot/mmu.c\<close>)\<close>

text \<open>
  The two-level page tables, seen through the recursive mapping of the current directory: the
  directory entries at \<^verbatim>\<open>0xFFFFF000\<close>, those of the kernel directory at \<^verbatim>\<open>0xFFBFF000\<close>, and the
  table entries at \<^verbatim>\<open>0xFFC00000\<close>, each indexed by a number. Pages come from the model of the
  page allocator; \<open>None\<close> is a failed assertion or an allocation that never returns. The TLB
  flushes and the load of CR3 have no effect on this state.

  The directory of a user space is current, and addresses are those below \<^verbatim>\<open>0xFF800000\<close>: the two tables above are the windows themselves,
  where the entries of the kernel directory and of the current directory appear a second time as table entries. Both kinds
  of space end at \<^verbatim>\<open>0xFF000000\<close> or below, so only a range accepted beyond the end of its space reaches the windows; what the
  code does to them then is not modelled.
\<close>

unbundle bit_operations_syntax

subsection \<open>Model\<close>

record mmu =
  mmu_dir :: "nat \<Rightarrow> u32"
  mmu_krn :: "nat \<Rightarrow> u32"
  mmu_tbl :: "nat \<Rightarrow> u32"

abbreviation VM_EX :: u32 where "VM_EX \<equiv> 1"
abbreviation VM_WR :: u32 where "VM_WR \<equiv> 2"
abbreviation VM_RD :: u32 where "VM_RD \<equiv> 4"
abbreviation VM_RX :: u32 where "VM_RX \<equiv> 5"
abbreviation VM_RW :: u32 where "VM_RW \<equiv> 6"
abbreviation VM_RWX :: u32 where "VM_RWX \<equiv> 7"
abbreviation VM_UNCACHABLE :: u32 where "VM_UNCACHABLE \<equiv> 0x100"

abbreviation PG_PRESENT :: u32 where "PG_PRESENT \<equiv> 0x001"
abbreviation PG_WRITABLE :: u32 where "PG_WRITABLE \<equiv> 0x002"
abbreviation PG_USERMODE :: u32 where "PG_USERMODE \<equiv> 0x004"
abbreviation PG_PCD :: u32 where "PG_PCD \<equiv> 0x010"
abbreviation PG_GLOBAL :: u32 where "PG_GLOBAL \<equiv> 0x100"

abbreviation MMU_BOUND_ULOWER :: u32 where "MMU_BOUND_ULOWER \<equiv> 0x00400000"
abbreviation MMU_BOUND_UUPPER :: u32 where "MMU_BOUND_UUPPER \<equiv> 0xC0000000"
abbreviation MMU_BOUND_KLOWER :: u32 where "MMU_BOUND_KLOWER \<equiv> 0xC0000000"
abbreviation MMU_BOUND_KUPPER :: u32 where "MMU_BOUND_KUPPER \<equiv> 0xFF000000"

text \<open>The indices behind the macros \<^verbatim>\<open>MMU_DIR\<close>, \<^verbatim>\<open>MMU_KRN\<close> and \<^verbatim>\<open>MMU_TBL\<close>.\<close>

definition dir_index :: "size_t \<Rightarrow> nat" where
  "dir_index vaddr = unat (drop_bit 22 vaddr)"

definition tbl_index :: "size_t \<Rightarrow> nat" where
  "tbl_index vaddr = unat (drop_bit 12 vaddr)"

definition frame_of :: "u32 \<Rightarrow> u32" where
  "frame_of e = e AND NOT 0xFFF"

definition mmu_flags :: "size_t \<Rightarrow> u32 \<Rightarrow> u32" where
  "mmu_flags vaddr flags =
     PG_PRESENT OR (if flags AND VM_WR \<noteq> 0 then PG_WRITABLE else 0) OR
     (if vaddr < MMU_BOUND_KLOWER then PG_USERMODE else PG_GLOBAL) OR
     (if flags AND VM_UNCACHABLE \<noteq> 0 then PG_PCD else 0)"

definition mapped :: "size_t \<Rightarrow> mmu \<Rightarrow> bool" where
  "mapped vaddr mm \<longleftrightarrow> \<not> (mmu_dir mm (dir_index vaddr) AND 1 = 0 \<or> mmu_tbl mm (tbl_index vaddr) AND 1 = 0)"

definition mmu_protect :: "size_t \<Rightarrow> u32 \<Rightarrow> mmu \<Rightarrow> size_t \<times> mmu" where
  "mmu_protect vaddr flags mm =
     (if \<not> mapped vaddr mm then (0, mm)
      else let pg = frame_of (mmu_tbl mm (tbl_index vaddr))
           in (pg, mm\<lparr>mmu_tbl := (mmu_tbl mm)(tbl_index vaddr := pg OR mmu_flags vaddr flags)\<rparr>))"

definition mmu_read :: "size_t \<Rightarrow> mmu \<Rightarrow> size_t" where
  "mmu_read vaddr mm = (if \<not> mapped vaddr mm then 0 else frame_of (mmu_tbl mm (tbl_index vaddr)))"

definition mmu_drop :: "size_t \<Rightarrow> mmu \<Rightarrow> size_t \<times> mmu" where
  "mmu_drop vaddr mm =
     (if \<not> mapped vaddr mm then (0, mm)
      else let pg = frame_of (mmu_tbl mm (tbl_index vaddr))
           in (pg, mm\<lparr>mmu_tbl := (mmu_tbl mm)(tbl_index vaddr := 0)\<rparr>))"

text \<open>Three functions of this port are stubs.\<close>

definition mmu_set :: "size_t \<Rightarrow> size_t \<Rightarrow> size_t \<Rightarrow> u32 \<Rightarrow> mmu \<Rightarrow> size_t \<times> mmu" where
  "mmu_set directory vaddr phys flags mm = (0, mm)"

definition mmu_dirty :: "size_t \<Rightarrow> mmu \<Rightarrow> bool" where
  "mmu_dirty vaddr mm = False"

definition mmu_read_flags :: "size_t \<Rightarrow> mmu \<Rightarrow> u32" where
  "mmu_read_flags vaddr mm = 0"

text \<open>\<^verbatim>\<open>memset\<close> over the table that holds the entry of an address.\<close>

definition clear_table :: "size_t \<Rightarrow> (nat \<Rightarrow> u32) \<Rightarrow> nat \<Rightarrow> u32" where
  "clear_table vaddr tbl = (\<lambda>k. if k div 1024 = dir_index vaddr then 0 else tbl k)"

text \<open>The first part of \<^verbatim>\<open>mmu_resolve\<close>: a missing table is created, or linked from the kernel directory.\<close>

definition resolve_dir :: "size_t \<Rightarrow> mmu \<Rightarrow> kmmu \<Rightarrow> (nat \<times> mmu \<times> kmmu) option" where
  "resolve_dir vaddr mm km =
     (let i = dir_index vaddr in
      if mmu_dir mm i \<noteq> 0 then Some (0, mm, km)
      else if vaddr \<ge> MMU_BOUND_KLOWER then
        if mmu_krn mm i = 0 then do {
          (pg, km) \<leftarrow> page_new km;
          let e = pg OR (PG_PRESENT OR PG_WRITABLE OR PG_GLOBAL);
          Some (1, mm\<lparr>mmu_krn := (mmu_krn mm)(i := e), mmu_dir := (mmu_dir mm)(i := e),
                     mmu_tbl := clear_table vaddr (mmu_tbl mm)\<rparr>, km) }
        else Some (0, mm\<lparr>mmu_dir := (mmu_dir mm)(i := mmu_krn mm i)\<rparr>, km)
      else do {
        (pgd, km) \<leftarrow> page_new km;
        Some (1, mm\<lparr>mmu_dir := (mmu_dir mm)(i := pgd OR (PG_PRESENT OR PG_WRITABLE OR PG_USERMODE)),
                   mmu_tbl := clear_table vaddr (mmu_tbl mm)\<rparr>, km) })"

definition mmu_resolve :: "size_t \<Rightarrow> size_t \<Rightarrow> u32 \<Rightarrow> mmu \<Rightarrow> kmmu \<Rightarrow> (nat \<times> mmu \<times> kmmu) option" where
  "mmu_resolve vaddr phys flags mm km =
     do { (pages, mm, km) \<leftarrow> resolve_dir vaddr mm km;
          let t = tbl_index vaddr;
          if mmu_tbl mm t = 0 then do {
            (pages, phys, km) \<leftarrow> (if phys = 0 then do { (pg, km) \<leftarrow> page_new km; Some (pages + 1, pg, km) }
                                  else Some (pages, phys, km));
            Some (pages, mm\<lparr>mmu_tbl := (mmu_tbl mm)(t := phys OR mmu_flags vaddr flags)\<rparr>, km) }
          else if vaddr \<ge> MMU_BOUND_KLOWER then Some (pages, mm, km)
          else None }"

definition mmu_ktables :: "size_t \<Rightarrow> mmu \<Rightarrow> kmmu \<Rightarrow> (mmu \<times> kmmu) option" where
  "mmu_ktables vaddr mm km =
     (if \<not> (vaddr \<ge> MMU_BOUND_KLOWER \<and> vaddr < MMU_BOUND_KUPPER) then None
      else
        let i = dir_index vaddr in do {
          (mm, km) \<leftarrow> (if mmu_krn mm i = 0 then do {
              (pg, km) \<leftarrow> page_new km;
              Some (mm\<lparr>mmu_krn := (mmu_krn mm)(i := pg OR (PG_PRESENT OR PG_WRITABLE OR PG_GLOBAL))\<rparr>, km) }
            else Some (mm, km));
          Some (if mmu_dir mm i = 0 then mm\<lparr>mmu_dir := (mmu_dir mm)(i := mmu_krn mm i)\<rparr> else mm, km) })"

text \<open>The directory that \<^verbatim>\<open>mmu_create_uspace\<close> builds in a new page, with the page.\<close>

definition uspace_dir :: "size_t \<Rightarrow> mmu \<Rightarrow> nat \<Rightarrow> u32" where
  "uspace_dir dir_pg mm =
     (\<lambda>i. if dir_index MMU_BOUND_KLOWER \<le> i \<and> i < dir_index MMU_BOUND_KUPPER then mmu_krn mm i
          else if i = 0 then 0x3000 OR (PG_PRESENT OR PG_WRITABLE OR PG_GLOBAL)
          else if i = 1022 then 0x2000 OR (PG_PRESENT OR PG_WRITABLE OR PG_GLOBAL)
          else if i = 1023 then dir_pg OR (PG_PRESENT OR PG_WRITABLE OR PG_GLOBAL)
          else 0)"

text \<open>The tables of the user part are released with the flag bits of their entries as address.\<close>

fun release_tables :: "(nat \<Rightarrow> u32) \<Rightarrow> nat list \<Rightarrow> kmmu \<Rightarrow> (nat \<times> kmmu) option" where
  "release_tables dir [] km = Some (0, km)"
| "release_tables dir (i # is) km =
     (if dir i \<noteq> 0 then do {
        km \<leftarrow> page_release (dir i AND 0xFFF) km;
        (n, km) \<leftarrow> release_tables dir is km;
        Some (Suc n, km) }
      else release_tables dir is km)"

definition mmu_destroy_uspace :: "size_t \<Rightarrow> (nat \<Rightarrow> u32) \<Rightarrow> kmmu \<Rightarrow> (nat \<times> kmmu) option" where
  "mmu_destroy_uspace dir_pg dir km =
     do { (n, km) \<leftarrow> release_tables dir [dir_index MMU_BOUND_ULOWER ..< dir_index MMU_BOUND_UUPPER] km;
          km \<leftarrow> page_release dir_pg km;
          Some (n, km) }"

text \<open>The tables set up at boot: the kernel directory and the identity map of the first 4 MiB.\<close>

definition x86_paging :: "(nat \<Rightarrow> u32) \<times> (nat \<Rightarrow> u32)" where
  "x86_paging =
     ((\<lambda>i. if i = 0 then 0x3000 OR (PG_PRESENT OR PG_WRITABLE OR PG_GLOBAL)
           else if i = 1022 \<or> i = 1023 then 0x2000 OR (PG_PRESENT OR PG_WRITABLE OR PG_GLOBAL) else 0),
      (\<lambda>i. push_bit 12 (of_nat i) OR (PG_PRESENT OR PG_WRITABLE OR PG_GLOBAL)))"

subsection \<open>Translation\<close>

lemma tbl_dir_index: "tbl_index v div 1024 = dir_index v"
  by (simp add: tbl_index_def dir_index_def drop_bit_eq_div unat_div div_mult2_eq [symmetric])

lemma mmu_flags_bits: "mmu_flags v flags AND NOT 0xFFF = 0" "mmu_flags v flags AND 1 = 1"
  by (simp_all add: mmu_flags_def bit.conj_disj_distrib2)

lemma entry_bits:
  assumes "frame_of phys = phys"
  shows "frame_of (phys OR mmu_flags v flags) = phys" "(phys OR mmu_flags v flags) AND 1 \<noteq> 0" "phys OR mmu_flags v flags \<noteq> 0"
proof -
  show "frame_of (phys OR mmu_flags v flags) = phys"
    using assms mmu_flags_bits(1) by (simp add: frame_of_def bit.conj_disj_distrib2)
  have "bit (mmu_flags v flags AND 1) 0" unfolding mmu_flags_bits(2) by (simp add: bit_simps)
  then have "bit ((phys OR mmu_flags v flags) AND 1) 0" by (simp add: bit_simps)
  then show "(phys OR mmu_flags v flags) AND 1 \<noteq> 0" by force
  then show "phys OR mmu_flags v flags \<noteq> 0" by auto
qed

lemma present_entry: "(pg OR (PG_PRESENT OR PG_WRITABLE OR x)) AND 1 \<noteq> (0 :: u32)"
proof -
  have "bit ((pg OR (PG_PRESENT OR PG_WRITABLE OR x)) AND 1) 0" by (simp add: bit_simps)
  then show ?thesis by force
qed

text \<open>Creating the missing table of a user address changes no translation.\<close>

lemma resolve_dir_user:
  assumes "vaddr < MMU_BOUND_KLOWER" "mm_ok km" "mm_free km \<noteq> {}"
    "mmu_dir mm (dir_index vaddr) = 0 \<or> mmu_dir mm (dir_index vaddr) AND 1 \<noteq> 0"
  shows "\<exists>n mm1 km1. resolve_dir vaddr mm km = Some (n, mm1, km1) \<and> mm_ok km1 \<and>
    mmu_dir mm1 (dir_index vaddr) AND 1 \<noteq> 0 \<and> (\<forall>v. mmu_read v mm1 = mmu_read v mm) \<and>
    (mmu_read vaddr mm = 0 \<longrightarrow> mmu_dir mm (dir_index vaddr) = 0 \<longrightarrow> mmu_tbl mm1 (tbl_index vaddr) = 0) \<and>
    (mmu_dir mm (dir_index vaddr) \<noteq> 0 \<longrightarrow> mm1 = mm)"
proof (cases "mmu_dir mm (dir_index vaddr) = 0")
  case True
  obtain f km1 where f: "page_new km = Some (frame_addr f, km1)" "mm_ok km1"
    using pages.alloc_free [OF assms(2,3)] by blast
  let ?e = "frame_addr f OR (PG_PRESENT OR PG_WRITABLE OR PG_USERMODE)"
  let ?mm = "mm\<lparr>mmu_dir := (mmu_dir mm)(dir_index vaddr := ?e), mmu_tbl := clear_table vaddr (mmu_tbl mm)\<rparr>"
  have r: "resolve_dir vaddr mm km = Some (1, ?mm, km1)"
    using True assms(1) f by (simp add: resolve_dir_def Let_def not_le [symmetric])
  have "mmu_read v ?mm = mmu_read v mm" for v
    using True by (cases "dir_index v = dir_index vaddr") (auto simp: mmu_read_def mapped_def clear_table_def tbl_dir_index)
  then show ?thesis using r f(2) present_entry [of "frame_addr f" PG_USERMODE] True
    by (intro exI [of _ 1] exI [of _ ?mm] exI [of _ km1]) (simp add: clear_table_def tbl_dir_index)
next
  case False
  then show ?thesis using assms by (simp add: resolve_dir_def Let_def)
qed

subsection \<open>Properties\<close>

text \<open>C24: For a user address whose page is missing, \<^verbatim>\<open>mmu_resolve\<close> with a given frame returns as long as a frame is free for
  the table. The address then translates to the given frame with the access that was asked for. \<^verbatim>\<open>mmu_protect\<close> keeps the frame
  and sets the new access, and \<^verbatim>\<open>mmu_drop\<close> returns the frame and makes the page missing again. Each of the three acts on that page alone:
  every other page below the windows on the tables translates as before.\<close>

theorem mmu_resolve_translates:
  assumes "vaddr < MMU_BOUND_KLOWER" "mm_ok km" "mm_free km \<noteq> {}" "phys \<noteq> 0" "frame_of phys = phys"
    "mmu_dir mm (dir_index vaddr) = 0 \<or> mmu_dir mm (dir_index vaddr) AND 1 \<noteq> 0 \<and> mmu_tbl mm (tbl_index vaddr) = 0"
  shows "\<exists>n mm' km' mp md. mmu_resolve vaddr phys flags mm km = Some (n, mm', km') \<and> mm_ok km' \<and>
    mmu_read vaddr mm' = phys \<and> mmu_tbl mm' (tbl_index vaddr) = phys OR mmu_flags vaddr flags \<and>
    mmu_protect vaddr prot mm' = (phys, mp) \<and> mmu_read vaddr mp = phys \<and> mmu_tbl mp (tbl_index vaddr) = phys OR mmu_flags vaddr prot \<and>
    mmu_drop vaddr mm' = (phys, md) \<and> mmu_read vaddr md = 0 \<and>
    (\<forall>v<0xFF800000. tbl_index v \<noteq> tbl_index vaddr \<longrightarrow>
      mmu_read v mm' = mmu_read v mm \<and> mmu_read v mp = mmu_read v mm \<and> mmu_read v md = mmu_read v mm)"
proof -
  have missing: "mmu_read vaddr mm = 0" using assms(6) by (auto simp: mmu_read_def mapped_def)
  obtain n mm1 km1 where d: "resolve_dir vaddr mm km = Some (n, mm1, km1)" "mm_ok km1"
    "mmu_dir mm1 (dir_index vaddr) AND 1 \<noteq> 0" "\<forall>v. mmu_read v mm1 = mmu_read v mm"
    "mmu_dir mm (dir_index vaddr) = 0 \<longrightarrow> mmu_tbl mm1 (tbl_index vaddr) = 0" "mmu_dir mm (dir_index vaddr) \<noteq> 0 \<longrightarrow> mm1 = mm"
    using resolve_dir_user [OF assms(1-3), of mm] assms(6) missing by blast
  have t: "mmu_tbl mm1 (tbl_index vaddr) = 0" using d(5,6) assms(6) by auto
  define put where "put e = mm1\<lparr>mmu_tbl := (mmu_tbl mm1)(tbl_index vaddr := e)\<rparr>" for e
  let ?mm = "put (phys OR mmu_flags vaddr flags)"
  have r: "mmu_resolve vaddr phys flags mm km = Some (n, ?mm, km1)"
    using d(1) t assms(4) by (simp add: mmu_resolve_def put_def)
  note e = entry_bits [OF assms(5), of vaddr]
  have m: "mapped vaddr (put (phys OR mmu_flags vaddr x))" for x using d(3) e(2) by (simp add: mapped_def put_def)
  then have rd: "mmu_read vaddr (put (phys OR mmu_flags vaddr x)) = phys" for x using e(1) by (simp add: mmu_read_def put_def)
  have other: "mmu_read v (put x) = mmu_read v mm" if "tbl_index v \<noteq> tbl_index vaddr" for v x
    using that d(4) [rule_format, of v, symmetric] by (simp only:) (simp add: mmu_read_def mapped_def put_def)
  have pr: "mmu_protect vaddr prot ?mm = (phys, put (phys OR mmu_flags vaddr prot))" and dr: "mmu_drop vaddr ?mm = (phys, put 0)"
    using m e(1) by (simp_all add: mmu_protect_def mmu_drop_def put_def)
  have "mmu_read vaddr (put 0) = 0" by (simp add: mmu_read_def mapped_def put_def)
  moreover have "mmu_tbl (put x) (tbl_index vaddr) = x" for x by (simp add: put_def)
  ultimately show ?thesis using r d(2) rd other pr dr by blast
qed

definition empty_mmu :: mmu where
  "empty_mmu = \<lparr>mmu_dir = (\<lambda>_. 0), mmu_krn = (\<lambda>_. 0), mmu_tbl = (\<lambda>_. 0)\<rparr>"

theorem mmu_resolve_translates_witness:
  "\<exists>n mm' km'. mmu_resolve 0x500000 0x7000 VM_RW empty_mmu two_pages = Some (n, mm', km') \<and> mmu_read 0x500000 mm' = 0x7000"
  using mmu_resolve_translates [where vaddr = "0x500000" and km = two_pages and phys = "0x7000" and mm = empty_mmu and flags = VM_RW and prot = VM_RD] by (auto simp: frame_of_def empty_mmu_def)

lemma release_tables_noop:
  assumes "\<And>mz. mz \<in> set (lzone km) \<Longrightarrow> \<not> in_zone 0 mz"
  shows "\<exists>n. release_tables dir is km = Some (n, km)"
proof -
  have z: "page_release_zones 0 zs = Some (False, zs)" if "\<And>mz. mz \<in> set zs \<Longrightarrow> \<not> in_zone 0 mz" for zs
    using that by (induction zs) auto
  have "uint (w AND 0xFFF) < PAGE_SIZE" for w :: u32 using word_and_le1 [of w "0xFFF"] by (simp add: word_le_def)
  then have "uint (w AND 0xFFF) div PAGE_SIZE = 0" for w :: u32
    by (intro div_pos_pos_trivial) auto
  then have "page_release (w AND 0xFFF) km = Some km" for w :: u32
    using z [of "lzone km"] assms by (simp add: page_release_def)
  then show ?thesis by (induction "is") auto
qed

text \<open>\<^verbatim>\<open>mmu_destroy_uspace\<close> frees none of the page tables of the user part: it passes the flag bits
  of each directory entry, not its frame, to \<^verbatim>\<open>page_release\<close>. When no managed page is the first
  one, every table stays allocated and only the page of the directory is given back.\<close>

theorem mmu_destroy_leaks_tables:
  assumes "mm_ok km" "\<forall>mz \<in> set (lzone km). \<not> in_zone 0 mz" "dir_pg = frame_addr f" "f \<in> mm_frames km - mm_free km"
  shows "\<exists>n km'. mmu_destroy_uspace dir_pg dir km = Some (n, km') \<and> mm_ok km' \<and> mm_free km' = insert f (mm_free km)"
proof -
  obtain n where "release_tables dir [dir_index MMU_BOUND_ULOWER ..< dir_index MMU_BOUND_UUPPER] km = Some (n, km)"
    using release_tables_noop [of km dir] assms(2) by blast
  moreover obtain km' where "page_release (frame_addr f) km = Some km'" "mm_ok km'" "mm_free km' = insert f (mm_free km)"
    using pages.release_used [OF assms(1,4)] by blast
  ultimately show ?thesis using assms(3) by (simp add: mmu_destroy_uspace_def)
qed

definition one_page :: kmmu where
  "one_page = boot_mmu\<lparr>pages_amount := 1, free_pages := 1, lzone := [new_zone 1 1]\<rparr>"

lemma one_page_ok: "mm_ok one_page" "mm_free one_page = {1 ..< 2}" "mm_frames one_page = {1 ..< 2}"
  using new_zone_spec [of 1 1] zones_ok_snoc [of "[]" "new_zone 1 1"]
  by (simp_all add: one_page_def mm_ok_def mm_wf_def)

theorem mmu_destroy_leaks_tables_witness:
  "\<exists>km km' n. mmu_destroy_uspace 0x1000 (\<lambda>i. 0x5007) km = Some (n, km') \<and> mm_free km' = insert 1 (mm_free km)"
proof -
  obtain f km where f: "page_new one_page = Some (frame_addr f, km)" "f \<in> {1 ..< 2}" "mm_ok km"
    "mm_free km = {1 ..< 2} - {f}" "mm_frames km = {1 ..< 2}"
    using pages.alloc_free [OF one_page_ok(1)] one_page_ok(2,3) by auto
  have "\<forall>mz \<in> set (lzone km). \<not> in_zone 0 mz"
    using f(1) by (auto simp: page_new_def one_page_def new_zone_nonneg zone_alloc_def in_zone_def Let_def
      split: if_splits bind_splits)
  moreover have "1 \<in> mm_frames km - mm_free km" using f(2,4,5) by auto
  ultimately show ?thesis using mmu_destroy_leaks_tables [OF f(3), of "0x1000" 1 "\<lambda>i. 0x5007"] by (auto simp: frame_addr_def)
qed

end
