(* ===== verification/Vma.thy ===== *)
theory Vma
  imports Mmu PageShare BBTree
begin

section \<open>Kinds of mappings (\<^verbatim>\<open>src/mem/vma_anon.c\<close>, \<^verbatim>\<open>vma_misc.c\<close>, \<^verbatim>\<open>vma_file.c\<close>, \<^verbatim>\<open>vma_dlib.c\<close>)\<close>

text \<open>
  The areas of an address space and the tables of operations that distinguish their kinds. A null
  entry of a table is a call that does not return (\<open>None\<close>), except where the caller tests for it.
  The memory the operations work on is the page allocator, the page tables of the current
  directory, the contents of the physical pages, the tables of shared pages and the kernel space.
  The page caches of the file system and of the libraries are fields of a parameter: what
  \<^verbatim>\<open>vfs_fetch_page\<close> and \<^verbatim>\<open>dlib_fetch_page\<close> answer may depend on all earlier requests, which are
  logged. A third field is the pair \<^verbatim>\<open>kmap\<close>, \<^verbatim>\<open>kunmap\<close> around the access to one physical page;
  theory \<open>Vmsp\<close> builds it from the models of these two functions.
\<close>

unbundle bit_operations_syntax

subsection \<open>State\<close>

datatype vma_ops = OpsAnon | OpsStack | OpsHeap | OpsPipe | OpsPhys | OpsFilecpy | OpsFile | OpsDlib

text \<open>The base address is the key of the area in the tree of its address space. \<open>vma_ptr\<close> is the union
  of inode, library and task.\<close>

record vma =
  vma_usage :: int
  vma_length :: size_t
  vma_ptr :: nat
  vma_offset :: u64
  vma_flags :: u32
  vma_op :: vma_ops

text \<open>\<open>vs_krn\<close> stands for the comparison with \<^verbatim>\<open>__mmu.kspace\<close>; \<open>vs_share\<close> names a sharing table.\<close>

record vmsp =
  vs_usage :: int
  vs_tree :: "(size_t, vma) bbt"
  vs_directory :: size_t
  vs_lower :: size_t
  vs_upper :: size_t
  vs_vsize :: size_t
  vs_psize :: size_t
  vs_ssize :: size_t
  vs_tsize :: size_t
  vs_lock :: bool
  vs_max :: size_t
  vs_share :: "nat option"
  vs_proc :: "nat option"
  vs_krn :: bool

datatype io = FetchPage nat u64 bool | ReleasePage nat u64 size_t bool | OpenInode nat | CloseInode nat
  | FetchDlib nat u64 bool | ReleaseDlib nat u64 size_t | DestroyProc nat

record mem =
  mem_km :: kmmu
  mem_pg :: mmu
  mem_ram :: "size_t \<Rightarrow> nat \<Rightarrow> u8"
  mem_shr :: "nat \<Rightarrow> page_sharing option"
  mem_io :: "io list"
  mem_kspace :: vmsp
  mem_dirs :: "size_t \<Rightarrow> nat \<Rightarrow> u32"

text \<open>\<open>mem_dirs\<close> holds the directory pages of the spaces that are not current. The operations of a
  space run while it is current, on the pair of the space and the memory.\<close>

type_synonym vmem = "vmsp \<times> mem"

record env =
  vfs_page :: "io list \<Rightarrow> nat \<Rightarrow> u64 \<Rightarrow> bool \<Rightarrow> size_t"
  dlib_page :: "io list \<Rightarrow> nat \<Rightarrow> u64 \<Rightarrow> bool \<Rightarrow> size_t"
  window :: "size_t \<Rightarrow> vmem \<Rightarrow> vmem option"

abbreviation VMA_COW :: u32 where "VMA_COW \<equiv> 0x20000"
abbreviation VMA_FIXED :: u32 where "VMA_FIXED \<equiv> 0x40000"
abbreviation VM_UNMAPED :: u32 where "VM_UNMAPED \<equiv> 0x40000"
abbreviation VMA_CLEAN :: u32 where "VMA_CLEAN \<equiv> 0x80000"
abbreviation VMA_BACKEDUP :: u32 where "VMA_BACKEDUP \<equiv> 0x100000"
abbreviation VM_RESOLVE :: u32 where "VM_RESOLVE \<equiv> 0x40"
abbreviation VM_FAST_ALLOC :: u32 where "VM_FAST_ALLOC \<equiv> 0x100"
abbreviation VMA_TYPE :: u32 where "VMA_TYPE \<equiv> 0xF000"
abbreviation VMA_HEAP :: u32 where "VMA_HEAP \<equiv> 0x1000"
abbreviation VMA_STACK :: u32 where "VMA_STACK \<equiv> 0x2000"
abbreviation VMA_FILE :: u32 where "VMA_FILE \<equiv> 0x3000"
abbreviation VMA_PIPE :: u32 where "VMA_PIPE \<equiv> 0x4000"
abbreviation VMA_PHYS :: u32 where "VMA_PHYS \<equiv> 0x5000"
abbreviation VMA_ANON :: u32 where "VMA_ANON \<equiv> 0x6000"
abbreviation VMA_FILECPY :: u32 where "VMA_FILECPY \<equiv> 0x8000"
abbreviation VMA_DLIB :: u32 where "VMA_DLIB \<equiv> 0xC000"

definition has :: "u32 \<Rightarrow> u32 \<Rightarrow> bool" where
  "has flags f \<longleftrightarrow> flags AND f \<noteq> 0"

datatype vpg = VPG_BACKEDUP | VPG_SHARED | VPG_PRIVATE

text \<open>\<^verbatim>\<open>page_release\<close> and \<^verbatim>\<open>page_shared\<close> on the memory.\<close>

definition free_page :: "size_t \<Rightarrow> mem \<Rightarrow> mem option" where
  "free_page page m = do { km \<leftarrow> page_release page (mem_km m); Some (m\<lparr>mem_km := km\<rparr>) }"

definition share_page :: "vmsp \<Rightarrow> size_t \<Rightarrow> int \<Rightarrow> mem \<Rightarrow> (bool \<times> mem) option" where
  "share_page vs page cnt m =
     (case vs_share vs of
        None \<Rightarrow> do { (_, last) \<leftarrow> page_shared None page cnt; Some (last, m) }
      | Some s \<Rightarrow> do {
          sh \<leftarrow> mem_shr m s;
          (sh, last) \<leftarrow> page_shared (Some sh) page cnt;
          Some (last, m\<lparr>mem_shr := (mem_shr m)(s := sh)\<rparr>) })"

text \<open>The spin lock of a space; taking it twice never returns.\<close>

definition lock_space :: "vmsp \<Rightarrow> vmsp option" where
  "lock_space vs = (if vs_lock vs then None else Some (vs\<lparr>vs_lock := True\<rparr>))"

definition unlock_space :: "vmsp \<Rightarrow> vmsp" where
  "unlock_space vs = vs\<lparr>vs_lock := False\<rparr>"

definition log_io :: "io \<Rightarrow> mem \<Rightarrow> mem" where
  "log_io e m = m\<lparr>mem_io := mem_io m @ [e]\<rparr>"

definition map_page :: "size_t \<Rightarrow> size_t \<Rightarrow> u32 \<Rightarrow> mem \<Rightarrow> (size_t \<times> mem) option" where
  "map_page vaddr page flags m =
     do { (t, pg, km) \<leftarrow> mmu_resolve vaddr page flags (mem_pg m) (mem_km m);
          Some (of_nat t, m\<lparr>mem_pg := pg, mem_km := km\<rparr>) }"

definition drop_page :: "size_t \<Rightarrow> mem \<Rightarrow> size_t \<times> mem" where
  "drop_page vaddr m = (let (pg, mm) = mmu_drop vaddr (mem_pg m) in (pg, m\<lparr>mem_pg := mm\<rparr>))"

definition protect_page :: "size_t \<Rightarrow> u32 \<Rightarrow> mem \<Rightarrow> mem" where
  "protect_page vaddr flags m = m\<lparr>mem_pg := snd (mmu_protect vaddr flags (mem_pg m))\<rparr>"

definition vfs_fetch_page :: "env \<Rightarrow> nat \<Rightarrow> u64 \<Rightarrow> bool \<Rightarrow> mem \<Rightarrow> size_t \<times> mem" where
  "vfs_fetch_page bk ino off blocking m = (vfs_page bk (mem_io m) ino off blocking, log_io (FetchPage ino off blocking) m)"

definition dlib_fetch_page :: "env \<Rightarrow> nat \<Rightarrow> u64 \<Rightarrow> bool \<Rightarrow> mem \<Rightarrow> size_t \<times> mem" where
  "dlib_fetch_page bk lib off blocking m = (dlib_page bk (mem_io m) lib off blocking, log_io (FetchDlib lib off blocking) m)"

text \<open>The loops over the pages of an area: \<^verbatim>\<open>while (length) { \<dots>; length -= PAGE_SIZE; address += PAGE_SIZE; }\<close>.\<close>

partial_function (option) for_pages :: "(size_t \<Rightarrow> 's \<Rightarrow> 's option) \<Rightarrow> size_t \<Rightarrow> size_t \<Rightarrow> 's \<Rightarrow> 's option" where
  "for_pages f address len s =
     (if len = 0 then Some s
      else do { s \<leftarrow> f address s; for_pages f (address + PAGE_SIZE) (len - PAGE_SIZE) s })"

subsection \<open>Anonymous memory\<close>

definition vma_fetch_blank :: "env \<Rightarrow> vma \<Rightarrow> vmem \<Rightarrow> (size_t \<times> vmem) option" where
  "vma_fetch_blank bk vma s =
     (case s of (vs, m) \<Rightarrow>
      if has (vma_flags vma) VM_FAST_ALLOC then do { (page, km) \<leftarrow> page_new (mem_km m); Some (page, vs, m\<lparr>mem_km := km\<rparr>) }
      else do {
        let vs = unlock_space vs;
        (page, km) \<leftarrow> page_new (mem_km m);
        (vs, m) \<leftarrow> window bk page (vs, m\<lparr>mem_km := km\<rparr>);
        let m = m\<lparr>mem_ram := (mem_ram m)(page := \<lambda>_. 0)\<rparr>;
        vs \<leftarrow> lock_space vs;
        Some (page, vs, m) })"

definition vma_release_blank :: "size_t \<Rightarrow> mem \<Rightarrow> mem option" where
  "vma_release_blank page m = free_page page m"

definition vma_resolve_blank :: "vmsp \<Rightarrow> vma \<Rightarrow> size_t \<Rightarrow> size_t \<Rightarrow> mem \<Rightarrow> (vmsp \<times> mem) option" where
  "vma_resolve_blank vs vma vaddr page m =
     do { (t, m) \<leftarrow> map_page vaddr page (vma_flags vma AND VM_RW) m;
          Some (vs\<lparr>vs_psize := vs_psize vs + 1, vs_tsize := vs_tsize vs + t\<rparr>, m) }"

definition vma_unmap_blank :: "vmsp \<Rightarrow> size_t \<Rightarrow> mem \<Rightarrow> (vmsp \<times> mem) option" where
  "vma_unmap_blank vs address m =
     (let (pg, m) = drop_page address m in
      if pg = 0 then Some (vs, m)
      else do {
        (private, m) \<leftarrow> share_page vs pg 0 m;
        if private then do {
          m \<leftarrow> free_page pg m;
          Some (vs\<lparr>vs_psize := vs_psize vs - 1\<rparr>, m) }
        else do {
          (last, m) \<leftarrow> share_page vs pg (- 1) m;
          m \<leftarrow> (if last then free_page pg m else Some m);
          Some (vs\<lparr>vs_ssize := vs_ssize vs - 1\<rparr>, m) } })"

definition vma_protect_anon :: "vmsp \<Rightarrow> size_t \<Rightarrow> vma \<Rightarrow> u32 \<Rightarrow> mem \<Rightarrow> (int \<times> vma \<times> mem) option" where
  "vma_protect_anon vs base vma flags m =
     (let vma = vma\<lparr>vma_flags := (vma_flags vma AND NOT VM_RWX) OR (flags AND VM_RWX)\<rparr> in
      do { m \<leftarrow> for_pages (\<lambda>address m.
             let pg = mmu_read address (mem_pg m) in
             if pg = 0 then Some m
             else if has (vma_flags vma) VMA_COW then do {
               (private, m) \<leftarrow> share_page vs pg 0 m;
               Some (protect_page address (if private then flags AND VM_RWX else flags AND VM_RX) m) }
             else Some (protect_page address (flags AND VM_RWX) m)) base (vma_length vma) m;
           Some (0, vma, m) })"

definition vma_split_anon :: "vma \<Rightarrow> vma \<Rightarrow> vma" where
  "vma_split_anon va1 va2 = va2\<lparr>vma_flags := vma_flags va1\<rparr>"

subsection \<open>Physical memory\<close>

definition vma_fetch_phys :: "vma \<Rightarrow> u64 \<Rightarrow> vmem \<Rightarrow> (size_t \<times> vmem) option" where
  "vma_fetch_phys vma off s =
     (case s of (vs, m) \<Rightarrow>
      if vma_offset vma = 0 then do { (page, km) \<leftarrow> page_new (mem_km m); Some (page, vs, m\<lparr>mem_km := km\<rparr>) }
      else Some (ucast off, vs, m))"

definition vma_resolve_phys :: "vmsp \<Rightarrow> vma \<Rightarrow> size_t \<Rightarrow> size_t \<Rightarrow> mem \<Rightarrow> (vmsp \<times> mem) option" where
  "vma_resolve_phys vs vma vaddr page m =
     do { (t, m) \<leftarrow> map_page vaddr page (vma_flags vma AND (VM_UNCACHABLE OR VM_RW)) m;
          Some (vs\<lparr>vs_tsize := vs_tsize vs + t\<rparr>, m) }"

definition vma_unmap_phys :: "vmsp \<Rightarrow> size_t \<Rightarrow> mem \<Rightarrow> (vmsp \<times> mem) option" where
  "vma_unmap_phys vs address m = Some (vs, snd (drop_page address m))"

text \<open>Defined in the source, but in no table of operations.\<close>

definition vma_protect_phys :: "size_t \<Rightarrow> vma \<Rightarrow> u32 \<Rightarrow> mem \<Rightarrow> (int \<times> vma \<times> mem) option" where
  "vma_protect_phys base vma flags m =
     (let vma = vma\<lparr>vma_flags := flags AND (VM_RW OR VM_UNCACHABLE)\<rparr> in
      do { m \<leftarrow> for_pages (\<lambda>address m. Some (protect_page address (vma_flags vma AND (VM_UNCACHABLE OR VM_RW)) m))
             base (vma_length vma) m;
           Some (0, vma, m) })"

subsection \<open>Files\<close>

definition file_offset :: "size_t \<Rightarrow> vma \<Rightarrow> size_t \<Rightarrow> u64" where
  "file_offset base vma address = vma_offset vma + ucast (address - base)"

definition vma_resolve_filecpy :: "vmsp \<Rightarrow> size_t \<Rightarrow> size_t \<Rightarrow> mem \<Rightarrow> (vmsp \<times> mem) option" where
  "vma_resolve_filecpy vs vaddr page m =
     do { (t, m) \<leftarrow> map_page vaddr page VM_RD m;
          Some (vs\<lparr>vs_ssize := vs_ssize vs + 1, vs_tsize := vs_tsize vs + t\<rparr>, m) }"

definition vma_shared_filecpy :: "env \<Rightarrow> vmsp \<Rightarrow> size_t \<Rightarrow> vma \<Rightarrow> size_t \<Rightarrow> size_t \<Rightarrow> mem \<Rightarrow> (vpg \<times> mem) option" where
  "vma_shared_filecpy bk vs base vma address page m =
     (let off = file_offset base vma address;
          (old, m) = vfs_fetch_page bk (vma_ptr vma) off False m;
          m = (if old \<noteq> 0 then log_io (ReleasePage (vma_ptr vma) off old False) m else m)
      in if old \<noteq> 0 \<and> old = page then Some (VPG_BACKEDUP, m)
         else do { (private, m) \<leftarrow> share_page vs page 0 m;
                   Some (if \<not> private then VPG_SHARED else VPG_PRIVATE, m) })"

definition vma_unmap_filecpy :: "env \<Rightarrow> vmsp \<Rightarrow> size_t \<Rightarrow> vma \<Rightarrow> size_t \<Rightarrow> mem \<Rightarrow> (vmsp \<times> mem) option" where
  "vma_unmap_filecpy bk vs base vma address m =
     (let dirty = mmu_dirty address (mem_pg m);
          (pg, m) = drop_page address m in
      if pg = 0 then Some (vs, m)
      else do {
        (status, m) \<leftarrow> vma_shared_filecpy bk vs base vma address pg m;
        case status of
          VPG_PRIVATE \<Rightarrow> do { m \<leftarrow> free_page pg m; Some (vs\<lparr>vs_psize := vs_psize vs - 1\<rparr>, m) }
        | VPG_SHARED \<Rightarrow> do {
            (last, m) \<leftarrow> share_page vs pg (- 1) m;
            m \<leftarrow> (if last then free_page pg m else Some m);
            Some (vs\<lparr>vs_ssize := vs_ssize vs - 1\<rparr>, m) }
        | VPG_BACKEDUP \<Rightarrow>
            Some (vs\<lparr>vs_ssize := vs_ssize vs - 1\<rparr>,
                  log_io (ReleasePage (vma_ptr vma) (file_offset base vma address) pg dirty) m) })"

definition vma_protect_filecpy :: "env \<Rightarrow> vmsp \<Rightarrow> size_t \<Rightarrow> vma \<Rightarrow> u32 \<Rightarrow> mem \<Rightarrow> (int \<times> vma \<times> mem) option" where
  "vma_protect_filecpy bk vs base vma flags m =
     (let vma = vma\<lparr>vma_flags := (vma_flags vma AND NOT VM_RWX) OR (flags AND VM_RW)\<rparr> in
      do { m \<leftarrow> for_pages (\<lambda>address m.
             let pg = mmu_read address (mem_pg m) in
             if pg = 0 then Some m
             else do {
               (status, m) \<leftarrow> vma_shared_filecpy bk vs base vma address pg m;
               Some (protect_page address (if status = VPG_PRIVATE then flags AND VM_RWX else flags AND VM_RX) m) })
             base (vma_length vma) m;
           Some (0, vma, m) })"

definition vma_fetch_file :: "env \<Rightarrow> vma \<Rightarrow> u64 \<Rightarrow> bool \<Rightarrow> vmem \<Rightarrow> (size_t \<times> vmem) option" where
  "vma_fetch_file bk vma off blocking s =
     (case s of (vs, m) \<Rightarrow>
      if \<not> blocking then let (page, m) = vfs_fetch_page bk (vma_ptr vma) off False m in Some (page, vs, m)
      else do {
        let vs = unlock_space vs;
        let (page, m) = vfs_fetch_page bk (vma_ptr vma) off True m;
        vs \<leftarrow> lock_space vs;
        Some (page, vs, m) })"

definition vma_release_file :: "vma \<Rightarrow> u64 \<Rightarrow> size_t \<Rightarrow> mem \<Rightarrow> mem option" where
  "vma_release_file vma off page m = Some (log_io (ReleasePage (vma_ptr vma) off page False) m)"

definition vma_resolve_file :: "vmsp \<Rightarrow> vma \<Rightarrow> size_t \<Rightarrow> size_t \<Rightarrow> mem \<Rightarrow> (vmsp \<times> mem) option" where
  "vma_resolve_file vs vma vaddr page m =
     do { (t, m) \<leftarrow> map_page vaddr page (vma_flags vma AND VM_RW) m;
          Some (vs\<lparr>vs_ssize := vs_ssize vs + 1, vs_tsize := vs_tsize vs + t\<rparr>, m) }"

definition vma_unmap_file :: "vmsp \<Rightarrow> size_t \<Rightarrow> vma \<Rightarrow> size_t \<Rightarrow> mem \<Rightarrow> (vmsp \<times> mem) option" where
  "vma_unmap_file vs base vma address m =
     (let dirty = mmu_dirty address (mem_pg m);
          (pg, m) = drop_page address m in
      if pg = 0 then Some (vs, m)
      else Some (vs\<lparr>vs_ssize := vs_ssize vs - 1\<rparr>,
                 log_io (ReleasePage (vma_ptr vma) (file_offset base vma address) pg dirty) m))"

definition vma_protect_file :: "size_t \<Rightarrow> vma \<Rightarrow> u32 \<Rightarrow> mem \<Rightarrow> (int \<times> vma \<times> mem) option" where
  "vma_protect_file base vma flags m =
     (let vma = vma\<lparr>vma_flags := (vma_flags vma AND NOT VM_RWX) OR (flags AND VM_RW)\<rparr> in
      do { m \<leftarrow> for_pages (\<lambda>address m.
             Some (if mmu_read address (mem_pg m) = 0 then m else protect_page address (flags AND VM_RWX) m))
             base (vma_length vma) m;
           Some (0, vma, m) })"

text \<open>\<^verbatim>\<open>vfs_open_inode\<close> takes a reference and returns its argument.\<close>

definition vma_split_file :: "vma \<Rightarrow> vma \<Rightarrow> mem \<Rightarrow> vma \<times> mem" where
  "vma_split_file va1 va2 m =
     (va2\<lparr>vma_flags := vma_flags va1, vma_ptr := vma_ptr va1, vma_offset := vma_offset va1 + ucast (vma_length va1)\<rparr>,
      log_io (OpenInode (vma_ptr va1)) m)"

definition vma_clone_file :: "vma \<Rightarrow> vma \<Rightarrow> mem \<Rightarrow> vma \<times> mem" where
  "vma_clone_file va1 va2 m =
     (va1\<lparr>vma_ptr := vma_ptr va2, vma_offset := vma_offset va2\<rparr>, log_io (OpenInode (vma_ptr va2)) m)"

definition vma_close_file :: "vma \<Rightarrow> mem \<Rightarrow> mem" where
  "vma_close_file vma m = log_io (CloseInode (vma_ptr vma)) m"

subsection \<open>Libraries\<close>

definition vma_fetch_dlib :: "env \<Rightarrow> vma \<Rightarrow> u64 \<Rightarrow> bool \<Rightarrow> vmem \<Rightarrow> (size_t \<times> vmem) option" where
  "vma_fetch_dlib bk vma off blocking s =
     (case s of (vs, m) \<Rightarrow>
      if \<not> blocking then let (page, m) = dlib_fetch_page bk (vma_ptr vma) off False m in Some (page, vs, m)
      else do {
        let vs = unlock_space vs;
        let (page, m) = dlib_fetch_page bk (vma_ptr vma) off True m;
        vs \<leftarrow> lock_space vs;
        Some (page, vs, m) })"

definition vma_release_dlib :: "vma \<Rightarrow> u64 \<Rightarrow> size_t \<Rightarrow> mem \<Rightarrow> mem option" where
  "vma_release_dlib vma off page m = Some (log_io (ReleaseDlib (vma_ptr vma) off page) m)"

definition vma_resolve_dlib :: "vmsp \<Rightarrow> size_t \<Rightarrow> size_t \<Rightarrow> mem \<Rightarrow> (vmsp \<times> mem) option" where
  "vma_resolve_dlib vs vaddr page m =
     do { (t, m) \<leftarrow> map_page vaddr page VM_RD m;
          Some (vs\<lparr>vs_ssize := vs_ssize vs + 1, vs_tsize := vs_tsize vs + t\<rparr>, m) }"

definition vma_shared_dlib :: "env \<Rightarrow> vmsp \<Rightarrow> size_t \<Rightarrow> vma \<Rightarrow> size_t \<Rightarrow> size_t \<Rightarrow> mem \<Rightarrow> (vpg \<times> mem) option" where
  "vma_shared_dlib bk vs base vma address page m =
     (let off = file_offset base vma address;
          (old, m) = dlib_fetch_page bk (vma_ptr vma) off False m;
          m = (if old \<noteq> 0 then log_io (ReleaseDlib (vma_ptr vma) off old) m else m)
      in if old \<noteq> 0 \<and> old = page then Some (VPG_BACKEDUP, m)
         else do { (private, m) \<leftarrow> share_page vs page 0 m;
                   Some (if \<not> private then VPG_SHARED else VPG_PRIVATE, m) })"

definition vma_unmap_dlib :: "env \<Rightarrow> vmsp \<Rightarrow> size_t \<Rightarrow> vma \<Rightarrow> size_t \<Rightarrow> mem \<Rightarrow> (vmsp \<times> mem) option" where
  "vma_unmap_dlib bk vs base vma address m =
     (let (pg, m) = drop_page address m in
      if pg = 0 then Some (vs, m)
      else do {
        (status, m) \<leftarrow> vma_shared_dlib bk vs base vma address pg m;
        case status of
          VPG_PRIVATE \<Rightarrow> do { m \<leftarrow> free_page pg m; Some (vs\<lparr>vs_psize := vs_psize vs - 1\<rparr>, m) }
        | VPG_SHARED \<Rightarrow> do {
            (last, m) \<leftarrow> share_page vs pg (- 1) m;
            m \<leftarrow> (if last then free_page pg m else Some m);
            Some (vs\<lparr>vs_ssize := vs_ssize vs - 1\<rparr>, m) }
        | VPG_BACKEDUP \<Rightarrow>
            Some (vs\<lparr>vs_ssize := vs_ssize vs - 1\<rparr>,
                  log_io (ReleaseDlib (vma_ptr vma) (file_offset base vma address) pg) m) })"

definition vma_protect_dlib :: "vma \<Rightarrow> u32 \<Rightarrow> mem \<Rightarrow> (int \<times> vma \<times> mem) option" where
  "vma_protect_dlib vma flags m =
     (if vma_flags vma \<noteq> 0 then Some (- 1, vma, m)
      else if flags \<noteq> VM_RX \<and> flags \<noteq> VM_RW \<and> flags \<noteq> VM_RD then Some (- 1, vma, m)
      else Some (0, vma\<lparr>vma_flags := flags OR VMA_COW OR VMA_BACKEDUP\<rparr>, m))"

definition vma_split_dlib :: "vma \<Rightarrow> vma \<Rightarrow> vma" where
  "vma_split_dlib va1 va2 =
     va2\<lparr>vma_flags := vma_flags va1, vma_ptr := vma_ptr va1, vma_offset := vma_offset va1 + ucast (vma_length va1)\<rparr>"

definition vma_clone_dlib :: "vma \<Rightarrow> vma \<Rightarrow> vma" where
  "vma_clone_dlib va1 va2 = va1\<lparr>vma_ptr := vma_ptr va2, vma_offset := vma_offset va2\<rparr>"

subsection \<open>The tables of operations\<close>

definition ops_fetch :: "env \<Rightarrow> vma \<Rightarrow> u64 \<Rightarrow> bool \<Rightarrow> vmem \<Rightarrow> (size_t \<times> vmem) option" where
  "ops_fetch bk vma off blocking s =
     (case vma_op vma of
        OpsPhys \<Rightarrow> vma_fetch_phys vma off s
      | OpsFilecpy \<Rightarrow> vma_fetch_file bk vma off blocking s
      | OpsFile \<Rightarrow> vma_fetch_file bk vma off blocking s
      | OpsDlib \<Rightarrow> vma_fetch_dlib bk vma off blocking s
      | _ \<Rightarrow> vma_fetch_blank bk vma s)"

definition ops_release :: "vma \<Rightarrow> u64 \<Rightarrow> size_t \<Rightarrow> mem \<Rightarrow> mem option" where
  "ops_release vma off page m =
     (case vma_op vma of
        OpsPhys \<Rightarrow> None
      | OpsFilecpy \<Rightarrow> vma_release_file vma off page m
      | OpsFile \<Rightarrow> vma_release_file vma off page m
      | OpsDlib \<Rightarrow> vma_release_dlib vma off page m
      | _ \<Rightarrow> vma_release_blank page m)"

definition ops_resolve :: "vmsp \<Rightarrow> vma \<Rightarrow> size_t \<Rightarrow> size_t \<Rightarrow> mem \<Rightarrow> (vmsp \<times> mem) option" where
  "ops_resolve vs vma vaddr page m =
     (case vma_op vma of
        OpsPhys \<Rightarrow> vma_resolve_phys vs vma vaddr page m
      | OpsFilecpy \<Rightarrow> vma_resolve_filecpy vs vaddr page m
      | OpsFile \<Rightarrow> vma_resolve_file vs vma vaddr page m
      | OpsDlib \<Rightarrow> vma_resolve_dlib vs vaddr page m
      | _ \<Rightarrow> vma_resolve_blank vs vma vaddr page m)"

definition ops_shared :: "env \<Rightarrow> vmsp \<Rightarrow> size_t \<Rightarrow> vma \<Rightarrow> size_t \<Rightarrow> size_t \<Rightarrow> mem \<Rightarrow> (vpg \<times> mem) option" where
  "ops_shared bk vs base vma address page m =
     (case vma_op vma of
        OpsFilecpy \<Rightarrow> vma_shared_filecpy bk vs base vma address page m
      | OpsDlib \<Rightarrow> vma_shared_dlib bk vs base vma address page m
      | _ \<Rightarrow> None)"

definition ops_unmap :: "env \<Rightarrow> size_t \<Rightarrow> vma \<Rightarrow> size_t \<Rightarrow> vmsp \<times> mem \<Rightarrow> (vmsp \<times> mem) option" where
  "ops_unmap bk base vma address s =
     (case s of (vs, m) \<Rightarrow> case vma_op vma of
        OpsPhys \<Rightarrow> vma_unmap_phys vs address m
      | OpsFilecpy \<Rightarrow> vma_unmap_filecpy bk vs base vma address m
      | OpsFile \<Rightarrow> vma_unmap_file vs base vma address m
      | OpsDlib \<Rightarrow> vma_unmap_dlib bk vs base vma address m
      | _ \<Rightarrow> vma_unmap_blank vs address m)"

definition has_protect :: "vma_ops \<Rightarrow> bool" where
  "has_protect op \<longleftrightarrow> op \<in> {OpsAnon, OpsFilecpy, OpsFile, OpsDlib}"

definition ops_protect :: "env \<Rightarrow> vmsp \<Rightarrow> size_t \<Rightarrow> vma \<Rightarrow> u32 \<Rightarrow> mem \<Rightarrow> (int \<times> vma \<times> mem) option" where
  "ops_protect bk vs base vma flags m =
     (case vma_op vma of
        OpsAnon \<Rightarrow> vma_protect_anon vs base vma flags m
      | OpsFilecpy \<Rightarrow> vma_protect_filecpy bk vs base vma flags m
      | OpsFile \<Rightarrow> vma_protect_file base vma flags m
      | OpsDlib \<Rightarrow> vma_protect_dlib vma flags m
      | _ \<Rightarrow> None)"

definition has_split :: "vma_ops \<Rightarrow> bool" where
  "has_split op \<longleftrightarrow> op \<in> {OpsAnon, OpsFilecpy, OpsFile, OpsDlib}"

definition ops_split :: "vma \<Rightarrow> vma \<Rightarrow> mem \<Rightarrow> (vma \<times> mem) option" where
  "ops_split va1 va2 m =
     (case vma_op va1 of
        OpsAnon \<Rightarrow> Some (vma_split_anon va1 va2, m)
      | OpsFilecpy \<Rightarrow> Some (vma_split_file va1 va2 m)
      | OpsFile \<Rightarrow> Some (vma_split_file va1 va2 m)
      | OpsDlib \<Rightarrow> Some (vma_split_dlib va1 va2, m)
      | _ \<Rightarrow> None)"

definition ops_clone :: "vma \<Rightarrow> vma \<Rightarrow> mem \<Rightarrow> vma \<times> mem" where
  "ops_clone cpy vma m =
     (case vma_op vma of
        OpsFilecpy \<Rightarrow> vma_clone_file cpy vma m
      | OpsFile \<Rightarrow> vma_clone_file cpy vma m
      | OpsDlib \<Rightarrow> (vma_clone_dlib cpy vma, m)
      | _ \<Rightarrow> (cpy, m))"

definition ops_close :: "vma \<Rightarrow> mem \<Rightarrow> mem" where
  "ops_close vma m = (if vma_op vma \<in> {OpsFilecpy, OpsFile} then vma_close_file vma m else m)"

end
