(* ===== verification/Vmsp.thy ===== *)
theory Vmsp
  imports Vma
begin

section \<open>Address spaces (\<^verbatim>\<open>src/mem/vmsp.c\<close>)\<close>

text \<open>
  An address space is a tree of areas, keyed by their base addresses. A pointer to an area is the
  pair of its base and its value; a change through the pointer is written back into the tree.
  \<open>None\<close> is a failed assertion, a spin lock taken twice, or a loop that does not end. A failing
  operation returns \<open>Inl\<close> with the error number.
\<close>

unbundle bit_operations_syntax

subsection \<open>Slots\<close>

lemma bb_next_greater: "bb_next t j = Some (k, x) \<Longrightarrow> j < k"
  by (induction t) (auto split: if_splits option.splits)

lemma bb_next_measure: "bb_next t j = Some (k, x) \<Longrightarrow> 2 ^ 32 - unat k < 2 ^ 32 - unat (j :: size_t)"
  using bb_next_greater [of t j k x] unat_u32 [of k] by (simp add: word_less_nat_alt)

text \<open>The scan of \<^verbatim>\<open>vmsp_find_slot\<close>; 0 stands for \<^verbatim>\<open>ENOMEM\<close>.\<close>

function slot_after :: "vmsp \<Rightarrow> size_t \<Rightarrow> size_t \<Rightarrow> vma \<Rightarrow> size_t" where
  "slot_after vs len k vma =
     (if k + vma_length vma + len > vs_upper vs then 0
      else case bb_next (vs_tree vs) k of
        None \<Rightarrow> k + vma_length vma
      | Some (k', next) \<Rightarrow>
          if k + vma_length vma + len \<le> k' then k + vma_length vma
          else slot_after vs len k' next)"
  by pat_completeness auto
termination
  by (relation "measure (\<lambda>(vs, len, k, vma). 2 ^ 32 - unat k)") (auto dest: bb_next_measure)

definition vmsp_find_slot :: "vmsp \<Rightarrow> size_t \<Rightarrow> size_t option" where
  "vmsp_find_slot vs len =
     (if \<not> vs_lock vs then None
      else case bb_left (vs_tree vs) of
        None \<Rightarrow> Some (vs_lower vs)
      | Some (k, vma) \<Rightarrow>
          if vs_lower vs + len \<le> k then Some (vs_lower vs) else Some (slot_after vs len k vma))"

definition vmsp_slot_address :: "vmsp \<Rightarrow> size_t \<Rightarrow> size_t \<Rightarrow> size_t" where
  "vmsp_slot_address vs address len =
     (if address < vs_lower vs \<or> address + len > vs_upper vs then 0
      else case bb_search (vs_tree vs) address (- 1) of
        None \<Rightarrow>
          (case bb_left (vs_tree vs) of
             Some (k, vma) \<Rightarrow> if address + len > k then 0 else address
           | None \<Rightarrow> address)
      | Some (k, vma) \<Rightarrow>
          if k + vma_length vma > address then 0
          else (case bb_next (vs_tree vs) k of
                  Some (k', next) \<Rightarrow> if address + len > k' then 0 else address
                | None \<Rightarrow> address))"

definition vmsp_find_area :: "vmsp \<Rightarrow> size_t \<Rightarrow> (size_t \<times> vma) option option" where
  "vmsp_find_area vs address =
     (if \<not> vs_lock vs then None
      else if address < vs_lower vs \<or> address \<ge> vs_upper vs then Some None
      else case bb_search (vs_tree vs) address (- 1) of
        None \<Rightarrow> Some None
      | Some (k, vma) \<Rightarrow> if k + vma_length vma \<le> address then Some None else Some (Some (k, vma)))"

subsection \<open>Areas\<close>

definition vma_unmap :: "env \<Rightarrow> size_t \<Rightarrow> vma \<Rightarrow> vmem \<Rightarrow> (vma option \<times> vmem) option" where
  "vma_unmap bk base vma s =
     (if \<not> vs_lock (fst s) then None
      else do {
        (vma, vs, m) \<leftarrow>
          (if has (vma_flags vma) VM_UNMAPED then Some (vma, s)
           else let vs = fst s;
                    vs = vs\<lparr>vs_tree := bb_remove base (vs_tree vs), vs_vsize := vs_vsize vs - vma_length vma div PAGE_SIZE\<rparr>
                in do { s \<leftarrow> for_pages (ops_unmap bk base vma) base (vma_length vma) (vs, snd s);
                        Some (vma\<lparr>vma_flags := vma_flags vma OR VM_UNMAPED\<rparr>, s) });
        if vma_usage vma \<noteq> 1 then Some (Some (vma\<lparr>vma_usage := vma_usage vma - 1\<rparr>), vs, m)
        else Some (None, vs, ops_close vma m) })"

text \<open>The second half of \<^verbatim>\<open>vma_resolve\<close>, the copy on write. Copying from an address that is not
  mapped would fault again, which is not modelled.\<close>

definition vma_copy :: "env \<Rightarrow> size_t \<Rightarrow> vma \<Rightarrow> size_t \<Rightarrow> vmem \<Rightarrow> (int \<times> vmem) option" where
  "vma_copy bk base vma vaddr s =
     (if \<not> has (vma_flags vma) VM_WR then None
      else do {
        let off = file_offset base vma vaddr;
        let (vs, m) = s;
        let vs = unlock_space vs;
        (page, km) \<leftarrow> page_new (mem_km m);
        (vs, m) \<leftarrow> window bk page (vs, m\<lparr>mem_km := km\<rparr>);
        m \<leftarrow> (if mmu_read vaddr (mem_pg m) = 0 then None
               else Some (m\<lparr>mem_ram := (mem_ram m)(page := mem_ram m (mmu_read vaddr (mem_pg m)))\<rparr>));
        vs \<leftarrow> lock_space vs;
        if has (vma_flags vma) VM_UNMAPED then do {
          m \<leftarrow> ops_release vma off page m;
          (_, s) \<leftarrow> vma_unmap bk base vma (vs, m);
          Some (- 1, s) }
        else do {
          let old = mmu_read vaddr (mem_pg m);
          (status, m) \<leftarrow> (if has (vma_flags vma) VMA_BACKEDUP then ops_shared bk vs base vma vaddr old m
                           else Some (VPG_SHARED, m));
          m \<leftarrow> (if status = VPG_BACKEDUP then ops_release vma off old m
                 else do { (last, m) \<leftarrow> share_page vs old (- 1) m;
                           if last then free_page old m else Some m });
          let vs = vs\<lparr>vs_ssize := vs_ssize vs - 1, vs_psize := vs_psize vs + 1\<rparr>;
          (_, m) \<leftarrow> map_page vaddr page VM_RW m;
          Some (0, vs, m) } })"

text \<open>The first half, for a missing page: \<open>True\<close> when the page is mapped.\<close>

definition vma_missing :: "env \<Rightarrow> size_t \<Rightarrow> vma \<Rightarrow> size_t \<Rightarrow> vmem \<Rightarrow> (bool \<times> vmem) option" where
  "vma_missing bk base vma vaddr s =
     (let off = file_offset base vma vaddr in do {
        (page, s) \<leftarrow> ops_fetch bk vma off False s;
        if page \<noteq> 0 then do { s \<leftarrow> ops_resolve (fst s) vma vaddr page (snd s); Some (True, s) }
        else do {
          (page, vs, m) \<leftarrow> ops_fetch bk vma off True s;
          if has (vma_flags vma) VM_UNMAPED then do {
            m \<leftarrow> ops_release vma off page m;
            (_, s) \<leftarrow> vma_unmap bk base vma (vs, m);
            Some (False, s) }
          else if page = 0 then Some (False, vs, m)
          else do { s \<leftarrow> ops_resolve vs vma vaddr page m; Some (True, s) } } })"

definition vma_resolve :: "env \<Rightarrow> size_t \<Rightarrow> vma \<Rightarrow> size_t \<Rightarrow> bool \<Rightarrow> bool \<Rightarrow> vmem \<Rightarrow> (int \<times> vmem) option" where
  "vma_resolve bk base vma vaddr missing write s =
     do { (ok, s) \<leftarrow> (if missing then vma_missing bk base vma vaddr s else Some (True, s));
          if \<not> ok then Some (- 1, s)
          else if (\<not> missing \<or> has (vma_flags vma) VMA_BACKEDUP) \<and> write \<and> has (vma_flags vma) VMA_COW
          then vma_copy bk base vma vaddr s
          else Some (0, s) }"

text \<open>The new area and the flags that remain, by type; the second flag is \<^verbatim>\<open>VM_RESOLVE\<close>.\<close>

definition vma_kind :: "bool \<Rightarrow> size_t \<Rightarrow> nat \<Rightarrow> u64 \<Rightarrow> u32 \<Rightarrow> mem \<Rightarrow> (vma \<times> u32 \<times> mem) option" where
  "vma_kind krn len ptr off flags m =
     (let type = flags AND VMA_TYPE;
          msk = (if has flags VM_EX then VM_RX else VM_RW);
          opts = (if krn then VM_FAST_ALLOC else VMA_CLEAN);
          vma = \<lparr>vma_usage = 1, vma_length = len, vma_ptr = 0, vma_offset = 0, vma_flags = 0, vma_op = OpsAnon\<rparr>
      in if type = VMA_ANON then Some (vma\<lparr>vma_flags := opts OR (flags AND msk) OR VMA_COW, vma_op := OpsAnon\<rparr>, flags, m)
      else if type = VMA_STACK then Some (vma\<lparr>vma_flags := opts OR VM_RW, vma_ptr := ptr, vma_op := OpsStack\<rparr>, flags, m)
      else if type = VMA_HEAP then Some (vma\<lparr>vma_flags := opts OR VM_RW, vma_op := OpsHeap\<rparr>, flags, m)
      else if type = VMA_PIPE then
        if \<not> krn then None
        else Some (vma\<lparr>vma_flags := VM_FAST_ALLOC OR VM_RW, vma_ptr := ptr, vma_op := OpsPipe\<rparr>, flags, m)
      else if type = VMA_PHYS then
        if \<not> krn then None
        else let flags = flags OR VM_RESOLVE
             in Some (vma\<lparr>vma_flags := flags AND (VM_RW OR VM_UNCACHABLE), vma_offset := off, vma_op := OpsPhys\<rparr>, flags, m)
      else if type = VMA_FILECPY then
        if ptr = 0 then None
        else Some (vma\<lparr>vma_flags := (flags AND VM_RW) OR VMA_COW OR VMA_BACKEDUP, vma_ptr := ptr, vma_offset := off, vma_op := OpsFilecpy\<rparr>,
                   flags, log_io (OpenInode ptr) m)
      else if type = VMA_FILE then
        if ptr = 0 then None
        else Some (vma\<lparr>vma_flags := (flags AND VM_RW) OR VMA_BACKEDUP, vma_ptr := ptr, vma_offset := off, vma_op := OpsFile\<rparr>,
                   flags, log_io (OpenInode ptr) m)
      else if type = VMA_DLIB then
        if ptr = 0 then None
        else Some (vma\<lparr>vma_flags := 0, vma_ptr := ptr, vma_offset := off, vma_op := OpsDlib\<rparr>, flags, m)
      else None)"

text \<open>The loop that maps all pages of a new area, until one fails.\<close>

partial_function (option) resolve_all :: "env \<Rightarrow> size_t \<Rightarrow> vma \<Rightarrow> size_t \<Rightarrow> size_t \<Rightarrow> vmem \<Rightarrow> vmem option" where
  "resolve_all bk base vma address len s =
     (if len = 0 then Some s
      else do {
        (ret, s) \<leftarrow> vma_resolve bk base vma address True False s;
        if ret \<noteq> 0 then Some s
        else resolve_all bk base vma (address + PAGE_SIZE) (len - PAGE_SIZE) s })"

definition vma_create :: "env \<Rightarrow> size_t \<Rightarrow> size_t \<Rightarrow> nat \<Rightarrow> u64 \<Rightarrow> u32 \<Rightarrow> vmem \<Rightarrow> vmem option" where
  "vma_create bk address len ptr off flags s =
     (case s of (vs, m) \<Rightarrow>
      if \<not> vs_lock vs then None
      else do {
        (vma, flags, m) \<leftarrow> vma_kind (vs_krn vs) len ptr off flags m;
        let vs = vs\<lparr>vs_tree := fst (bb_insert address vma (vs_tree vs)), vs_vsize := vs_vsize vs + len div PAGE_SIZE\<rparr>;
        if has flags VM_RESOLVE then resolve_all bk address vma address len (vs, m) else Some (vs, m) })"

subsection \<open>Mapping\<close>

definition vmsp_map :: "env \<Rightarrow> size_t \<Rightarrow> size_t \<Rightarrow> nat \<Rightarrow> u64 \<Rightarrow> u32 \<Rightarrow> vmem \<Rightarrow> ((errno + size_t) \<times> vmem) option" where
  "vmsp_map bk address len ptr off flags s =
     (case s of (vs, m) \<Rightarrow>
      if len = 0 \<or> len AND (PAGE_SIZE - 1) \<noteq> 0 \<or> off AND (PAGE_SIZE - 1) \<noteq> 0 then Some (Inl EINVAL, vs, m)
      else if len > vs_max vs then Some (Inl E2BIG, vs, m)
      else do {
        vs \<leftarrow> lock_space vs;
        let base = (if address \<noteq> 0 then vmsp_slot_address vs address len else 0);
        if address \<noteq> 0 \<and> base = 0 \<and> has flags VMA_FIXED then Some (Inl ERANGE, unlock_space vs, m)
        else do {
          base \<leftarrow> (if base = 0 then vmsp_find_slot vs len else Some base);
          if base = 0 then Some (Inl ENOMEM, unlock_space vs, m)
          else do {
            (vs, m) \<leftarrow> vma_create bk base len ptr off flags (vs, m);
            Some (Inr base, unlock_space vs, m) } } })"

definition set_area :: "size_t \<Rightarrow> vma \<Rightarrow> vmsp \<Rightarrow> vmsp" where
  "set_area k vma vs = vs\<lparr>vs_tree := bb_modify k (\<lambda>_. vma) (vs_tree vs)\<rparr>"

text \<open>The scan of \<^verbatim>\<open>vma_check_range\<close>: do adjacent areas of the same kind reach up to \<open>stop\<close>?\<close>

function reaches :: "vmsp \<Rightarrow> vma \<Rightarrow> size_t \<Rightarrow> size_t \<Rightarrow> size_t \<Rightarrow> bool" where
  "reaches vs vma stop k limit =
     (if stop > limit then
        case bb_next (vs_tree vs) k of
          None \<Rightarrow> False
        | Some (k', nx) \<Rightarrow>
            if k' \<noteq> limit \<or> vma_op nx \<noteq> vma_op vma \<or> vma_ptr nx \<noteq> vma_ptr vma then False
            else reaches vs vma stop k' (k' + vma_length nx)
      else True)"
  by pat_completeness auto
termination
  by (relation "measure (\<lambda>(vs, vma, stop, k, limit). 2 ^ 32 - unat k)") (auto dest: bb_next_measure)

text \<open>The common part of the two splits: \<open>va1\<close> keeps the first \<open>len\<close> bytes, the rest moves to a new
  area at \<open>base\<close>.\<close>

definition split_area :: "size_t \<Rightarrow> vma \<Rightarrow> size_t \<Rightarrow> size_t \<Rightarrow> vmem \<Rightarrow> (vma \<times> vma \<times> vmem) option" where
  "split_area k vma len base s =
     (case s of (vs, m) \<Rightarrow>
      let sec = \<lparr>vma_usage = 1, vma_length = vma_length vma - len, vma_ptr = 0, vma_offset = 0, vma_flags = 0, vma_op = vma_op vma\<rparr>;
          vma = vma\<lparr>vma_length := len\<rparr>
      in do {
        (sec, m) \<leftarrow> ops_split vma sec m;
        let vs = set_area k vma vs;
        Some (vma, sec, vs\<lparr>vs_tree := fst (bb_insert base sec (vs_tree vs))\<rparr>, m) })"

definition vma_check_range :: "size_t \<Rightarrow> vma \<Rightarrow> size_t \<Rightarrow> size_t \<Rightarrow> vmem \<Rightarrow> ((size_t \<times> vma) option \<times> vmem) option" where
  "vma_check_range k vma base len s =
     (if \<not> vs_lock (fst s) then None
      else if k > base \<or> \<not> has_split (vma_op vma) then Some (None, s)
      else if \<not> reaches (fst s) vma (base + len) k (k + vma_length vma) then Some (None, s)
      else if k \<noteq> base then do {
        (_, sec, s) \<leftarrow> split_area k vma (base - k) base s;
        Some (Some (base, sec), s) }
      else Some (Some (k, vma), s))"

text \<open>The new area starts at \<open>base + len\<close> for the length that was recomputed relative to the area, not
  at the end of the range.\<close>

definition vma_check_limit :: "size_t \<Rightarrow> vma \<Rightarrow> size_t \<Rightarrow> size_t \<Rightarrow> vmem \<Rightarrow> (vma option \<times> vmem) option" where
  "vma_check_limit k vma base len s =
     (let limit = base + len in
      if \<not> limit \<ge> k then None
      else let len = limit - k in
        if len = 0 then Some (None, s)
        else if len < vma_length vma then do {
          (vma, _, s) \<leftarrow> split_area k vma len (base + len) s;
          Some (Some vma, s) }
        else Some (Some vma, s))"

partial_function (option) unmap_range :: "env \<Rightarrow> size_t \<Rightarrow> size_t \<Rightarrow> size_t \<Rightarrow> vma \<Rightarrow> vmem \<Rightarrow> vmem option" where
  "unmap_range bk base len k cur s =
     do { (cur, s) \<leftarrow> vma_check_limit k cur base len s;
          case cur of
            None \<Rightarrow> Some s
          | Some cur \<Rightarrow>
              let next = bb_next (vs_tree (fst s)) k in do {
                (_, s) \<leftarrow> vma_unmap bk k cur s;
                case next of
                  None \<Rightarrow> Some s
                | Some (k, cur) \<Rightarrow> unmap_range bk base len k cur s } }"

definition vmsp_unmap :: "env \<Rightarrow> size_t \<Rightarrow> size_t \<Rightarrow> vmem \<Rightarrow> ((errno + unit) \<times> vmem) option" where
  "vmsp_unmap bk base len s =
     (case s of (vs, m) \<Rightarrow> do {
        vs \<leftarrow> lock_space vs;
        area \<leftarrow> vmsp_find_area vs base;
        case area of
          None \<Rightarrow> Some (Inl EINVAL, unlock_space vs, m)
        | Some (k, vma) \<Rightarrow>
            if k = base \<and> vma_length vma = len then do {
              (_, vs, m) \<leftarrow> vma_unmap bk k vma (vs, m);
              Some (Inr (), unlock_space vs, m) }
            else do {
              (cur, vs, m) \<leftarrow> vma_check_range k vma base len (vs, m);
              case cur of
                None \<Rightarrow> Some (Inl EINVAL, unlock_space vs, m)
              | Some (k, cur) \<Rightarrow> do {
                  (vs, m) \<leftarrow> unmap_range bk base len k cur (vs, m);
                  Some (Inr (), unlock_space vs, m) } } })"

definition protect_area :: "env \<Rightarrow> size_t \<Rightarrow> vma \<Rightarrow> u32 \<Rightarrow> vmem \<Rightarrow> (int \<times> vmem) option" where
  "protect_area bk k vma flags s =
     (case s of (vs, m) \<Rightarrow> do {
        (ret, vma, m) \<leftarrow> ops_protect bk vs k vma flags m;
        Some (ret, set_area k vma vs, m) })"

partial_function (option) protect_range :: "env \<Rightarrow> size_t \<Rightarrow> size_t \<Rightarrow> u32 \<Rightarrow> size_t \<Rightarrow> vma \<Rightarrow> int \<Rightarrow> vmem \<Rightarrow> (int \<times> vmem) option" where
  "protect_range bk base len flags k cur ret s =
     do { (cur, s) \<leftarrow> vma_check_limit k cur base len s;
          case cur of
            None \<Rightarrow> Some (ret, s)
          | Some cur \<Rightarrow> do {
              (r, s) \<leftarrow> protect_area bk k cur flags s;
              case bb_next (vs_tree (fst s)) k of
                None \<Rightarrow> Some (ret OR r, s)
              | Some (k, cur) \<Rightarrow> protect_range bk base len flags k cur (ret OR r) s } }"

text \<open>\<open>Inl EINVAL\<close> stands for the result -1 with that error number.\<close>

definition vmsp_protect :: "env \<Rightarrow> size_t \<Rightarrow> size_t \<Rightarrow> u32 \<Rightarrow> vmem \<Rightarrow> ((errno + int) \<times> vmem) option" where
  "vmsp_protect bk base len flags s =
     (case s of (vs, m) \<Rightarrow> do {
        vs \<leftarrow> lock_space vs;
        area \<leftarrow> vmsp_find_area vs base;
        case area of
          None \<Rightarrow> Some (Inl EINVAL, unlock_space vs, m)
        | Some (k, vma) \<Rightarrow>
            if \<not> has_protect (vma_op vma) then Some (Inl EINVAL, unlock_space vs, m)
            else if k = base \<and> vma_length vma = len then do {
              (ret, vs, m) \<leftarrow> protect_area bk k vma flags (vs, m);
              Some (Inr ret, unlock_space vs, m) }
            else do {
              (cur, vs, m) \<leftarrow> vma_check_range k vma base len (vs, m);
              case cur of
                None \<Rightarrow> Some (Inl EINVAL, unlock_space vs, m)
              | Some (k, cur) \<Rightarrow> do {
                  (ret, vs, m) \<leftarrow> protect_range bk base len flags k cur 0 (vs, m);
                  Some (Inr ret, unlock_space vs, m) } } })"

text \<open>A page fault; without a space, without an area and on a write to a read-only area
  \<^verbatim>\<open>vmsp_fault\<close> prints a report and the result is -1.\<close>

definition vmsp_resolve :: "env \<Rightarrow> size_t \<Rightarrow> bool \<Rightarrow> bool \<Rightarrow> vmsp option \<times> mem \<Rightarrow> (int \<times> vmsp option \<times> mem) option" where
  "vmsp_resolve bk address missing write s =
     (case s of
        (None, m) \<Rightarrow> Some (- 1, None, m)
      | (Some vs, m) \<Rightarrow> do {
          vs \<leftarrow> lock_space vs;
          area \<leftarrow> vmsp_find_area vs address;
          case area of
            None \<Rightarrow> Some (- 1, Some (unlock_space vs), m)
          | Some (k, vma) \<Rightarrow>
              if write \<and> \<not> has (vma_flags vma) VM_WR then Some (- 1, Some (unlock_space vs), m)
              else do {
                (ret, vs, m) \<leftarrow> vma_resolve bk k vma (address AND NOT (PAGE_SIZE - 1)) missing write (vs, m);
                Some (ret, Some (unlock_space vs), m) } })"

subsection \<open>The kernel window\<close>

definition kmap :: "env \<Rightarrow> size_t \<Rightarrow> nat \<Rightarrow> u64 \<Rightarrow> u32 \<Rightarrow> vmem \<Rightarrow> (size_t \<times> vmem) option" where
  "kmap bk len ino off flags s =
     (let len = (len + (PAGE_SIZE - 1)) AND NOT (PAGE_SIZE - 1);
          flags = (if flags AND VMA_TYPE = 0 then flags OR (if ino \<noteq> 0 then VMA_FILE else VMA_ANON) else flags)
      in do {
        (res, s) \<leftarrow> vmsp_map bk 0 len ino off flags s;
        case res of Inl _ \<Rightarrow> None | Inr ptr \<Rightarrow> Some (ptr, s) })"

definition kunmap :: "env \<Rightarrow> size_t \<Rightarrow> size_t \<Rightarrow> vmem \<Rightarrow> vmem option" where
  "kunmap bk address len s = do { (_, s) \<leftarrow> vmsp_unmap bk address len s; Some s }"

text \<open>The pair of calls on the kernel space, which is the current space itself if that is the kernel's.\<close>

definition page_window :: "env \<Rightarrow> size_t \<Rightarrow> vmem \<Rightarrow> vmem option" where
  "page_window bk page s =
     (case s of (vs, m) \<Rightarrow>
      let ks = (if vs_krn vs then vs else mem_kspace m) in do {
        (ptr, s) \<leftarrow> kmap bk PAGE_SIZE 0 (ucast page) (VMA_PHYS OR VM_RW) (ks, m);
        (ks, m) \<leftarrow> kunmap bk ptr PAGE_SIZE s;
        Some (if vs_krn vs then (ks, m) else (vs, m\<lparr>mem_kspace := ks\<rparr>)) })"

text \<open>The kernel's environment. Mapping a physical page opens no further window, so one unfolding of
  the recursion between \<^verbatim>\<open>vmsp_map\<close> and \<^verbatim>\<open>kmap\<close> is enough.\<close>

definition kernel_env :: "env \<Rightarrow> env" where
  "kernel_env bk = bk\<lparr>window := page_window (bk\<lparr>window := \<lambda>_ _. None\<rparr>)\<rparr>"

subsection \<open>Spaces\<close>

text \<open>\<^verbatim>\<open>vmsp_build\<close> with \<^verbatim>\<open>mmu_create_uspace\<close>; \<open>vs\<close> is the space that is current.\<close>

definition vmsp_build :: "env \<Rightarrow> vmem \<Rightarrow> (vmsp \<times> vmem) option" where
  "vmsp_build bk s =
     (case s of (vs, m) \<Rightarrow> do {
        (dir_pg, km) \<leftarrow> page_new (mem_km m);
        (vs, m) \<leftarrow> window bk dir_pg (vs, m\<lparr>mem_km := km\<rparr>);
        let m = m\<lparr>mem_dirs := (mem_dirs m)(dir_pg := uspace_dir dir_pg (mem_pg m))\<rparr>;
        Some (\<lparr>vs_usage = 1, vs_tree = Tip, vs_directory = dir_pg, vs_lower = MMU_BOUND_ULOWER, vs_upper = MMU_BOUND_UUPPER,
               vs_vsize = 0, vs_psize = 0, vs_ssize = 0, vs_tsize = 1, vs_lock = False, vs_max = 0x08000000,
               vs_share = None, vs_proc = None, vs_krn = False\<rparr>, vs, m) })"

text \<open>\<open>share\<close> is the address of the new sharing table.\<close>

definition vmsp_create :: "env \<Rightarrow> nat \<Rightarrow> vmem \<Rightarrow> (vmsp \<times> vmem) option" where
  "vmsp_create bk share s =
     do { (new, vs, m) \<leftarrow> vmsp_build bk s;
          hm \<leftarrow> hmp_init 16;
          Some (new\<lparr>vs_share := Some share\<rparr>, vs,
                m\<lparr>mem_shr := (mem_shr m)(share := Some \<lparr>psh_lock = False, psh_map = hm, psh_usage = 1\<rparr>)\<rparr>) }"

definition vmsp_open :: "vmsp \<Rightarrow> vmsp option" where
  "vmsp_open vs = (if vs_krn vs then None else Some (vs\<lparr>vs_usage := vs_usage vs + 1\<rparr>))"

text \<open>One page of \<^verbatim>\<open>vma_clone\<close>. The state is the copy, the original space and the memory.\<close>

definition clone_page :: "env \<Rightarrow> size_t \<Rightarrow> vma \<Rightarrow> size_t \<Rightarrow> vmsp \<times> vmem \<Rightarrow> (vmsp \<times> vmem) option" where
  "clone_page bk base vma address s =
     (case s of (vs1, vs2, m) \<Rightarrow>
      let page = mmu_read address (mem_pg m) in
      if page = 0 then Some s
      else do {
        (status, m) \<leftarrow> (if has (vma_flags vma) VMA_BACKEDUP then ops_shared bk vs1 base vma address page m
                         else do { (private, m) \<leftarrow> share_page vs1 page 0 m;
                                   Some (if private then VPG_PRIVATE else VPG_SHARED, m) });
        let set = (\<lambda>m. m\<lparr>mem_pg := snd (mmu_set (vs_directory vs1) address page (vma_flags vma AND VM_RX) (mem_pg m))\<rparr>);
        case status of
          VPG_PRIVATE \<Rightarrow> do {
            let m = protect_page address (vma_flags vma AND VM_RX) (set m);
            (_, m) \<leftarrow> share_page vs1 page 2 m;
            Some (vs1\<lparr>vs_ssize := vs_ssize vs1 + 1\<rparr>,
                  vs2\<lparr>vs_ssize := vs_ssize vs2 + 1, vs_psize := vs_psize vs2 - 1\<rparr>, m) }
        | VPG_SHARED \<Rightarrow> do {
            (_, m) \<leftarrow> share_page vs1 page 1 (set m);
            Some (vs1\<lparr>vs_ssize := vs_ssize vs1 + 1\<rparr>, vs2, m) }
        | VPG_BACKEDUP \<Rightarrow> Some (vs1, vs2, m) })"

definition vma_clone :: "env \<Rightarrow> size_t \<Rightarrow> vma \<Rightarrow> vmsp \<times> vmem \<Rightarrow> (vmsp \<times> vmem) option" where
  "vma_clone bk base vma s =
     (case s of (vs1, vs2, m) \<Rightarrow>
      let (cpy, m) = ops_clone (vma\<lparr>vma_usage := 1, vma_ptr := 0, vma_offset := 0\<rparr>) vma m in do {
        (vs1, vs2, m) \<leftarrow> (if has (vma_flags vma) VMA_COW
                          then for_pages (clone_page bk base vma) base (vma_length vma) (vs1, vs2, m)
                          else Some (vs1, vs2, m));
        Some (vs1\<lparr>vs_tree := fst (bb_insert base cpy (vs_tree vs1)), vs_vsize := vs_vsize vs1 + vma_length vma div PAGE_SIZE\<rparr>,
              vs2, m) })"

partial_function (option) clone_areas :: "env \<Rightarrow> (size_t \<times> vma) option \<Rightarrow> vmsp \<times> vmem \<Rightarrow> (vmsp \<times> vmem) option" where
  "clone_areas bk area s =
     (case area of
        None \<Rightarrow> Some s
      | Some (k, vma) \<Rightarrow> do {
          (vs1, vs2, m) \<leftarrow> vma_clone bk k vma s;
          clone_areas bk (bb_next (vs_tree vs2) k) (vs1, vs2, m) })"

definition vmsp_clone :: "env \<Rightarrow> vmem \<Rightarrow> (vmsp \<times> vmem) option" where
  "vmsp_clone bk s =
     (case s of (vs, m) \<Rightarrow>
      if vs_krn vs then None
      else do {
        vs \<leftarrow> lock_space vs;
        (copy, vs, m) \<leftarrow> vmsp_build bk (vs, m);
        if vs_lower vs \<noteq> vs_lower copy \<or> vs_upper vs \<noteq> vs_upper copy then None
        else do {
          share \<leftarrow> vs_share vs;
          sh \<leftarrow> mem_shr m share;
          let m = m\<lparr>mem_shr := (mem_shr m)(share := Some (sh\<lparr>psh_usage := psh_usage sh + 1\<rparr>))\<rparr>;
          (copy, vs, m) \<leftarrow> clone_areas bk (bb_left (vs_tree vs)) (copy\<lparr>vs_share := Some share\<rparr>, vs, m);
          Some (copy, unlock_space vs, m) } })"

partial_function (option) sweep_areas :: "env \<Rightarrow> vmem \<Rightarrow> vmem option" where
  "sweep_areas bk s =
     (case bb_left (vs_tree (fst s)) of
        None \<Rightarrow> Some s
      | Some (k, vma) \<Rightarrow> do { (_, s) \<leftarrow> vma_unmap bk k vma s; sweep_areas bk s })"

definition vmsp_sweep :: "env \<Rightarrow> vmem \<Rightarrow> vmem option" where
  "vmsp_sweep bk s =
     do { vs \<leftarrow> lock_space (fst s);
          (vs, m) \<leftarrow> sweep_areas bk (vs, snd s);
          Some (unlock_space vs, m) }"

text \<open>\<open>None\<close> in the place of the space once it is freed. The window of \<^verbatim>\<open>mmu_destroy_uspace\<close> is on the
  directory page.\<close>

definition vmsp_close :: "env \<Rightarrow> vmem \<Rightarrow> (vmsp option \<times> mem) option" where
  "vmsp_close bk s =
     (case s of (vs, m) \<Rightarrow>
      if vs_krn vs then None
      else if vs_usage vs \<noteq> 1 then Some (Some (vs\<lparr>vs_usage := vs_usage vs - 1\<rparr>), m)
      else do {
        (vs, m) \<leftarrow> vmsp_sweep bk (vs\<lparr>vs_usage := 0\<rparr>, m);
        share \<leftarrow> vs_share vs;
        sh \<leftarrow> mem_shr m share;
        m \<leftarrow> (if psh_usage sh \<noteq> 1 then Some (m\<lparr>mem_shr := (mem_shr m)(share := Some (sh\<lparr>psh_usage := psh_usage sh - 1\<rparr>))\<rparr>)
               else if hm_count (psh_map sh) \<noteq> 0 then None
               else Some (m\<lparr>mem_shr := (mem_shr m)(share := None)\<rparr>));
        (vs, m) \<leftarrow> window bk (vs_directory vs) (vs, m);
        (_, km) \<leftarrow> mmu_destroy_uspace (vs_directory vs) (mem_dirs m (vs_directory vs)) (mem_km m);
        let m = m\<lparr>mem_km := km\<rparr>;
        Some (None, case vs_proc vs of None \<Rightarrow> m | Some proc \<Rightarrow> log_io (DestroyProc proc) m) })"

subsection \<open>The invariant of an address space\<close>

abbreviation areas :: "vmsp \<Rightarrow> (size_t \<times> vma) set" where
  "areas vs \<equiv> set (entries (vs_tree vs))"

text \<open>The end of an area, as a number.\<close>

definition fin :: "size_t \<times> vma \<Rightarrow> nat" where
  "fin e = unat (fst e) + unat (vma_length (snd e))"

definition area_ok :: "vmsp \<Rightarrow> size_t \<times> vma \<Rightarrow> bool" where
  "area_ok vs e \<longleftrightarrow> vma_length (snd e) \<noteq> 0 \<and> unat (vma_length (snd e)) mod 4096 = 0 \<and>
     unat (vs_lower vs) \<le> unat (fst e) \<and> fin e \<le> unat (vs_upper vs)"

definition npages :: "vmsp \<Rightarrow> nat" where
  "npages vs = (\<Sum>e\<in>areas vs. unat (vma_length (snd e)) div 4096)"

definition vs_inv :: "vmsp \<Rightarrow> bool" where
  "vs_inv vs \<longleftrightarrow> bb_inv (vs_tree vs) \<and> (\<forall>e\<in>areas vs. area_ok vs e) \<and>
     (\<forall>e\<in>areas vs. \<forall>e'\<in>areas vs. fst e < fst e' \<longrightarrow> fin e \<le> unat (fst e')) \<and>
     vs_vsize vs = of_nat (npages vs)"

definition free_range :: "vmsp \<Rightarrow> nat \<Rightarrow> nat \<Rightarrow> bool" where
  "free_range vs b n \<longleftrightarrow> unat (vs_lower vs) \<le> b \<and> b + n \<le> unat (vs_upper vs) \<and>
     (\<forall>e\<in>areas vs. fin e \<le> b \<or> b + n \<le> unat (fst e))"

text \<open>The length fits into the space, and sums with it do not overflow.\<close>

definition room :: "vmsp \<Rightarrow> size_t \<Rightarrow> bool" where
  "room vs len \<longleftrightarrow> vs_lower vs \<noteq> 0 \<and> unat (vs_lower vs) + unat len \<le> unat (vs_upper vs) \<and>
     unat (vs_upper vs) + unat len < 2 ^ 32"

lemma inv_tree: "vs_inv vs \<Longrightarrow> bb_inv (vs_tree vs)"
  by (simp add: vs_inv_def)

lemma inv_area: "vs_inv vs \<Longrightarrow> e \<in> areas vs \<Longrightarrow> area_ok vs e"
  by (simp add: vs_inv_def)

lemma inv_disjoint: "vs_inv vs \<Longrightarrow> e \<in> areas vs \<Longrightarrow> e' \<in> areas vs \<Longrightarrow> fst e < fst e' \<Longrightarrow> fin e \<le> unat (fst e')"
  by (simp add: vs_inv_def)

lemma unat_add_u32: "unat (a :: u32) + unat b < 2 ^ 32 \<Longrightarrow> unat (a + b) = unat a + unat b"
  by (simp add: unat_word_ariths)

lemma bb_left_Some: "bb_inv t \<Longrightarrow> bb_left t = Some e \<Longrightarrow> \<exists>ys. entries t = e # ys"
  by (auto simp: bb.first_items split: list.splits)

lemma bb_left_None: "bb_inv t \<Longrightarrow> bb_left t = None \<longleftrightarrow> entries t = []"
  by (auto simp: bb.first_items split: list.splits)

lemma sorted_after:
  assumes "bb_inv t" "entries t = xs @ (k, x) # ys"
  shows "\<forall>e\<in>set xs. fst e < k" "\<forall>e\<in>set ys. k < fst e"
  using bb.sorted_items [OF assms(1)] assms(2) by (auto simp: sorted_wrt_append)

lemma area_end:
  assumes "vs_inv vs" "(k, a) \<in> areas vs" "unat (vs_upper vs) + unat len < 2 ^ 32"
  shows "unat (k + vma_length a) = fin (k, a)" "unat (k + vma_length a + len) = fin (k, a) + unat len"
proof -
  have "fin (k, a) \<le> unat (vs_upper vs)" using assms(1,2) by (auto simp: vs_inv_def area_ok_def)
  then show 1: "unat (k + vma_length a) = fin (k, a)"
    using assms(3) unat_add_u32 [of k "vma_length a"] by (simp add: fin_def)
  show "unat (k + vma_length a + len) = fin (k, a) + unat len"
    using 1 assms(3) \<open>fin (k, a) \<le> _\<close> unat_add_u32 [of "k + vma_length a" len] by simp
qed

lemma free_after:
  assumes "vs_inv vs" "entries (vs_tree vs) = xs @ (k, a) # ys" "fin (k, a) + n \<le> unat (vs_upper vs)"
    "\<forall>e\<in>set ys. fin (k, a) + n \<le> unat (fst e)"
  shows "free_range vs (fin (k, a)) n"
proof -
  have t: "bb_inv (vs_tree vs)" using assms(1) by (simp add: vs_inv_def)
  have "fin e \<le> unat k" if "e \<in> set xs" for e
    using that assms(1,2) sorted_after(1) [OF t assms(2)] by (auto simp: vs_inv_def)
  then have "\<forall>e\<in>set xs. fin e \<le> fin (k, a)" by (force simp: fin_def)
  moreover have "unat (vs_lower vs) \<le> unat k" using assms(1,2) by (auto simp: vs_inv_def area_ok_def)
  ultimately show ?thesis using assms by (auto simp: free_range_def fin_def)
qed

lemma free_before_or_after:
  assumes "(k, a) \<in> areas vs" "free_range vs b n"
  shows "b + n \<le> unat k \<or> fin (k, a) \<le> b"
  using assms by (auto simp: free_range_def)

text \<open>The three outcomes of one step of the scan: no room up to the bound, a slot right after the
  area, or no slot before the next area.\<close>

lemma slot_none:
  assumes "(k, a) \<in> areas vs" "fin (k, a) + n > unat (vs_upper vs)" "free_range vs b n"
  shows "b + n \<le> unat k"
  using free_before_or_after [OF assms(1,3)] assms(2,3) by (auto simp: free_range_def)

lemma slot_here:
  assumes "vs_inv vs" "unat (vs_upper vs) + unat len < 2 ^ 32" "entries (vs_tree vs) = xs @ (k, a) # ys"
    "\<not> k + vma_length a + len > vs_upper vs" "\<forall>e\<in>set ys. k + vma_length a + len \<le> fst e"
  shows "k + vma_length a \<noteq> 0 \<and> free_range vs (unat (k + vma_length a)) (unat len)"
proof -
  have mem: "(k, a) \<in> areas vs" using assms(3) by simp
  note e = area_end [OF assms(1) mem assms(2)]
  have "unat (k + vma_length a) \<noteq> 0" using inv_area [OF assms(1) mem] e(1) by (auto simp: area_ok_def fin_def unat_eq_0)
  then have "k + vma_length a \<noteq> 0" by auto
  moreover have "\<forall>x\<in>set ys. fin (k, a) + unat len \<le> unat (fst x)" using assms(5) e(2) by (metis word_le_nat_alt)
  moreover have "fin (k, a) + unat len \<le> unat (vs_upper vs)" using assms(4) e(2) by (simp add: word_less_nat_alt)
  ultimately show ?thesis using free_after [OF assms(1,3)] e(1) by simp
qed

text \<open>The scan finds the lowest slot above an area, if there is one.\<close>

lemma slot_after_spec:
  assumes "vs_inv vs" "unat (vs_upper vs) + unat len < 2 ^ 32" "entries (vs_tree vs) = xs @ (k, a) # ys"
  shows "(slot_after vs len k a \<noteq> 0 \<longrightarrow> free_range vs (unat (slot_after vs len k a)) (unat len)) \<and>
    (slot_after vs len k a = 0 \<longrightarrow> (\<forall>b. free_range vs b (unat len) \<longrightarrow> b + unat len \<le> unat k))"
  using assms(3)
proof (induction ys arbitrary: xs k a)
  case Nil
  note here = slot_here [OF assms(1,2) Nil]
  have mem: "(k, a) \<in> areas vs" using Nil by simp
  have "bb_next (vs_tree vs) k = None" using bb.next_of_split [OF inv_tree [OF assms(1)] Nil] by simp
  moreover have "k + vma_length a + len > vs_upper vs \<Longrightarrow> fin (k, a) + unat len > unat (vs_upper vs)"
    using area_end(2) [OF assms(1) mem assms(2)] by (simp add: word_less_nat_alt)
  ultimately show ?case using here slot_none [OF mem] by (subst (1 2 3) slot_after.simps) auto
next
  case (Cons e' ys)
  obtain k' a' where e': "e' = (k', a')" by (cases e')
  have ent: "entries (vs_tree vs) = (xs @ [(k, a)]) @ (k', a') # ys" using Cons(2) e' by simp
  note t = inv_tree [OF assms(1)] and here = slot_here [OF assms(1,2) Cons(2)]
  have mem: "(k, a) \<in> areas vs" using Cons(2) by simp
  note e = area_end(2) [OF assms(1) mem assms(2)]
  have nx: "bb_next (vs_tree vs) k = Some (k', a')" using bb.next_of_split [OF t Cons(2)] e' by simp
  have full: "k + vma_length a + len > vs_upper vs \<Longrightarrow> fin (k, a) + unat len > unat (vs_upper vs)"
    using e by (simp add: word_less_nat_alt)
  have fits: "k + vma_length a + len \<le> k' \<Longrightarrow> \<forall>x\<in>set (e' # ys). k + vma_length a + len \<le> fst x"
    using sorted_after(2) [OF t ent] e' by auto
  have skip: "b + unat len \<le> unat k"
    if "free_range vs b (unat len)" "b + unat len \<le> unat k'" "\<not> k + vma_length a + len \<le> k'" for b
    using free_before_or_after [OF mem that(1)] that(2,3) e by (auto simp: word_le_nat_alt)
  have "slot_after vs len k a = (if k + vma_length a + len > vs_upper vs then 0
      else if k + vma_length a + len \<le> k' then k + vma_length a else slot_after vs len k' a')"
    using nx by (subst slot_after.simps) simp
  then show ?case using Cons(1) [OF ent] here fits slot_none [OF mem full] skip by (auto simp del: slot_after.simps)
qed

subsection \<open>Mapping\<close>

text \<open>Everything of a space but its counters of pages and its lock.\<close>

definition same_space :: "vmsp \<Rightarrow> vmsp \<Rightarrow> bool" where
  "same_space vs vs' \<longleftrightarrow> vs_tree vs' = vs_tree vs \<and> vs_lower vs' = vs_lower vs \<and> vs_upper vs' = vs_upper vs \<and>
     vs_vsize vs' = vs_vsize vs \<and> vs_max vs' = vs_max vs \<and> vs_krn vs' = vs_krn vs \<and> vs_share vs' = vs_share vs"

named_theorems space_frames

lemma same_refl [simp]: "same_space vs vs"
  by (simp add: same_space_def)

lemma same_trans: "same_space vs vs' \<Longrightarrow> same_space vs' vs'' \<Longrightarrow> same_space vs vs''"
  by (simp add: same_space_def)

lemma same_lock [space_frames]: "lock_space vs = Some vs' \<Longrightarrow> same_space vs vs'" "same_space vs (unlock_space vs)"
  by (auto simp: lock_space_def unlock_space_def same_space_def split: if_splits)

lemma same_inv: "same_space vs vs' \<Longrightarrow> vs_inv vs' = vs_inv vs"
  by (simp add: same_space_def vs_inv_def area_ok_def npages_def)

text \<open>The contract of the kernel window: the current space is left alone, unless it is the kernel's.\<close>

definition window_ok :: "env \<Rightarrow> bool" where
  "window_ok bk \<longleftrightarrow> (\<forall>page vs m vs' m'. window bk page (vs, m) = Some (vs', m') \<longrightarrow> \<not> vs_krn vs \<longrightarrow> vs' = vs)"

lemma window_okD: "window_ok bk \<Longrightarrow> window bk page (vs, m) = Some (vs', m') \<Longrightarrow> \<not> vs_krn vs \<Longrightarrow> vs' = vs"
  unfolding window_ok_def by blast

lemma kernel_window_ok: "window_ok (kernel_env bk)"
  by (auto simp: window_ok_def kernel_env_def page_window_def Let_def bind_eq_Some_conv)

text \<open>Areas made by \<^verbatim>\<open>vma_create\<close> are not marked as unmapped, and blank pages of the kernel need no window.\<close>

definition made :: "bool \<Rightarrow> vma \<Rightarrow> bool" where
  "made krn a \<longleftrightarrow> \<not> has (vma_flags a) VM_UNMAPED \<and>
     (krn \<longrightarrow> vma_op a \<in> {OpsAnon, OpsStack, OpsHeap, OpsPipe} \<longrightarrow> has (vma_flags a) VM_FAST_ALLOC)"

lemma same_relock: "lock_space (unlock_space vs) = Some vs' \<Longrightarrow> same_space vs vs'"
  using same_lock same_trans by blast

lemma fetch_blank_same:
  assumes "window_ok bk" "vs_krn vs \<longrightarrow> has (vma_flags a) VM_FAST_ALLOC" "vma_fetch_blank bk a (vs, m) = Some (page, vs', m')"
  shows "same_space vs vs'"
proof (cases "has (vma_flags a) VM_FAST_ALLOC")
  case True
  then show ?thesis using assms(3) by (auto simp: vma_fetch_blank_def bind_eq_Some_conv)
next
  case False
  then obtain p km vs1 m1 where "window bk p (unlock_space vs, m\<lparr>mem_km := km\<rparr>) = Some (vs1, m1)" "lock_space vs1 = Some vs'"
    using assms(3) by (auto simp: vma_fetch_blank_def Let_def bind_eq_Some_conv)
  moreover have "\<not> vs_krn (unlock_space vs)" using False assms(2) by (simp add: unlock_space_def)
  ultimately show ?thesis using window_okD [OF assms(1)] same_relock by blast
qed

lemma fetch_same [space_frames]:
  assumes "window_ok bk" "made (vs_krn vs) a" "ops_fetch bk a off blocking (vs, m) = Some (page, vs', m')"
  shows "same_space vs vs'"
  using assms(2,3) fetch_blank_same [OF assms(1), of vs a m page vs' m']
  by (cases "vma_op a")
    (auto simp: ops_fetch_def vma_fetch_phys_def vma_fetch_file_def vma_fetch_dlib_def made_def Let_def bind_eq_Some_conv
      split: if_splits prod.splits intro: same_relock)

lemma resolve_same [space_frames]: "ops_resolve vs a vaddr page m = Some (vs', m') \<Longrightarrow> same_space vs vs'"
  by (cases "vma_op a")
    (auto simp: ops_resolve_def vma_resolve_blank_def vma_resolve_phys_def vma_resolve_file_def vma_resolve_filecpy_def
      vma_resolve_dlib_def same_space_def bind_eq_Some_conv)

lemma made_same: "same_space vs vs' \<Longrightarrow> made (vs_krn vs) a \<Longrightarrow> made (vs_krn vs') a"
  by (simp add: same_space_def)

lemma missing_same:
  assumes "window_ok bk" "made (vs_krn vs) a" "vma_missing bk base a vaddr (vs, m) = Some (ok, vs', m')"
  shows "same_space vs vs'"
proof -
  obtain page vs1 m1 where 1: "ops_fetch bk a (file_offset base a vaddr) False (vs, m) = Some (page, vs1, m1)"
    using assms(3) by (auto simp: vma_missing_def Let_def bind_eq_Some_conv)
  note s1 = fetch_same [OF assms(1,2) 1]
  show ?thesis
  proof (cases "page = 0")
    case True
    obtain page2 vs2 m2 where 2: "ops_fetch bk a (file_offset base a vaddr) True (vs1, m1) = Some (page2, vs2, m2)"
      using assms(3) 1 True by (auto simp: vma_missing_def Let_def bind_eq_Some_conv)
    have "same_space vs2 vs'" using assms(2,3) 1 2 True resolve_same
      by (fastforce simp: vma_missing_def Let_def made_def bind_eq_Some_conv split: if_splits)
    then show ?thesis using fetch_same [OF assms(1) made_same [OF s1 assms(2)] 2] s1 same_trans by blast
  next
    case False
    then have "same_space vs1 vs'" using assms(3) 1 resolve_same by (auto simp: vma_missing_def Let_def bind_eq_Some_conv)
    then show ?thesis using s1 same_trans by blast
  qed
qed

lemma resolve_page_same:
  assumes "window_ok bk" "made (vs_krn vs) a" "vma_resolve bk base a vaddr True False (vs, m) = Some (ret, vs', m')"
  shows "same_space vs vs'"
  using assms(3) missing_same [OF assms(1,2)] by (fastforce simp: vma_resolve_def bind_eq_Some_conv split: if_splits)

text \<open>On a whole number of pages the loops are recursions on that number.\<close>

fun page_iter :: "(size_t \<Rightarrow> 's \<Rightarrow> 's option) \<Rightarrow> size_t \<Rightarrow> nat \<Rightarrow> 's \<Rightarrow> 's option" where
  "page_iter f a 0 s = Some s"
| "page_iter f a (Suc n) s = do { s \<leftarrow> f a s; page_iter f (a + PAGE_SIZE) n s }"

lemma pages_word:
  assumes "Suc n * 4096 < 2 ^ 32"
  shows "of_nat (Suc n * 4096) \<noteq> (0 :: u32)" "of_nat (Suc n * 4096) - PAGE_SIZE = (of_nat (n * 4096) :: u32)"
proof -
  have "unat (of_nat (Suc n * 4096) :: u32) = Suc n * 4096" using assms by (simp add: unat_of_nat take_bit_eq_mod del: of_nat_mult of_nat_Suc mult_Suc)
  then show "of_nat (Suc n * 4096) \<noteq> (0 :: u32)" by (metis mult_is_0 nat.distinct(1) unat_0 zero_neq_numeral)
qed simp

lemma for_pages_iter: "n * 4096 < 2 ^ 32 \<Longrightarrow> for_pages f a (of_nat (n * 4096)) s = page_iter f a n s"
proof (induction n arbitrary: a s)
  case 0
  then show ?case by (subst for_pages.simps) simp
next
  case (Suc n)
  then have "for_pages f (a + PAGE_SIZE) (of_nat (n * 4096)) = page_iter f (a + PAGE_SIZE) n" by auto
  then show ?case using pages_word [OF Suc(2)] by (subst for_pages.simps) (simp del: of_nat_mult mult_Suc of_nat_Suc)
qed

lemma for_pages_len: "unat len mod 4096 = 0 \<Longrightarrow> for_pages f a len s = page_iter f a (unat len div 4096) s"
proof -
  assume "unat len mod 4096 = 0"
  then have "unat len div 4096 * 4096 = unat len" by auto
  then show ?thesis using for_pages_iter [of "unat len div 4096" f a s] unat_u32 [of len]
    by (simp del: of_nat_mult)
qed

lemma resolve_all_same:
  assumes "window_ok bk"
  shows "n * 4096 < 2 ^ 32 \<Longrightarrow> made (vs_krn vs) a \<Longrightarrow>
    resolve_all bk base a addr (of_nat (n * 4096)) (vs, m) = Some (vs', m') \<Longrightarrow> same_space vs vs'"
proof (induction n arbitrary: vs m addr)
  case 0
  then show ?case by (subst (asm) resolve_all.simps) simp
next
  case (Suc n)
  note w = pages_word [OF Suc(2)]
  obtain ret vs1 m1 where 1: "vma_resolve bk base a addr True False (vs, m) = Some (ret, vs1, m1)"
    "ret \<noteq> 0 \<Longrightarrow> vs1 = vs'" "ret = 0 \<Longrightarrow> resolve_all bk base a (addr + PAGE_SIZE) (of_nat (n * 4096)) (vs1, m1) = Some (vs', m')"
    using Suc(4) w by (subst (asm) resolve_all.simps) (auto simp del: of_nat_mult mult_Suc of_nat_Suc simp: bind_eq_Some_conv split: if_splits)
  note s = resolve_page_same [OF assms Suc(3) 1(1)]
  show ?case
  proof (cases "ret = 0")
    case True
    then show ?thesis using Suc(1) [OF _ made_same [OF s Suc(3)] 1(3)] Suc(2) s same_trans by auto
  qed (use s 1(2) in simp)
qed

lemma has_or [simp]: "has (a OR b) f \<longleftrightarrow> has a f \<or> has b f"
  by (auto simp: has_def bit.conj_disj_distrib2 or_eq_0_iff)

lemma has_and: "has (a AND b) f \<longleftrightarrow> has a (b AND f)"
  by (simp add: has_def and.assoc)

lemma vma_kind_made:
  assumes "vma_kind krn len ptr off flags m = Some (a, flags', m')"
  shows "vma_length a = len" "made krn a"
  using assms by (auto simp: vma_kind_def made_def Let_def has_and split: if_splits) (auto simp: has_def)

lemma insert_area:
  assumes "vs_inv vs" "free_range vs (unat b) (unat len)" "vma_length a = len" "len \<noteq> 0" "unat len mod 4096 = 0"
  defines "vs' \<equiv> vs\<lparr>vs_tree := fst (bb_insert b a (vs_tree vs)), vs_vsize := vs_vsize vs + len div PAGE_SIZE\<rparr>"
  shows "vs_inv vs'" "areas vs' = insert (b, a) (areas vs)" "b \<notin> fst ` areas vs"
proof -
  note t = inv_tree [OF assms(1)]
  have pos: "0 < unat len" using assms(4) by (simp add: unat_gt_0)
  have apart: "fin e \<le> unat b \<or> unat b + unat len \<le> unat (fst e)" if "e \<in> areas vs" for e
    using assms(2) that by (auto simp: free_range_def)
  have grow: "unat (fst e) < fin e" if "e \<in> areas vs" for e
    using inv_area [OF assms(1) that] by (simp add: area_ok_def fin_def unat_gt_0)
  show new: "b \<notin> fst ` areas vs" using apart grow pos by fastforce
  show ins: "areas vs' = insert (b, a) (areas vs)" using bb.ins_items [OF t new] by (simp add: vs'_def)
  have fb: "fin (b, a) = unat b + unat len" by (simp add: fin_def assms(3))
  have "\<forall>e\<in>areas vs'. area_ok vs' e"
    using inv_area [OF assms(1)] assms(2-5) by (auto simp: ins area_ok_def free_range_def fin_def) (auto simp: vs'_def area_ok_def fin_def)
  moreover have "fin e \<le> unat (fst e')" if "e \<in> areas vs'" "e' \<in> areas vs'" "fst e < fst e'" for e e'
    using that apart grow inv_disjoint [OF assms(1)] fb pos unfolding ins by (fastforce simp: word_less_nat_alt)
  moreover have "(b, a) \<notin> areas vs" using new by force
  then have "npages vs' = unat len div 4096 + npages vs" unfolding npages_def ins using assms(3) by simp
  then have "vs_vsize vs' = of_nat (npages vs')"
    using assms(1) word_arith_nat_div [of len PAGE_SIZE] by (simp add: vs'_def vs_inv_def)
  ultimately show "vs_inv vs'" using bb.ins_inv [OF t] by (auto simp: vs_inv_def vs'_def)
qed

lemma vma_create_areas:
  assumes "vs_inv vs" "free_range vs (unat b) (unat len)" "len \<noteq> 0" "unat len mod 4096 = 0" "window_ok bk"
    "vma_create bk b len ptr off flags (vs, m) = Some (vs', m')"
  shows "\<exists>a flags' m1. vma_kind (vs_krn vs) len ptr off flags m = Some (a, flags', m1) \<and> vma_length a = len \<and> areas vs' = insert (b, a) (areas vs) \<and> vs_inv vs' \<and>
    vs_lower vs' = vs_lower vs \<and> vs_upper vs' = vs_upper vs \<and> vs_max vs' = vs_max vs"
proof -
  obtain a flags' m1 where k: "vma_kind (vs_krn vs) len ptr off flags m = Some (a, flags', m1)"
    using assms(6) by (auto simp: vma_create_def bind_eq_Some_conv split: if_splits)
  note md = vma_kind_made [OF k]
  define vs1 where "vs1 = vs\<lparr>vs_tree := fst (bb_insert b a (vs_tree vs)), vs_vsize := vs_vsize vs + len div PAGE_SIZE\<rparr>"
  note i = insert_area [OF assms(1,2) md(1) assms(3,4), folded vs1_def]
  have m1: "made (vs_krn vs1) a" using md(2) by (simp add: vs1_def)
  have whole: "unat len div 4096 * 4096 = unat len" using assms(4) by auto
  have len: "of_nat (unat len div 4096 * 4096) = len" unfolding whole by simp
  have same: "same_space vs1 vs'"
  proof (cases "has flags' VM_RESOLVE")
    case True
    then have ra: "resolve_all bk b a b (of_nat (unat len div 4096 * 4096)) (vs1, m1) = Some (vs', m')"
      unfolding len using assms(6) k by (simp add: vma_create_def vs1_def Let_def split: if_splits)
    have "unat len div 4096 * 4096 < 2 ^ 32" unfolding whole using unat_u32 [of len] by simp
    from resolve_all_same [OF assms(5) this m1 ra] show ?thesis .
  next
    case False
    then show ?thesis using assms(6) k by (auto simp: vma_create_def vs1_def Let_def split: if_splits)
  qed
  then have "areas vs' = areas vs1" "vs_inv vs'" "vs_lower vs' = vs_lower vs1" "vs_upper vs' = vs_upper vs1" "vs_max vs' = vs_max vs1"
    using i(1) same_inv [OF same] by (simp_all add: same_space_def)
  then show ?thesis using i(2) md(1) k by (intro exI [of _ a] exI [of _ flags'] exI [of _ m1]) (simp add: vs1_def)
qed

lemma page_multiple: "len AND (PAGE_SIZE - 1) = (0 :: u32) \<longleftrightarrow> unat len mod 4096 = 0"
proof -
  have "len AND (PAGE_SIZE - 1) = len mod 4096" using take_bit_eq_mask [of 12 len] by (simp add: mask_eq_exp_minus_1 take_bit_eq_mod)
  moreover have "unat (len mod 4096) = unat len mod 4096" by (simp add: unat_mod)
  ultimately show ?thesis using unat_eq_0 [of "len mod 4096"] by presburger
qed

lemma find_slot_spec:
  assumes "vs_inv vs" "room vs len" "vs_lock vs"
  shows "\<exists>b. vmsp_find_slot vs len = Some b \<and> (b \<noteq> 0 \<longrightarrow> free_range vs (unat b) (unat len)) \<and>
    (b = 0 \<longrightarrow> (\<forall>c. \<not> free_range vs c (unat len)))"
proof -
  have low: "unat (vs_lower vs) + unat len \<le> unat (vs_upper vs)" "vs_lower vs \<noteq> 0" "unat (vs_upper vs) + unat len < 2 ^ 32"
    using assms(2) by (auto simp: room_def)
  note t = inv_tree [OF assms(1)]
  show ?thesis
  proof (cases "bb_left (vs_tree vs)")
    case None
    then have "areas vs = {}" using bb_left_None [OF t] by simp
    then show ?thesis using None assms(3) low by (simp add: vmsp_find_slot_def free_range_def)
  next
    case (Some e)
    obtain k a where e: "e = (k, a)" by (cases e)
    obtain ys where ys: "entries (vs_tree vs) = [] @ (k, a) # ys" using bb_left_Some [OF t Some] e by auto
    have sum: "unat (vs_lower vs + len) = unat (vs_lower vs) + unat len"
      using unat_add_u32 low(1) unat_u32 [of "vs_upper vs"] by (simp add: le_less_trans)
    show ?thesis
    proof (cases "vs_lower vs + len \<le> k")
      case True
      then have "unat (vs_lower vs) + unat len \<le> unat (fst x)" if "x \<in> areas vs" for x
        using that sorted_after(2) [OF t ys] ys sum by (fastforce simp: word_le_nat_alt word_less_nat_alt)
      then show ?thesis using True Some e assms(3) low by (simp add: vmsp_find_slot_def free_range_def)
    next
      case False
      then have "\<not> b + unat len \<le> unat k" if "free_range vs b (unat len)" for b
        using that sum by (auto simp: word_le_nat_alt free_range_def)
      then show ?thesis using slot_after_spec [OF assms(1) low(3) ys] False Some e assms(3)
        by (auto simp: vmsp_find_slot_def simp del: slot_after.simps)
    qed
  qed
qed

lemma search_le_split:
  assumes "bb_inv t" "bb_search t j (- 1) = Some (k, a)"
  shows "(k, a) \<in> set (entries t)" "k \<le> j" "\<forall>e\<in>set (entries t). fst e \<le> j \<longrightarrow> fst e \<le> k"
  using bb.search_le [OF assms(1), of "- 1" j] assms(2) by (simp_all add: le_spec_def)

lemma search_le_none:
  assumes "bb_inv t" "bb_search t j (- 1) = None"
  shows "\<forall>e\<in>set (entries t). j < fst e"
  using bb.search_le [OF assms(1), of "- 1" j] assms(2) by (simp add: le_spec_def)

lemma next_spec:
  assumes "bb_inv t" "(k, a) \<in> set (entries t)"
  shows "case bb_next t k of None \<Rightarrow> \<forall>e\<in>set (entries t). fst e \<le> k
    | Some (k', a') \<Rightarrow> (k', a') \<in> set (entries t) \<and> k < k' \<and> (\<forall>e\<in>set (entries t). fst e \<le> k \<or> k' \<le> fst e)"
proof -
  obtain xs ys where s: "entries t = xs @ (k, a) # ys" using assms(2) split_list by fastforce
  note o = sorted_after [OF assms(1) s]
  show ?thesis
  proof (cases ys)
    case (Cons e zs)
    obtain k' a' where e: "e = (k', a')" by (cases e)
    have "\<forall>e\<in>set zs. k' < fst e" using sorted_after(2) [OF assms(1), of "xs @ [(k, a)]" k' a' zs] s Cons e by simp
    then show ?thesis using bb.next_of_split [OF assms(1) s] s Cons e o by fastforce
  qed (use bb.next_of_split [OF assms(1) s] s o in fastforce)
qed

lemma same_key: "bb_inv t \<Longrightarrow> (k, a) \<in> set (entries t) \<Longrightarrow> (k, b) \<in> set (entries t) \<Longrightarrow> a = b"
  by (metis bb.lookup_iff option.inject)

lemma fin_mono:
  assumes "vs_inv vs" "x \<in> areas vs" "(k, a) \<in> areas vs" "fst x \<le> k"
  shows "fin x \<le> fin (k, a)"
proof (cases "fst x = k")
  case True
  then have "x = (k, a)" using same_key [OF inv_tree [OF assms(1)]] assms(2,3) by (metis prod.collapse)
  then show ?thesis by simp
next
  case False
  then have "fin x \<le> unat k" using inv_disjoint [OF assms(1-3)] assms(4) by simp
  then show ?thesis by (simp add: fin_def)
qed

lemma slot_address_spec:
  assumes "vs_inv vs" "unat address + unat len < 2 ^ 32" "len \<noteq> 0"
  shows "vmsp_slot_address vs address len = (if free_range vs (unat address) (unat len) then address else 0)"
proof -
  note t = inv_tree [OF assms(1)]
  have sum: "unat (address + len) = unat address + unat len" using unat_add_u32 assms(2) by simp
  show ?thesis
  proof (cases "address < vs_lower vs \<or> address + len > vs_upper vs")
    case True
    then show ?thesis using sum by (auto simp: vmsp_slot_address_def free_range_def word_less_nat_alt)
  next
    case inside: False
    have free: "free_range vs (unat address) (unat len) \<longleftrightarrow>
        (\<forall>e\<in>areas vs. fin e \<le> unat address \<or> address + len \<le> fst e)"
      using inside sum by (auto simp: free_range_def word_less_nat_alt word_le_nat_alt)
    show ?thesis
    proof (cases "bb_search (vs_tree vs) address (- 1)")
      case None
      note n = search_le_none [OF t None]
      have "(\<forall>e\<in>areas vs. fin e \<le> unat address \<or> address + len \<le> fst e) \<longleftrightarrow> (\<forall>e\<in>areas vs. address + len \<le> fst e)"
        using n by (fastforce simp: fin_def word_less_nat_alt)
      also have "\<dots> \<longleftrightarrow> (case bb_left (vs_tree vs) of None \<Rightarrow> True | Some (k, a) \<Rightarrow> address + len \<le> k)"
        using bb.sorted_items [OF t] by (force simp: bb.first_items [OF t] split: list.splits)
      finally show ?thesis using inside None free by (auto simp: vmsp_slot_address_def split: option.splits)
    next
      case (Some e)
      obtain k a where e: "e = (k, a)" by (cases e)
      note s = search_le_split [OF t Some [unfolded e]]
      have kend: "unat (k + vma_length a) = fin (k, a)"
        using area_end(1) [OF assms(1) s(1), of 0] unat_u32 by simp
      have below: "fin x \<le> unat address" if "x \<in> areas vs" "fst x \<le> k" "fin (k, a) \<le> unat address" for x
        using that fin_mono [OF assms(1) that(1) s(1)] by simp
      have pos: "0 < unat len" using assms(3) by (simp add: unat_gt_0)
      have not_le: "\<not> address + len \<le> k" using s(2) sum pos by (simp add: word_le_nat_alt)
      have above: "\<not> fin x \<le> unat address" if "x \<in> areas vs" "k < fst x" for x
        using that s(3) by (force simp: fin_def word_le_nat_alt word_less_nat_alt)
      have "(\<forall>e\<in>areas vs. fin e \<le> unat address \<or> address + len \<le> fst e) \<longleftrightarrow>
          fin (k, a) \<le> unat address \<and> (case bb_next (vs_tree vs) k of None \<Rightarrow> True | Some (k', a') \<Rightarrow> address + len \<le> k')"
        (is "?l \<longleftrightarrow> ?r")
      proof
        assume l: ?l
        then have "fin (k, a) \<le> unat address" using s(1) not_le by force
        then show ?r using l next_spec [OF t s(1)] above by (force split: option.splits)
      next
        assume r: ?r
        then show ?l using next_spec [OF t s(1)] below by (force split: option.splits)
      qed
      then show ?thesis using inside Some e free kend
        by (auto simp: vmsp_slot_address_def word_less_nat_alt word_le_nat_alt split: option.splits)
    qed
  qed
qed

text \<open>The choice of the base address, and what the caller sees when there is none.\<close>

lemma map_base:
  assumes "vs_inv vs" "room vs len" "\<not> vs_lock vs" "len \<noteq> 0" "unat len mod 4096 = 0" "off AND (PAGE_SIZE - 1) = 0" "len \<le> vs_max vs"
    "address \<noteq> 0 \<longrightarrow> unat address + unat len < 2 ^ 32"
  shows "(\<exists>b. b \<noteq> 0 \<and> free_range vs (unat b) (unat len) \<and>
      (address \<noteq> 0 \<and> free_range vs (unat address) (unat len) \<longrightarrow> b = address) \<and> (address \<noteq> 0 \<and> has flags VMA_FIXED \<longrightarrow> b = address) \<and>
      vmsp_map bk address len ptr off flags (vs, m) =
        do { (vs, m) \<leftarrow> vma_create bk b len ptr off flags (vs\<lparr>vs_lock := True\<rparr>, m); Some (Inr b, unlock_space vs, m) }) \<or>
    (address \<noteq> 0 \<and> has flags VMA_FIXED \<and> \<not> free_range vs (unat address) (unat len) \<and>
      vmsp_map bk address len ptr off flags (vs, m) = Some (Inl ERANGE, vs, m)) \<or>
    (\<forall>c. \<not> free_range vs c (unat len)) \<and> vmsp_map bk address len ptr off flags (vs, m) = Some (Inl ENOMEM, vs, m)"
proof -
  define vl where "vl = vs\<lparr>vs_lock := True\<rparr>"
  have same: "vs_inv vl" "room vl len" "vs_lock vl" "vs_max vl = vs_max vs" "unlock_space vl = vs"
    using assms(1-3) by (simp_all add: vl_def vs_inv_def area_ok_def npages_def room_def unlock_space_def)
  have fr: "free_range vl c n = free_range vs c n" for c n by (simp add: vl_def free_range_def)
  from find_slot_spec [OF same(1-3)]
  obtain b where b: "vmsp_find_slot vl len = Some b" "b \<noteq> 0 \<Longrightarrow> free_range vs (unat b) (unat len)"
      "b = 0 \<Longrightarrow> \<forall>c. \<not> free_range vs c (unat len)"
    unfolding fr by blast
  have sa: "address \<noteq> 0 \<Longrightarrow> vmsp_slot_address vl address len = (if free_range vs (unat address) (unat len) then address else 0)"
    using slot_address_spec [OF same(1) _ assms(4)] assms(8) fr by simp
  have "lock_space vs = Some vl" using assms(3) by (simp add: lock_space_def vl_def)
  then have m: "vmsp_map bk address len ptr off flags (vs, m) =
      (let base = (if address \<noteq> 0 then vmsp_slot_address vl address len else 0) in
       if address \<noteq> 0 \<and> base = 0 \<and> has flags VMA_FIXED then Some (Inl ERANGE, vs, m)
       else let base = (if base = 0 then b else base) in
         if base = 0 then Some (Inl ENOMEM, vs, m)
         else do { (vs, m) \<leftarrow> vma_create bk base len ptr off flags (vl, m); Some (Inr base, unlock_space vs, m) })"
    using assms(4-6) leD [OF assms(7)] b(1) same(5) page_multiple [of len] by (simp add: vmsp_map_def Let_def)
  show ?thesis
  proof (cases "address \<noteq> 0 \<and> free_range vs (unat address) (unat len)")
    case True
    then show ?thesis using m sa by (intro disjI1 exI [of _ address]) (simp add: vl_def)
  next
    case False
    then show ?thesis using m sa b(2,3) by (cases "b = 0"; cases "address \<noteq> 0 \<and> has flags VMA_FIXED") (auto simp: vl_def Let_def)
  qed
qed

lemma map_areas:
  assumes "vs_inv vs" "room vs len" "\<not> vs_lock vs" "address \<noteq> 0 \<longrightarrow> unat address + unat len < 2 ^ 32"
    "vmsp_map (kernel_env bk) address len ptr off flags (vs, m) = Some (res, vs', m')"
  shows "vs_inv vs' \<and> \<not> vs_lock vs' \<and>
    (case res of
       Inl e \<Rightarrow> vs' = vs \<and> m' = m
     | Inr b \<Rightarrow> free_range vs (unat b) (unat len) \<and> (address \<noteq> 0 \<and> has flags VMA_FIXED \<longrightarrow> b = address) \<and>
         (\<exists>a. vma_length a = len \<and> areas vs' = insert (b, a) (areas vs)))"
proof (cases "len = 0 \<or> len AND (PAGE_SIZE - 1) \<noteq> 0 \<or> off AND (PAGE_SIZE - 1) \<noteq> 0 \<or> len > vs_max vs")
  case True
  then show ?thesis using assms by (auto simp: vmsp_map_def split: if_splits)
next
  case False
  then have len: "len \<noteq> 0" "unat len mod 4096 = 0" "off AND (PAGE_SIZE - 1) = 0" "len \<le> vs_max vs"
    using page_multiple [of len] by auto
  show ?thesis
    using map_base [OF assms(1-3) len assms(4), of flags "kernel_env bk" ptr m]
  proof (elim disjE exE conjE, goal_cases)
    case (1 b)
    then obtain vs1 m1 where c: "vma_create (kernel_env bk) b len ptr off flags (vs\<lparr>vs_lock := True\<rparr>, m) = Some (vs1, m1)"
        "vs' = unlock_space vs1" "res = Inr b"
      using assms(5) [unfolded 1(5)] by (auto simp: bind_eq_Some_conv)
    have "vs_inv (vs\<lparr>vs_lock := True\<rparr>)" "free_range (vs\<lparr>vs_lock := True\<rparr>) (unat b) (unat len)"
      using assms(1) 1(2) by (simp_all add: vs_inv_def area_ok_def npages_def free_range_def)
    from vma_create_areas [OF this len(1,2) kernel_window_ok c(1)]
    obtain a where "vma_length a = len" "areas vs1 = insert (b, a) (areas vs)" "vs_inv vs1"
      by auto
    then show ?case using 1 c by (auto simp: unlock_space_def vs_inv_def area_ok_def npages_def room_def)
  qed (use assms in auto)
qed

text \<open>C8: \<^verbatim>\<open>vmsp_map\<close> keeps the areas of a space apart. For every kind of mapping and whatever the file
  system and the libraries answer, a successful call adds exactly one area, of the requested length,
  on a range that was free and inside the bounds; a fixed address is honoured. A failed call changes
  neither the space nor the memory. The invariant of the space is kept, and the lock is released. The
  length must fit into the space, which does not start at 0, and neither the requested range nor the upper bound plus the length may
  wrap. The code does not check all of this; what a wrapped range does is shown further down.\<close>

theorem vmsp_map_keeps_areas_apart:
  assumes "vs_inv vs" "room vs len" "\<not> vs_lock vs" "address \<noteq> 0 \<longrightarrow> unat address + unat len < 2 ^ 32"
    "vmsp_map (kernel_env bk) address len ptr off flags (vs, m) = Some (res, vs', m')"
  shows "vs_inv vs' \<and> \<not> vs_lock vs' \<and>
    (case res of
       Inl e \<Rightarrow> vs' = vs \<and> m' = m
     | Inr b \<Rightarrow> free_range vs (unat b) (unat len) \<and> (address \<noteq> 0 \<and> has flags VMA_FIXED \<longrightarrow> b = address) \<and>
         (\<exists>a. vma_length a = len \<and> areas vs' = insert (b, a) (areas vs)))"
  by (rule map_areas [OF assms])

text \<open>The kernel window keeps apart: what \<^verbatim>\<open>kmap\<close> returns is a range of the kernel space that no other area
  touches. Pipes and the allocator rely on this.\<close>

lemma kmap_apart:
  assumes "vs_inv vs" "\<not> vs_lock vs" "kmap (kernel_env bk) len ino off flags (vs, m) = Some (a, vs', m')"
  defines "n \<equiv> (len + (PAGE_SIZE - 1)) AND NOT (PAGE_SIZE - 1)"
  assumes "room vs n"
  shows "vs_inv vs' \<and> \<not> vs_lock vs' \<and> free_range vs (unat a) (unat n) \<and> (\<exists>v. vma_length v = n \<and> areas vs' = insert (a, v) (areas vs))"
proof -
  obtain flags' res s' where r: "vmsp_map (kernel_env bk) 0 n ino off flags' (vs, m) = Some (res, s')"
      "(case res of Inl _ \<Rightarrow> None | Inr ptr \<Rightarrow> Some (ptr, s')) = Some (a, vs', m')"
    using assms(3) unfolding kmap_def Let_def n_def by (auto simp: bind_eq_Some_conv)
  then have "vmsp_map (kernel_env bk) 0 n ino off flags' (vs, m) = Some (Inr a, vs', m')" by (cases res) auto
  from map_areas [OF assms(1,5,2) _ this] show ?thesis by simp
qed

text \<open>C22: A mapping of anonymous memory that is not resolved at once always returns. It succeeds
  at the requested address when that range is free, and somewhere when any range is free; it
  fails with \<^verbatim>\<open>ENOMEM\<close> only when no range of that length is free in the whole space, and with
  \<^verbatim>\<open>ERANGE\<close> only when the fixed address is taken.\<close>

theorem vmsp_map_finds_room:
  assumes "vs_inv vs" "room vs len" "\<not> vs_lock vs" "len \<noteq> 0" "unat len mod 4096 = 0" "off AND (PAGE_SIZE - 1) = 0"
    "len \<le> vs_max vs" "address \<noteq> 0 \<longrightarrow> unat address + unat len < 2 ^ 32"
    "flags AND VMA_TYPE = VMA_ANON" "\<not> has flags VM_RESOLVE"
  shows "\<exists>res vs'. vmsp_map bk address len ptr off flags (vs, m) = Some (res, vs', m) \<and>
    (case res of
       Inr b \<Rightarrow> free_range vs (unat b) (unat len) \<and> (address \<noteq> 0 \<and> free_range vs (unat address) (unat len) \<longrightarrow> b = address)
     | Inl e \<Rightarrow> e = ENOMEM \<and> (\<forall>c. \<not> free_range vs c (unat len)) \<or>
         e = ERANGE \<and> has flags VMA_FIXED \<and> \<not> free_range vs (unat address) (unat len))"
proof -
  have create: "\<exists>vs1. vma_create bk b len ptr off flags (vs\<lparr>vs_lock := True\<rparr>, m) = Some (vs1, m)" for b
    using assms(9,10) by (simp add: vma_create_def vma_kind_def Let_def)
  show ?thesis using map_base [OF assms(1-8), of flags bk ptr m]
  proof (elim disjE exE conjE, goal_cases)
    case (1 b)
    moreover obtain vs1 where "vma_create bk b len ptr off flags (vs\<lparr>vs_lock := True\<rparr>, m) = Some (vs1, m)" using create by blast
    ultimately show ?case by (intro exI [of _ "Inr b"] exI [of _ "unlock_space vs1"]) simp
  qed auto
qed

subsection \<open>A sample space\<close>

definition sample_area :: vma where
  "sample_area = \<lparr>vma_usage = 1, vma_length = 0x4000, vma_ptr = 0, vma_offset = 0, vma_flags = VMA_CLEAN OR VM_RW OR VMA_COW, vma_op = OpsAnon\<rparr>"

definition sample_space :: vmsp where
  "sample_space = \<lparr>vs_usage = 1, vs_tree = Bin Tip 1 0x401000 sample_area Tip, vs_directory = 0x5000,
     vs_lower = MMU_BOUND_ULOWER, vs_upper = MMU_BOUND_UUPPER, vs_vsize = 4, vs_psize = 0, vs_ssize = 0, vs_tsize = 1,
     vs_lock = False, vs_max = 0x08000000, vs_share = None, vs_proc = None, vs_krn = False\<rparr>"

definition sample_kspace :: vmsp where
  "sample_kspace = \<lparr>vs_usage = 0, vs_tree = Tip, vs_directory = 0x2000,
     vs_lower = MMU_BOUND_KLOWER, vs_upper = MMU_BOUND_KUPPER, vs_vsize = 0, vs_psize = 1024, vs_ssize = 0, vs_tsize = 2,
     vs_lock = False, vs_max = 0x08000000, vs_share = None, vs_proc = None, vs_krn = True\<rparr>"

definition sample_mem :: "kmmu \<Rightarrow> mmu \<Rightarrow> mem" where
  "sample_mem km pg = \<lparr>mem_km = km, mem_pg = pg, mem_ram = (\<lambda>_ _. 0), mem_shr = (\<lambda>_. None), mem_io = [],
     mem_kspace = sample_kspace, mem_dirs = (\<lambda>_ _. 0)\<rparr>"

definition sample_env :: env where
  "sample_env = \<lparr>vfs_page = (\<lambda>_ _ _ _. 0), dlib_page = (\<lambda>_ _ _ _. 0), window = (\<lambda>_ _. None)\<rparr>"

lemma sample_ok:
  "vs_inv sample_space" "\<not> vs_lock sample_space" "areas sample_space = {(0x401000, sample_area)}"
  "vs_inv sample_kspace" "\<not> vs_lock sample_kspace"
  by (simp_all add: sample_space_def sample_kspace_def sample_area_def vs_inv_def bb_inv_def area_ok_def fin_def npages_def)

theorem vmsp_map_keeps_areas_apart_witness:
  "\<exists>b vs' m'. vmsp_map (kernel_env sample_env) 0 0x2000 0 0 (VMA_ANON OR VM_RW) (sample_space, sample_mem boot_mmu empty_mmu) = Some (Inr b, vs', m') \<and>
     vs_inv vs' \<and> b = 0x405000"
proof -
  obtain vs' m' where m: "vmsp_map (kernel_env sample_env) 0 0x2000 0 0 (VMA_ANON OR VM_RW) (sample_space, sample_mem boot_mmu empty_mmu) =
      Some (Inr 0x405000, vs', m')"
    by (simp add: vmsp_map_def lock_space_def sample_space_def sample_area_def vmsp_find_slot_def vma_create_def vma_kind_def has_def Let_def)
  show ?thesis using m vmsp_map_keeps_areas_apart [OF sample_ok(1) _ sample_ok(2) _ m] by (auto simp: room_def sample_space_def)
qed

theorem vmsp_map_finds_room_witness:
  "\<exists>res vs'. vmsp_map sample_env 0x402000 0x2000 0 0 (VMA_ANON OR VMA_FIXED) (sample_space, sample_mem boot_mmu empty_mmu) =
     Some (res, vs', sample_mem boot_mmu empty_mmu) \<and> res \<noteq> Inl ENOMEM"
proof -
  have "free_range sample_space 0x500000 0x2000" unfolding free_range_def sample_ok(3) by (simp add: sample_space_def sample_area_def fin_def)
  moreover have room: "room sample_space 0x2000" "(0x2000 :: size_t) \<le> vs_max sample_space" by (simp_all add: room_def sample_space_def)
  obtain res vs' where "vmsp_map sample_env 0x402000 0x2000 0 0 (VMA_ANON OR VMA_FIXED) (sample_space, sample_mem boot_mmu empty_mmu) =
      Some (res, vs', sample_mem boot_mmu empty_mmu)" "\<And>e. res = Inl e \<Longrightarrow> e \<noteq> ENOMEM \<or> (\<forall>c. \<not> free_range sample_space c 0x2000)"
    using vmsp_map_finds_room [OF sample_ok(1) room(1) sample_ok(2) _ _ _ room(2), of 0 "0x402000" "VMA_ANON OR VMA_FIXED" sample_env 0
        "sample_mem boot_mmu empty_mmu"] by (fastforce simp: has_def)
  ultimately show ?thesis by blast
qed

subsection \<open>Unmapping\<close>

lemma tbl_index_unat: "tbl_index v = unat v div 4096"
  by (simp add: tbl_index_def drop_bit_eq_div unat_div)

lemma same_tbl_dir: "tbl_index v = tbl_index w \<Longrightarrow> dir_index v = dir_index w"
  by (metis tbl_dir_index)

lemma mmu_drop_read:
  "fst (mmu_drop v mm) = mmu_read v mm"
  "mmu_read w (snd (mmu_drop v mm)) = (if tbl_index w = tbl_index v then 0 else mmu_read w mm)"
  using same_tbl_dir [of w v] by (auto simp: mmu_drop_def mmu_read_def mapped_def Let_def)

lemma frame_multiple: "uint (frame_of w) = uint (frame_of w) div 4096 * 4096"
proof -
  have "frame_of w AND 0xFFF = 0" by (simp add: frame_of_def and.assoc)
  then have "unat (frame_of w) mod 4096 = 0" using page_multiple [of "frame_of w"] by simp
  then have "4096 dvd uint (frame_of w)" by (metis dvd_eq_mod_eq_0 int_dvd_int_iff of_nat_numeral uint_nat)
  then show ?thesis by simp
qed

lemma mmu_read_multiple: "uint (mmu_read v mm) = uint (mmu_read v mm) div 4096 * 4096"
  using frame_multiple by (auto simp: mmu_read_def)

text \<open>The frame an address translates to, and the pages of a space that are counted nowhere as shared.\<close>

definition frame_at :: "mem \<Rightarrow> size_t \<Rightarrow> int" where
  "frame_at m v = uint (mmu_read v (mem_pg m)) div 4096"

definition private_page :: "vmsp \<Rightarrow> mem \<Rightarrow> size_t \<Rightarrow> bool" where
  "private_page vs m page \<longleftrightarrow>
     (case vs_share vs of None \<Rightarrow> True | Some s \<Rightarrow> \<exists>sh. mem_shr m s = Some sh \<and> share_inv sh \<and> refs sh page = 0)"

lemma share_private: "private_page vs m page \<Longrightarrow> share_page vs page 0 m = Some (True, m)"
proof (cases "vs_share vs")
  case (Some s)
  assume "private_page vs m page"
  then obtain sh where sh: "mem_shr m s = Some sh" "share_inv sh" "refs sh page = 0"
    using Some by (auto simp: private_page_def)
  then have "map_get (psh_map sh) (page_key page) = None" using refs_pos [of sh page] by simp
  then have "hmp_get (psh_map sh) (page_key page) = Some None" using hmp_refs(2) [of "page_key page" "psh_map sh"] by simp
  then have "page_shared (Some sh) page 0 = Some (Some sh, True)" using sh(2) by (simp add: page_shared_def share_inv_def)
  moreover have "(mem_shr m)(s := Some sh) = mem_shr m" using sh(1) by (simp add: fun_upd_idem)
  ultimately show ?thesis using Some sh(1) by (simp add: share_page_def)
qed (simp add: share_page_def page_shared_def)

lemma private_frame:
  assumes "mem_shr m' = mem_shr m" "same_space vs vs'"
  shows "private_page vs' m' page = private_page vs m page"
  using assms by (simp add: private_page_def same_space_def split: option.splits)

abbreviation blank_ops :: "vma_ops set" where
  "blank_ops \<equiv> {OpsAnon, OpsStack, OpsHeap, OpsPipe}"

lemma drop_page_read: "drop_page v m = (mmu_read v (mem_pg m), m\<lparr>mem_pg := snd (mmu_drop v (mem_pg m))\<rparr>)"
  using mmu_drop_read(1) [of v "mem_pg m"] by (cases "mmu_drop v (mem_pg m)") (simp add: drop_page_def)

text \<open>One page: a missing page is skipped, a private one goes back to the allocator.\<close>

lemma unmap_blank_page:
  assumes "mm_wf (mem_km m)" "mmu_read v (mem_pg m) \<noteq> 0 \<Longrightarrow>
      private_page vs m (mmu_read v (mem_pg m)) \<and> frame_at m v \<in> mm_frames (mem_km m) - mm_free (mem_km m)"
  shows "\<exists>km vs'. vma_unmap_blank vs v m = Some (vs', m\<lparr>mem_pg := snd (mmu_drop v (mem_pg m)), mem_km := km\<rparr>) \<and> same_space vs vs' \<and>
    vs_lock vs' = vs_lock vs \<and> mm_wf km \<and> mm_frames km = mm_frames (mem_km m) \<and>
    mm_free km = mm_free (mem_km m) \<union> (if mmu_read v (mem_pg m) = 0 then {} else {frame_at m v})"
proof (cases "mmu_read v (mem_pg m) = 0")
  case True
  then have "vma_unmap_blank vs v m = Some (vs, m\<lparr>mem_pg := snd (mmu_drop v (mem_pg m)), mem_km := mem_km m\<rparr>)"
    using drop_page_read [of v m] by (simp add: vma_unmap_blank_def)
  then show ?thesis using True assms(1) by (intro exI [of _ "mem_km m"] exI [of _ vs]) simp
next
  case False
  define m1 where "m1 = m\<lparr>mem_pg := snd (mmu_drop v (mem_pg m))\<rparr>"
  have d: "drop_page v m = (mmu_read v (mem_pg m), m1)" by (simp add: drop_page_read m1_def)
  have addr: "frame_addr (frame_at m v) = mmu_read v (mem_pg m)" using mmu_read_multiple by (simp add: frame_at_def frame_addr_def del: of_int_mult)
  obtain km where km: "page_release (frame_addr (frame_at m v)) (mem_km m) = Some km" "mm_wf km"
      "mm_free km = insert (frame_at m v) (mm_free (mem_km m))" "mm_frames km = mm_frames (mem_km m)"
    using page_release_wf [OF assms(1), of "frame_at m v"] assms(2) False addr by (auto simp: frame_at_def)
  note addr
  moreover have "private_page vs m1 (mmu_read v (mem_pg m))" using assms(2) False private_frame [of m1 m vs vs] by (simp add: m1_def)
  ultimately have "vma_unmap_blank vs v m = Some (vs\<lparr>vs_psize := vs_psize vs - 1\<rparr>, m1\<lparr>mem_km := km\<rparr>)"
    using d False km(1) share_private [of vs m1] by (simp add: vma_unmap_blank_def free_page_def m1_def)
  then show ?thesis using False km
    by (intro exI [of _ km] exI [of _ "vs\<lparr>vs_psize := vs_psize vs - 1\<rparr>"]) (simp add: m1_def same_space_def)
qed

text \<open>The address of a page of a range, and what the range must own for its pages to be given back:
  private pages that are allocated, each mapped once.\<close>

definition page_at :: "size_t \<Rightarrow> nat \<Rightarrow> size_t" where
  "page_at v i = v + of_nat (i * 4096)"

definition owns :: "vmsp \<Rightarrow> mem \<Rightarrow> size_t \<Rightarrow> nat \<Rightarrow> bool" where
  "owns vs m v n \<longleftrightarrow> (\<forall>i<n. mmu_read (page_at v i) (mem_pg m) \<noteq> 0 \<longrightarrow>
     private_page vs m (mmu_read (page_at v i) (mem_pg m)) \<and>
     frame_at m (page_at v i) \<in> mm_frames (mem_km m) - mm_free (mem_km m) \<and>
     (\<forall>j<n. j \<noteq> i \<longrightarrow> mmu_read (page_at v j) (mem_pg m) \<noteq> mmu_read (page_at v i) (mem_pg m)))"

definition frames_of :: "mem \<Rightarrow> size_t \<Rightarrow> nat \<Rightarrow> int set" where
  "frames_of m v n = frame_at m ` {w. \<exists>i<n. w = page_at v i \<and> mmu_read w (mem_pg m) \<noteq> 0}"

lemma page_at_0 [simp]: "page_at v 0 = v"
  by (simp add: page_at_def)

lemma page_at_Suc: "page_at v (Suc i) = page_at (v + PAGE_SIZE) i"
  by (simp add: page_at_def algebra_simps)

lemma page_at_index: "unat v + i * 4096 < 2 ^ 32 \<Longrightarrow> tbl_index (page_at v i) = tbl_index v + i"
proof -
  assume a: "unat v + i * 4096 < 2 ^ 32"
  then have "unat (of_nat (i * 4096) :: u32) = i * 4096" by (simp add: unat_of_nat take_bit_eq_mod del: of_nat_mult)
  then have "unat (page_at v i) = unat v + i * 4096" using a unat_add_u32 [of v "of_nat (i * 4096)"] by (simp add: page_at_def del: of_nat_mult)
  then show ?thesis by (simp add: tbl_index_unat del: of_nat_mult)
qed

lemma frames_of_Suc:
  "frames_of m v (Suc n) = (if mmu_read v (mem_pg m) = 0 then {} else {frame_at m v}) \<union> frames_of m (v + PAGE_SIZE) n"
proof -
  have "{w. \<exists>i<Suc n. w = page_at v i \<and> mmu_read w (mem_pg m) \<noteq> 0} =
      (if mmu_read v (mem_pg m) = 0 then {} else {v}) \<union> {w. \<exists>i<n. w = page_at (v + PAGE_SIZE) i \<and> mmu_read w (mem_pg m) \<noteq> 0}"
    unfolding Ex_less_Suc2 page_at_Suc [symmetric] by auto
  then show ?thesis unfolding frames_of_def by auto
qed

text \<open>After the first page of a range is dropped, the rest still owns its pages.\<close>

lemma owns_rest:
  assumes "owns vs m v (Suc n)" "unat v + Suc n * 4096 \<le> 2 ^ 32" "same_space vs vs'"
    "mm_frames km = mm_frames (mem_km m)" "mm_free km = mm_free (mem_km m) \<union> (if mmu_read v (mem_pg m) = 0 then {} else {frame_at m v})"
  defines "m' \<equiv> m\<lparr>mem_pg := snd (mmu_drop v (mem_pg m)), mem_km := km\<rparr>"
  shows "owns vs' m' (v + PAGE_SIZE) n" "frames_of m' (v + PAGE_SIZE) n = frames_of m (v + PAGE_SIZE) n"
proof -
  have rd: "mmu_read (page_at (v + PAGE_SIZE) i) (mem_pg m') = mmu_read (page_at v (Suc i)) (mem_pg m)" if "i < n" for i
    using that assms(2) page_at_index [of v "Suc i"] by (simp add: m'_def mmu_drop_read page_at_Suc [symmetric])
  have fr: "frame_at m' (page_at (v + PAGE_SIZE) i) = frame_at m (page_at v (Suc i))" if "i < n" for i
    using rd [OF that] by (simp add: frame_at_def)
  have ne: "frame_at m (page_at v (Suc i)) \<noteq> frame_at m v"
    if "i < n" "mmu_read (page_at v (Suc i)) (mem_pg m) \<noteq> 0" for i
  proof -
    have "mmu_read (page_at v 0) (mem_pg m) \<noteq> mmu_read (page_at v (Suc i)) (mem_pg m)"
      using assms(1) that unfolding owns_def by (metis Suc_less_eq nat.distinct(1) zero_less_Suc)
    then have "mmu_read v (mem_pg m) \<noteq> mmu_read (page_at v (Suc i)) (mem_pg m)" by simp
    then show ?thesis using mmu_read_multiple [of v "mem_pg m"] mmu_read_multiple [of "page_at v (Suc i)" "mem_pg m"]
      unfolding frame_at_def by (metis word_uint_eq_iff)
  qed
  have pp: "private_page vs' m' page = private_page vs m page" for page
    by (rule private_frame) (simp_all add: m'_def assms(3))
  have fm: "mm_frames (mem_km m') = mm_frames (mem_km m)" "mm_free (mem_km m') \<subseteq> insert (frame_at m v) (mm_free (mem_km m))"
    using assms(4,5) by (auto simp: m'_def)
  show "owns vs' m' (v + PAGE_SIZE) n"
    unfolding owns_def
  proof (intro allI impI)
    fix i assume i: "i < n" "mmu_read (page_at (v + PAGE_SIZE) i) (mem_pg m') \<noteq> 0"
    have o: "private_page vs m (mmu_read (page_at v (Suc i)) (mem_pg m))"
        "frame_at m (page_at v (Suc i)) \<in> mm_frames (mem_km m) - mm_free (mem_km m)"
        "\<forall>j<Suc n. j \<noteq> Suc i \<longrightarrow> mmu_read (page_at v j) (mem_pg m) \<noteq> mmu_read (page_at v (Suc i)) (mem_pg m)"
      using assms(1) [unfolded owns_def, rule_format, of "Suc i"] i rd [OF i(1)] by simp_all
    show "private_page vs' m' (mmu_read (page_at (v + PAGE_SIZE) i) (mem_pg m')) \<and>
      frame_at m' (page_at (v + PAGE_SIZE) i) \<in> mm_frames (mem_km m') - mm_free (mem_km m') \<and>
      (\<forall>j<n. j \<noteq> i \<longrightarrow> mmu_read (page_at (v + PAGE_SIZE) j) (mem_pg m') \<noteq> mmu_read (page_at (v + PAGE_SIZE) i) (mem_pg m'))"
      using o rd i fr [OF i(1)] pp fm ne [OF i(1)] by auto
  qed
  have "{w. \<exists>i<n. w = page_at (v + PAGE_SIZE) i \<and> mmu_read w (mem_pg m') \<noteq> 0} =
      {w. \<exists>i<n. w = page_at (v + PAGE_SIZE) i \<and> mmu_read w (mem_pg m) \<noteq> 0}"
    using rd by (auto simp: page_at_Suc)
  moreover have "frame_at m' w = frame_at m w" if "\<exists>i<n. w = page_at (v + PAGE_SIZE) i \<and> mmu_read w (mem_pg m) \<noteq> 0" for w
    using that fr by (auto simp: page_at_Suc)
  ultimately show "frames_of m' (v + PAGE_SIZE) n = frames_of m (v + PAGE_SIZE) n" unfolding frames_of_def by (auto intro!: image_cong)
qed

lemma unmap_blank_pages:
  assumes "vma_op a \<in> blank_ops"
  shows "unat v + n * 4096 \<le> 2 ^ 32 \<Longrightarrow> mm_wf (mem_km m) \<Longrightarrow> owns vs m v n \<Longrightarrow>
    \<exists>vs' m'. page_iter (ops_unmap bk base a) v n (vs, m) = Some (vs', m') \<and> same_space vs vs' \<and> vs_lock vs' = vs_lock vs \<and>
      mem_shr m' = mem_shr m \<and> mem_io m' = mem_io m \<and> mem_ram m' = mem_ram m \<and>
      mm_wf (mem_km m') \<and> mm_free (mem_km m') = mm_free (mem_km m) \<union> frames_of m v n \<and>
      (\<forall>w. mmu_read w (mem_pg m') = (if tbl_index w \<in> {tbl_index v ..< tbl_index v + n} then 0 else mmu_read w (mem_pg m)))"
proof (induction n arbitrary: v vs m)
  case 0
  then show ?case by (simp add: frames_of_def)
next
  case (Suc n)
  have "mmu_read v (mem_pg m) \<noteq> 0 \<Longrightarrow> private_page vs m (mmu_read v (mem_pg m)) \<and> frame_at m v \<in> mm_frames (mem_km m) - mm_free (mem_km m)"
    using Suc.prems(3) unfolding owns_def by (metis page_at_0 zero_less_Suc)
  from unmap_blank_page [OF Suc.prems(2) this]
  obtain km vs1 where 1: "vma_unmap_blank vs v m = Some (vs1, m\<lparr>mem_pg := snd (mmu_drop v (mem_pg m)), mem_km := km\<rparr>)"
      "same_space vs vs1" "vs_lock vs1 = vs_lock vs" "mm_wf km" "mm_frames km = mm_frames (mem_km m)"
      "mm_free km = mm_free (mem_km m) \<union> (if mmu_read v (mem_pg m) = 0 then {} else {frame_at m v})" by blast
  define m1 where "m1 = m\<lparr>mem_pg := snd (mmu_drop v (mem_pg m)), mem_km := km\<rparr>"
  note rest = owns_rest [OF Suc.prems(3,1) 1(2,5,6), folded m1_def]
  have m1: "mem_km m1 = km" "mem_shr m1 = mem_shr m" "mem_io m1 = mem_io m" "mem_ram m1 = mem_ram m"
      "mem_pg m1 = snd (mmu_drop v (mem_pg m))" by (simp_all add: m1_def)
  have step: "ops_unmap bk base a v (vs, m) = Some (vs1, m1)" using assms 1(1) by (auto simp: ops_unmap_def m1_def)
  show ?case
  proof (cases n)
    case 0
    then show ?thesis using step 1 m1 frames_of_Suc [of m v 0] mmu_drop_read(2) by (auto simp: frames_of_def)
  next
    case (Suc k)
    have v1: "unat (v + PAGE_SIZE) = unat v + 4096" using Suc.prems(1) Suc unat_add_u32 [of v 4096] by simp
    then have "unat (v + PAGE_SIZE) + n * 4096 \<le> 2 ^ 32" using Suc.prems(1) by simp
    moreover have "mm_wf (mem_km m1)" using 1(4) m1(1) by simp
    ultimately obtain vs' m' where 2: "page_iter (ops_unmap bk base a) (v + PAGE_SIZE) n (vs1, m1) = Some (vs', m')" "same_space vs1 vs'"
        "vs_lock vs' = vs_lock vs1" "mem_shr m' = mem_shr m1" "mem_io m' = mem_io m1" "mem_ram m' = mem_ram m1" "mm_wf (mem_km m')"
        "mm_free (mem_km m') = mm_free (mem_km m1) \<union> frames_of m1 (v + PAGE_SIZE) n"
        "\<forall>w. mmu_read w (mem_pg m') =
          (if tbl_index w \<in> {tbl_index (v + PAGE_SIZE) ..< tbl_index (v + PAGE_SIZE) + n} then 0 else mmu_read w (mem_pg m1))"
      using Suc.IH [OF _ _ rest(1)] by blast
    have t: "tbl_index (v + PAGE_SIZE) = Suc (tbl_index v)" using v1 by (simp add: tbl_index_unat)
    have rd: "mmu_read w (mem_pg m') = (if tbl_index w \<in> {tbl_index v ..< tbl_index v + Suc n} then 0 else mmu_read w (mem_pg m))" for w
      using 2(9) unfolding t m1(5) mmu_drop_read(2) by auto
    have "mm_free (mem_km m') = mm_free (mem_km m) \<union> frames_of m v (Suc n)"
      using 2(8) 1(6) unfolding frames_of_Suc rest(2) m1(1) by auto
    moreover have "page_iter (ops_unmap bk base a) v (Suc n) (vs, m) = Some (vs', m')" using step 2(1) by simp
    ultimately show ?thesis using rd 2 1(3) m1 same_trans [OF 1(2) 2(2)] by metis
  qed
qed

lemma whole_pages: "unat (len :: u32) mod 4096 = 0 \<Longrightarrow> unat len div 4096 * 4096 = unat len"
  by auto

lemma remove_area:
  assumes "vs_inv vs" "(k, a) \<in> areas vs"
  defines "vs' \<equiv> vs\<lparr>vs_tree := bb_remove k (vs_tree vs), vs_vsize := vs_vsize vs - vma_length a div PAGE_SIZE\<rparr>"
  shows "vs_inv vs'" "areas vs' = areas vs - {(k, a)}"
proof -
  note t = inv_tree [OF assms(1)]
  show ar: "areas vs' = areas vs - {(k, a)}"
    using assms(2) by (auto simp: vs'_def bb.del_items [OF t] dest: same_key [OF t _ assms(2)])
  have "npages vs = unat (vma_length a) div 4096 + npages vs'"
    unfolding npages_def ar using sum.remove [OF _ assms(2), of "\<lambda>e. unat (vma_length (snd e)) div 4096"] by simp
  then have "vs_vsize vs = of_nat (unat (vma_length a) div 4096) + of_nat (npages vs')" using assms(1) by (simp add: vs_inv_def)
  moreover have "vs_vsize vs' = vs_vsize vs - of_nat (unat (vma_length a) div 4096)"
    using word_arith_nat_div [of "vma_length a" PAGE_SIZE] by (simp add: vs'_def)
  ultimately have "vs_vsize vs' = of_nat (npages vs')" by simp
  moreover have "\<forall>e\<in>areas vs'. area_ok vs' e" using inv_area [OF assms(1)] unfolding ar by (simp add: area_ok_def vs'_def)
  ultimately show "vs_inv vs'"
    using bb.del_inv [OF t, of k] assms(1) unfolding vs_inv_def ar by (simp add: vs'_def)
qed

text \<open>\<^verbatim>\<open>vma_unmap\<close> on an area of blank memory that owns its pages.\<close>

lemma vma_unmap_blank_area:
  assumes "vs_inv vs" "(k, a) \<in> areas vs" "vs_lock vs" "mm_wf (mem_km m)" "vma_op a \<in> blank_ops" "vma_usage a = 1" "\<not> has (vma_flags a) VM_UNMAPED"
    "owns vs m k (unat (vma_length a) div 4096)"
  defines "n \<equiv> unat (vma_length a) div 4096"
  shows "\<exists>vs' m'. vma_unmap bk k a (vs, m) = Some (None, vs', m') \<and> vs_inv vs' \<and> areas vs' = areas vs - {(k, a)} \<and> vs_lock vs' \<and>
    same_space (vs\<lparr>vs_tree := bb_remove k (vs_tree vs), vs_vsize := vs_vsize vs - vma_length a div PAGE_SIZE\<rparr>) vs' \<and>
    mem_shr m' = mem_shr m \<and> mem_io m' = mem_io m \<and> mem_ram m' = mem_ram m \<and>
    mm_wf (mem_km m') \<and> mm_free (mem_km m') = mm_free (mem_km m) \<union> frames_of m k n \<and>
    (\<forall>w. mmu_read w (mem_pg m') = (if tbl_index w \<in> {tbl_index k ..< tbl_index k + n} then 0 else mmu_read w (mem_pg m)))"
proof -
  define vs1 where "vs1 = vs\<lparr>vs_tree := bb_remove k (vs_tree vs), vs_vsize := vs_vsize vs - vma_length a div PAGE_SIZE\<rparr>"
  note rm = remove_area [OF assms(1,2), folded vs1_def]
  have ok: "unat (vma_length a) mod 4096 = 0" "fin (k, a) \<le> unat (vs_upper vs)" using inv_area [OF assms(1,2)] by (simp_all add: area_ok_def)
  have "unat k + n * 4096 \<le> 2 ^ 32" using ok unat_u32 [of "vs_upper vs"] unfolding n_def whole_pages [OF ok(1)] by (simp add: fin_def)
  moreover have "owns vs1 m k n" using assms(8) unfolding owns_def n_def private_page_def by (simp add: vs1_def)
  ultimately obtain vs' m' where u: "page_iter (ops_unmap bk k a) k n (vs1, m) = Some (vs', m')" "same_space vs1 vs'" "vs_lock vs' = vs_lock vs1"
      "mem_shr m' = mem_shr m" "mem_io m' = mem_io m" "mem_ram m' = mem_ram m" "mm_wf (mem_km m')"
      "mm_free (mem_km m') = mm_free (mem_km m) \<union> frames_of m k n"
      "\<forall>w. mmu_read w (mem_pg m') = (if tbl_index w \<in> {tbl_index k ..< tbl_index k + n} then 0 else mmu_read w (mem_pg m))"
    using unmap_blank_pages [OF assms(5) _ assms(4)] by blast
  have "for_pages (ops_unmap bk k a) k (vma_length a) (vs1, m) = Some (vs', m')" 
    unfolding for_pages_len [OF ok(1)] using u(1) by (simp add: n_def)
  then have "vma_unmap bk k a (vs, m) = Some (None, vs', m')"
    using assms(3,5-7) by (auto simp: vma_unmap_def vs1_def Let_def ops_close_def)
  moreover have "vs_inv vs'" using same_inv [OF u(2)] rm(1) by simp
  moreover have "areas vs' = areas vs - {(k, a)}" using u(2) rm(2) by (simp add: same_space_def)
  moreover have "vs_lock vs'" using u(3) assms(3) by (simp add: vs1_def)
  ultimately show ?thesis using u(2,4-9) unfolding vs1_def by blast
qed

lemma find_area_spec:
  assumes "vs_inv vs" "vs_lock vs"
  shows "case vmsp_find_area vs v of
      None \<Rightarrow> False
    | Some None \<Rightarrow> \<forall>e\<in>areas vs. \<not> (unat (fst e) \<le> unat v \<and> unat v < fin e)
    | Some (Some e) \<Rightarrow> e \<in> areas vs \<and> unat (fst e) \<le> unat v \<and> unat v < fin e"
proof -
  note t = inv_tree [OF assms(1)]
  have kend: "unat (k + vma_length a) = fin (k, a)" if "(k, a) \<in> areas vs" for k a
    using area_end(1) [OF assms(1) that, of 0] unat_u32 by simp
  show ?thesis
  proof (cases "v < vs_lower vs \<or> v \<ge> vs_upper vs")
    case True
    have "\<not> (unat (fst e) \<le> unat v \<and> unat v < fin e)" if "e \<in> areas vs" for e
      using inv_area [OF assms(1) that] True by (auto simp: area_ok_def word_less_nat_alt word_le_nat_alt)
    then show ?thesis using True assms(2) by (simp add: vmsp_find_area_def)
  next
    case inside: False
    show ?thesis
    proof (cases "bb_search (vs_tree vs) v (- 1)")
      case None
      then show ?thesis using search_le_none [OF t None] inside assms(2)
        by (auto simp: vmsp_find_area_def word_less_nat_alt)
    next
      case (Some e)
      obtain k a where e: "e = (k, a)" by (cases e)
      note s = search_le_split [OF t Some [unfolded e]]
      have none: "\<not> (unat (fst x) \<le> unat v \<and> unat v < fin x)" if "x \<in> areas vs" "fin (k, a) \<le> unat v" for x
        using fin_mono [OF assms(1) that(1) s(1)] s(3) that by (auto simp: word_le_nat_alt)
      then show ?thesis using inside assms(2) Some e s kend [OF s(1)]
        by (simp add: vmsp_find_area_def word_less_nat_alt word_le_nat_alt)
    qed
  qed
qed

text \<open>An address of an area finds that area.\<close>

lemma find_area_of:
  assumes "vs_inv vs" "vs_lock vs" "(k, a) \<in> areas vs" "unat k \<le> unat v" "unat v < fin (k, a)"
  shows "vmsp_find_area vs v = Some (Some (k, a))"
proof -
  note f = find_area_spec [OF assms(1,2), of v]
  then obtain e where e: "vmsp_find_area vs v = Some (Some e)" "e \<in> areas vs" "unat (fst e) \<le> unat v" "unat v < fin e"
    using assms(3-5) by (fastforce split: option.splits)
  have "fst e = k" using inv_disjoint [OF assms(1) e(2) assms(3)] inv_disjoint [OF assms(1,3) e(2)] assms(4,5) e(3,4)
    by (cases "fst e < k"; cases "k < fst e") auto
  then have "e = (k, a)" using same_key [OF inv_tree [OF assms(1)]] e(2) assms(3) by (metis prod.collapse)
  then show ?thesis using e(1) by simp
qed

text \<open>C9: \<^verbatim>\<open>vmsp_unmap\<close> on a whole area of anonymous, stack, heap or pipe memory whose pages are private
  returns. It removes that area and no other, no address of it is translated any more while all
  other translations stay, and every frame that was mapped there is free again, and no other.\<close>

theorem vmsp_unmap_frees_area:
  assumes "vs_inv vs" "\<not> vs_lock vs" "(k, a) \<in> areas vs" "mm_wf (mem_km m)" "vma_op a \<in> {OpsAnon, OpsStack, OpsHeap, OpsPipe}"
    "vma_usage a = 1" "\<not> has (vma_flags a) VM_UNMAPED" "owns vs m k (unat (vma_length a) div 4096)"
  shows "\<exists>vs' m'. vmsp_unmap bk k (vma_length a) (vs, m) = Some (Inr (), vs', m') \<and>
    vs_inv vs' \<and> areas vs' = areas vs - {(k, a)} \<and> \<not> vs_lock vs' \<and> mm_wf (mem_km m') \<and>
    mm_free (mem_km m') = mm_free (mem_km m) \<union> frames_of m k (unat (vma_length a) div 4096) \<and>
    (\<forall>w. mmu_read w (mem_pg m') =
      (if tbl_index w \<in> {tbl_index k ..< tbl_index k + unat (vma_length a) div 4096} then 0 else mmu_read w (mem_pg m)))"
proof -
  define vl where "vl = vs\<lparr>vs_lock := True\<rparr>"
  have l: "lock_space vs = Some vl" "vs_lock vl" "areas vl = areas vs" using assms(2) by (simp_all add: lock_space_def vl_def)
  have same: "same_space vs vl" by (simp add: same_space_def vl_def)
  have inv: "vs_inv vl" using same_inv [OF same] assms(1) by simp
  have mem: "(k, a) \<in> areas vl" using assms(3) l(3) by simp
  have "unat k < fin (k, a)" using inv_area [OF assms(1,3)] by (simp add: area_ok_def fin_def unat_gt_0)
  then have f: "vmsp_find_area vl k = Some (Some (k, a))" using find_area_of [OF inv l(2) mem] by simp
  have o: "owns vl m k (unat (vma_length a) div 4096)" using assms(8) private_frame [OF refl same] by (simp add: owns_def)
  from vma_unmap_blank_area [OF inv mem l(2) assms(4-7) o, of bk]
  obtain vs1 m' where u: "vma_unmap bk k a (vl, m) = Some (None, vs1, m')" "vs_inv vs1" "areas vs1 = areas vs - {(k, a)}"
      "mm_wf (mem_km m')" "mm_free (mem_km m') = mm_free (mem_km m) \<union> frames_of m k (unat (vma_length a) div 4096)"
      "\<forall>w. mmu_read w (mem_pg m') =
        (if tbl_index w \<in> {tbl_index k ..< tbl_index k + unat (vma_length a) div 4096} then 0 else mmu_read w (mem_pg m))"
    unfolding l(3) by blast
  have "vmsp_unmap bk k (vma_length a) (vs, m) = Some (Inr (), unlock_space vs1, m')"
    using l(1) f u(1) by (simp add: vmsp_unmap_def)
  moreover have "vs_inv (unlock_space vs1)" using same_inv [OF same_lock(2)] u(2) by blast
  moreover have "areas (unlock_space vs1) = areas vs - {(k, a)}" "\<not> vs_lock (unlock_space vs1)"
    using u(3) by (simp_all add: unlock_space_def)
  ultimately show ?thesis using u(4-6) by blast
qed

definition sample_pg :: mmu where
  "sample_pg = \<lparr>mmu_dir = (\<lambda>_. 0x5007), mmu_krn = (\<lambda>_. 0), mmu_tbl = (\<lambda>_. 0)(0x402 := 0x1007)\<rparr>"

theorem vmsp_unmap_frees_area_witness:
  "\<exists>km vs' m'. vmsp_unmap sample_env 0x401000 0x4000 (sample_space, sample_mem km sample_pg) = Some (Inr (), vs', m') \<and>
     areas vs' = {} \<and> mm_free km = {} \<and> mm_free (mem_km m') = {1} \<and> mmu_read 0x402000 (mem_pg m') = 0"
proof -
  obtain km where km: "mm_wf km" "mm_free km = {}" "mm_frames km = {1 ..< 2}"
    using pages.alloc_free [OF one_page_ok(1)] one_page_ok(2,3) by (fastforce simp: mm_ok_def)
  define m where "m = sample_mem km sample_pg"
  have m: "mem_km m = km" "mem_pg m = sample_pg" by (simp_all add: m_def sample_mem_def)
  have read: "mmu_read (page_at 0x401000 i) sample_pg = (if i = 1 then 0x1000 else 0)" if "i < 4" for i
    using that page_at_index [of "0x401000" i]
    by (auto simp: mmu_read_def mapped_def sample_pg_def frame_of_def tbl_index_def)
  have fr: "frame_at m (page_at 0x401000 1) = 1" using read [of 1] m by (simp add: frame_at_def)
  have o: "owns sample_space m 0x401000 4" using read fr m km by (auto simp: owns_def private_page_def sample_space_def)
  have "{w. \<exists>i<4. w = page_at 0x401000 i \<and> mmu_read w (mem_pg m) \<noteq> 0} = {page_at 0x401000 1}"
    using read m by (auto split: if_splits intro: exI [of _ "Suc 0"])
  then have fs: "frames_of m 0x401000 4 = {1}" using fr by (simp add: frames_of_def)
  have "(0x401000, sample_area) \<in> areas sample_space" by (simp add: sample_ok)
  moreover have "vma_op sample_area \<in> {OpsAnon, OpsStack, OpsHeap, OpsPipe}" "vma_usage sample_area = 1"
      "\<not> has (vma_flags sample_area) VM_UNMAPED" "vma_length sample_area = 0x4000"
    by (simp_all add: sample_area_def has_def)
  ultimately obtain vs' m' where "vmsp_unmap sample_env 0x401000 0x4000 (sample_space, m) = Some (Inr (), vs', m')"
      "areas vs' = areas sample_space - {(0x401000, sample_area)}" "mm_free (mem_km m') = mm_free km \<union> {1}"
      "\<forall>w. mmu_read w (mem_pg m') = (if tbl_index w \<in> {tbl_index 0x401000 ..< tbl_index 0x401000 + 4} then 0 else mmu_read w sample_pg)"
    using vmsp_unmap_frees_area [OF sample_ok(1,2), of "0x401000" sample_area m sample_env] o fs km(1) m by auto
  then show ?thesis using km(2) sample_ok(3) unfolding m_def by (intro exI [of _ km]) (auto simp: tbl_index_def)
qed

text \<open>Splitting an area in the tree.\<close>

lemma set_area_areas:
  assumes "vs_inv vs" "(k, a) \<in> areas vs"
  shows "bb_inv (vs_tree (set_area k b vs))" "areas (set_area k b vs) = insert (k, b) (areas vs - {(k, a)})"
proof -
  note t = inv_tree [OF assms(1)]
  show "bb_inv (vs_tree (set_area k b vs))" using bb.modify_inv [OF t] by (simp add: set_area_def)
  define g where "g = (\<lambda>(j, x). (j, if j = k then b else x :: vma))"
  have "areas (set_area k b vs) = g ` areas vs" by (simp add: set_area_def bb.modify_items [OF t] g_def)
  also have "\<dots> = insert (g (k, a)) (g ` (areas vs - {(k, a)}))" using assms(2) by blast
  also have "g e = e" if "e \<in> areas vs - {(k, a)}" for e
    using that same_key [OF t assms(2), of "snd e"] by (cases e) (auto simp: g_def)
  then have "g ` (areas vs - {(k, a)}) = areas vs - {(k, a)}" by simp
  finally show "areas (set_area k b vs) = insert (k, b) (areas vs - {(k, a)})" by (simp add: g_def)
qed

lemma split_area_tree:
  assumes "vs_inv vs" "(k, a) \<in> areas vs" "base \<notin> fst ` areas vs" "has_split (vma_op a)"
  shows "\<exists>sec vs' m'. split_area k a len base (vs, m) = Some (a\<lparr>vma_length := len\<rparr>, sec, vs', m') \<and>
    vma_length sec = vma_length a - len \<and> bb_inv (vs_tree vs') \<and> vs_lock vs' = vs_lock vs \<and>
    areas vs' = {(k, a\<lparr>vma_length := len\<rparr>), (base, sec)} \<union> (areas vs - {(k, a)})"
proof -
  define va where "va = a\<lparr>vma_length := len\<rparr>"
  define s0 where "s0 = \<lparr>vma_usage = 1, vma_length = vma_length a - len, vma_ptr = 0, vma_offset = 0, vma_flags = 0, vma_op = vma_op a\<rparr>"
  obtain sec m' where sp: "ops_split va s0 m = Some (sec, m')" "vma_length sec = vma_length a - len"
    using assms(4) by (cases "vma_op a")
      (auto simp: va_def s0_def ops_split_def has_split_def vma_split_anon_def vma_split_file_def vma_split_dlib_def)
  note s = set_area_areas [OF assms(1,2), of va]
  have new: "base \<notin> fst ` set (entries (vs_tree (set_area k va vs)))" using assms(2,3) unfolding s(2) by force
  let ?vs = "(set_area k va vs)\<lparr>vs_tree := fst (bb_insert base sec (vs_tree (set_area k va vs)))\<rparr>"
  have "split_area k a len base (vs, m) = Some (va, sec, ?vs, m')" using sp(1) by (simp add: split_area_def Let_def va_def s0_def)
  moreover have "bb_inv (vs_tree ?vs)" using bb.ins_inv [OF s(1)] by simp
  moreover have "areas ?vs = {(k, va), (base, sec)} \<union> (areas vs - {(k, a)})" using bb.ins_items [OF s(1) new] s(2) by auto
  moreover have "vs_lock ?vs = vs_lock vs" by (simp add: set_area_def)
  ultimately show ?thesis using sp(2) unfolding va_def by blast
qed

lemma unmap_split_stops:
  assumes "vs_inv vs" "\<not> vs_lock vs" "(k, a) \<in> areas vs" "has_split (vma_op a)" "unat k < unat base" "unat base < fin (k, a)"
    "(k', a') \<in> areas vs" "k < k'" "\<forall>e\<in>areas vs. unat (fst e) \<noteq> fin (k, a)"
  shows "vmsp_unmap bk base (of_nat (fin (k, a) - unat base)) (vs, m) = None"
proof -
  define len :: size_t where "len = of_nat (fin (k, a) - unat base)"
  define vl where "vl = vs\<lparr>vs_lock := True\<rparr>"
  have same: "same_space vs vl" by (simp add: same_space_def vl_def)
  have l: "lock_space vs = Some vl" "vs_lock vl" "areas vl = areas vs" "vs_inv vl"
    using assms(1,2) same_inv [OF same] by (simp_all add: lock_space_def vl_def)
  have fin: "fin (k, a) \<le> unat (vs_upper vs)" using inv_area [OF assms(1,3)] by (simp add: area_ok_def)
  then have lt: "fin (k, a) < 2 ^ 32" using unat_u32 [of "vs_upper vs"] by simp
  then have ulen: "unat len = fin (k, a) - unat base" by (simp add: len_def unat_of_nat take_bit_eq_mod)
  have limit: "unat (base + len) = fin (k, a)" "unat (k + vma_length a) = fin (k, a)"
    using ulen assms(6) lt unat_add_u32 [of base len] unat_add_u32 [of k "vma_length a"] by (simp_all add: fin_def)
  then have eq: "base + len = k + vma_length a" by (metis word_unat_eq_iff)
  have "k < base" using assms(5) by (simp add: word_less_nat_alt)
  have f: "vmsp_find_area vl base = Some (Some (k, a))" using find_area_of [OF l(4,2)] assms(3,5,6) l(3) by simp
  have "base \<notin> fst ` areas vs"
    using inv_disjoint [OF assms(1,3)] assms(5,6) by (force simp: word_less_nat_alt)
  then obtain sec vs1 m1 where sp: "split_area k a (base - k) base (vl, m) = Some (a\<lparr>vma_length := base - k\<rparr>, sec, vs1, m1)"
      "vma_length sec = vma_length a - (base - k)" "bb_inv (vs_tree vs1)" "vs_lock vs1"
      "areas vs1 = {(k, a\<lparr>vma_length := base - k\<rparr>), (base, sec)} \<union> (areas vs - {(k, a)})"
    using split_area_tree [OF l(4), of k a base "base - k" m] assms(3,4) l(2,3) by auto
  have r: "vma_check_range k a base len (vl, m) = Some (Some (base, sec), vs1, m1)"
    using l(2) \<open>k < base\<close> assms(4) eq sp(1) by (auto simp: vma_check_range_def)
  have "vma_length sec = k + vma_length a - base" using sp(2) by simp
  then have len0: "vma_length sec = len" "len \<noteq> 0" using ulen assms(6) unfolding eq [symmetric] by auto
  have c: "vma_check_limit base sec base len (vs1, m1) = Some (Some sec, vs1, m1)"
    using len0 limit(1) assms(6) by (simp add: vma_check_limit_def Let_def word_le_nat_alt)
  have far: "base + len < j" if "(j, x) \<in> areas vs1" "base < j" for j x
  proof -
    have "(j, x) \<in> areas vs" "k < j" using that sp(5) \<open>k < base\<close> by auto
    then have "fin (k, a) < unat j" using inv_disjoint [OF assms(1,3), of "(j, x)"] assms(9) by force
    then show ?thesis using limit(1) by (simp add: word_less_nat_alt)
  qed
  obtain j x where j: "bb_next (vs_tree vs1) base = Some (j, x)" "base + len < j"
  proof -
    have "(base, sec) \<in> areas vs1" "(k', a') \<in> areas vs1" using sp(5) assms(7,8) by auto
    moreover have "base < k'" using inv_disjoint [OF assms(1,3,7)] assms(6,8) by (simp add: word_less_nat_alt)
    ultimately show ?thesis using next_spec [OF sp(3), of base sec] far that by (fastforce split: option.splits)
  qed
  have "vma_check_limit j x base len s = None" for s using leD [of j "base + len"] j(2) by (auto simp: vma_check_limit_def Let_def)
  then have stop: "unmap_range bk base len j x s = None" for s by (subst unmap_range.simps) simp
  have "unmap_range bk base len base sec (vs1, m1) = None"
    using c j(1) stop by (subst unmap_range.simps) (auto simp: Let_def bind_eq_None_conv)
  moreover have "\<not> (k = base \<and> vma_length a = len)" using \<open>k < base\<close> by auto
  ultimately have "vmsp_unmap bk base len (vs, m) = None" using l(1) f r by (auto simp: vmsp_unmap_def)
  then show ?thesis by (simp add: len_def)
qed

lemma unmap_no_split:
  assumes "vs_inv vs" "\<not> vs_lock vs" "(k, a) \<in> areas vs" "unat k < unat base" "unat base < fin (k, a)" "\<not> has_split (vma_op a)"
  shows "vmsp_unmap bk base len (vs, m) = Some (Inl EINVAL, vs, m)"
proof -
  define vl where "vl = vs\<lparr>vs_lock := True\<rparr>"
  have "same_space vs vl" by (simp add: same_space_def vl_def)
  then have l: "lock_space vs = Some vl" "vs_lock vl" "areas vl = areas vs" "vs_inv vl" "unlock_space vl = vs"
    using assms(1,2) same_inv by (simp_all add: lock_space_def unlock_space_def vl_def)
  have "vmsp_find_area vl base = Some (Some (k, a))" using find_area_of [OF l(4,2)] assms(3-5) l(3) by simp
  moreover have "k \<noteq> base" using assms(4) by auto
  ultimately show ?thesis using l(1,2,5) assms(6) by (simp add: vmsp_unmap_def vma_check_range_def)
qed

text \<open>C28: \<^verbatim>\<open>vmsp_unmap\<close> on the tail of an area, when another area lies further up and none starts right at
  the end. If the area can be split (anonymous memory, files and libraries), the call fails an assertion:
  after the tail is removed, \<^verbatim>\<open>vma_check_limit\<close> is called for that other area and asserts that the end of the
  range is not below it. A valid request of a process stops the kernel. If the area cannot be split (stack,
  heap, pipe and physical areas), the call fails with \<^verbatim>\<open>EINVAL\<close> and changes nothing.\<close>

theorem vmsp_unmap_tail_stops:
  assumes "vs_inv vs" "\<not> vs_lock vs" "(k, a) \<in> areas vs" "unat k < unat base" "unat base < fin (k, a)"
    "(k', a') \<in> areas vs" "k < k'" "\<forall>e\<in>areas vs. unat (fst e) \<noteq> fin (k, a)"
  shows "vmsp_unmap bk base (of_nat (fin (k, a) - unat base)) (vs, m) =
    (if has_split (vma_op a) then None else Some (Inl EINVAL, vs, m))"
proof (cases "has_split (vma_op a)")
  case False
  then show ?thesis using unmap_no_split [OF assms(1-5)] by simp
next
  case True
  then show ?thesis using unmap_split_stops [OF assms(1-3) _ assms(4-8)] by simp
qed

definition sample_two :: vmsp where
  "sample_two = sample_space\<lparr>vs_tree := Bin Tip 1 0x401000 sample_area (Bin Tip 1 0x500000 sample_area Tip), vs_vsize := 8\<rparr>"

lemma sample_two_ok: "vs_inv sample_two" "\<not> vs_lock sample_two" "areas sample_two = {(0x401000, sample_area), (0x500000, sample_area)}"
  by (simp_all add: sample_two_def sample_space_def sample_area_def vs_inv_def bb_inv_def area_ok_def fin_def npages_def)

theorem vmsp_unmap_tail_stops_witness:
  "vmsp_unmap sample_env 0x403000 0x2000 (sample_two, sample_mem boot_mmu empty_mmu) = None"
proof -
  have "fin (0x401000, sample_area) = 0x405000" by (simp add: fin_def sample_area_def)
  then show ?thesis
    using vmsp_unmap_tail_stops [OF sample_two_ok(1,2), of "0x401000" sample_area "0x403000" "0x500000" sample_area sample_env "sample_mem boot_mmu empty_mmu"]
    by (simp add: sample_two_ok(3) has_split_def) (simp add: sample_area_def)
qed

text \<open>C30: \<^verbatim>\<open>vmsp_map\<close> accepts a range that wraps around the end of the address space. The sum of address
  and length is computed modulo \<open>2 ^ 32\<close> before it is compared with the upper bound, so a process
  can place an area of its space above that bound, over the addresses of the kernel.\<close>

theorem vmsp_map_accepts_wrapped_range:
  assumes "vs_inv vs" "\<not> vs_lock vs" "len \<noteq> 0" "unat len mod 4096 = 0" "len \<le> vs_max vs" "vs_upper vs \<le> address" "address + len = 0"
    "vs_lower vs \<le> vs_upper vs" "off AND (PAGE_SIZE - 1) = 0" "flags AND VMA_TYPE = VMA_ANON" "\<not> has flags VM_RESOLVE"
  shows "\<exists>vs'. vmsp_map bk address len ptr off flags (vs, m) = Some (Inr address, vs', m) \<and>
    vs_upper vs' = vs_upper vs \<and> (\<exists>a. areas vs' = insert (address, a) (areas vs)) \<and> \<not> vs_inv vs'"
proof -
  define vl where "vl = vs\<lparr>vs_lock := True\<rparr>"
  have same: "same_space vs vl" by (simp add: same_space_def vl_def)
  have l: "lock_space vs = Some vl" "vs_lock vl" "areas vl = areas vs" "vs_tree vl = vs_tree vs" "vs_lower vl = vs_lower vs" "vs_upper vl = vs_upper vs"
    using assms(2) by (simp_all add: lock_space_def vl_def)
  note t = inv_tree [OF assms(1)]
  have a0: "address \<noteq> 0" using assms(3,7) by auto
  have below: "unat (fst e) < unat address" "fin e \<le> unat address" if "e \<in> areas vs" for e
    using inv_area [OF assms(1) that] assms(6) unat_gt_0 [of "vma_length (snd e)"] by (auto simp: area_ok_def fin_def word_le_nat_alt)
  have new: "address \<notin> fst ` areas vs" using below(1) by auto
  have "vmsp_slot_address vl address len = address"
  proof (cases "bb_search (vs_tree vs) address (- 1)")
    case None
    then have "areas vs = {}" using search_le_none [OF t None] below(1) by (meson equals0I not_less_iff_gr_or_eq word_less_nat_alt)
    then have "bb_left (vs_tree vs) = None" using bb_left_None [OF t] by simp
    then show ?thesis using None l assms(6-8) by (auto simp: vmsp_slot_address_def)
  next
    case (Some e)
    obtain k a where e: "e = (k, a)" by (cases e)
    note s = search_le_split [OF t Some [unfolded e]]
    have "unat (k + vma_length a) = fin (k, a)" using area_end(1) [OF assms(1) s(1), of 0] unat_u32 by simp
    then have "\<not> k + vma_length a > address" using below(2) [OF s(1)] by (simp add: word_less_nat_alt)
    moreover have "bb_next (vs_tree vs) k = None"
      using next_spec [OF t s(1)] s(3) below(1) by (fastforce simp: word_less_nat_alt word_le_nat_alt split: option.splits)
    ultimately show ?thesis using Some e l assms(6-8) by (auto simp: vmsp_slot_address_def)
  qed
  moreover obtain a where k: "vma_kind (vs_krn vl) len ptr off flags m = Some (a, flags, m)"
    using assms(10) that by (simp add: vma_kind_def Let_def)
  define vs1 where "vs1 = vl\<lparr>vs_tree := fst (bb_insert address a (vs_tree vl)), vs_vsize := vs_vsize vl + len div PAGE_SIZE\<rparr>"
  have "vma_create bk address len ptr off flags (vl, m) = Some (vs1, m)"
    using k l(2) assms(11) by (simp add: vma_create_def vs1_def Let_def)
  ultimately have "vmsp_map bk address len ptr off flags (vs, m) = Some (Inr address, unlock_space vs1, m)"
    using assms(3-5,9) leD [OF assms(5)] a0 l(1) page_multiple [of len] by (simp add: vmsp_map_def Let_def)
  moreover have ar: "areas (unlock_space vs1) = insert (address, a) (areas vs)" "vs_upper (unlock_space vs1) = vs_upper vs"
    using bb.ins_items [OF t new] by (simp_all add: vs1_def unlock_space_def l(4,6))
  moreover have "vma_length a = len" using vma_kind_made(1) [OF k] .
  then have "\<not> area_ok (unlock_space vs1) (address, a)"
    using assms(3,6) unat_gt_0 [of len] by (simp add: area_ok_def fin_def ar(2) word_le_nat_alt)
  then have "\<not> vs_inv (unlock_space vs1)" using ar(1) inv_area [of "unlock_space vs1" "(address, a)"] by auto
  ultimately show ?thesis by blast
qed

theorem vmsp_map_accepts_wrapped_range_witness:
  "\<exists>vs'. vmsp_map sample_env 0xFFFFE000 0x2000 0 0 VMA_ANON (sample_space, sample_mem boot_mmu empty_mmu) =
     Some (Inr 0xFFFFE000, vs', sample_mem boot_mmu empty_mmu) \<and> \<not> vs_inv vs'"
proof -
  have s: "(0x2000 :: size_t) \<le> vs_max sample_space" "vs_upper sample_space \<le> 0xFFFFE000" "vs_lower sample_space \<le> vs_upper sample_space"
    by (simp_all add: sample_space_def)
  show ?thesis
    using vmsp_map_accepts_wrapped_range [OF sample_ok(1,2) _ _ s(1,2) _ s(3), of 0 VMA_ANON sample_env 0 "sample_mem boot_mmu empty_mmu"]
    by (auto simp: has_def)
qed

subsection \<open>Copy on write\<close>

text \<open>The entries of user addresses are the same in two memories.\<close>

definition user_same :: "mem \<Rightarrow> mem \<Rightarrow> bool" where
  "user_same m m' \<longleftrightarrow> (\<forall>v<MMU_BOUND_KLOWER. mmu_tbl (mem_pg m') (tbl_index v) = mmu_tbl (mem_pg m) (tbl_index v) \<and>
     mmu_dir (mem_pg m') (dir_index v) = mmu_dir (mem_pg m) (dir_index v))"

lemma user_same_refl: "mem_pg m' = mem_pg m \<Longrightarrow> user_same m m'"
  by (simp add: user_same_def)

lemma user_same_trans: "user_same m m' \<Longrightarrow> user_same m' m'' \<Longrightarrow> user_same m m''"
  by (simp add: user_same_def)

lemma user_kernel_index:
  assumes "v < MMU_BOUND_KLOWER" "MMU_BOUND_KLOWER \<le> w"
  shows "tbl_index v \<noteq> tbl_index w" "dir_index v \<noteq> dir_index w"
proof -
  have d: "dir_index x = unat x div 4194304" for x by (simp add: dir_index_def drop_bit_eq_div unat_div)
  have "unat v < 768 * 4194304" "768 * 4194304 \<le> unat w" using assms by (simp_all add: word_less_nat_alt word_le_nat_alt)
  then have "unat v div 4194304 < 768" "768 \<le> unat w div 4194304" by (simp_all add: less_mult_imp_div_less less_eq_div_iff_mult_less_eq)
  then show "dir_index v \<noteq> dir_index w" unfolding d by linarith
  then show "tbl_index v \<noteq> tbl_index w" using same_tbl_dir by blast
qed

lemma map_page_kernel:
  assumes "MMU_BOUND_KLOWER \<le> w" "map_page w page flags m = Some (t, m')"
  shows "user_same m m'"
  unfolding user_same_def
proof (intro allI impI)
  fix v :: size_t assume v: "v < MMU_BOUND_KLOWER"
  note i = user_kernel_index [OF v assms(1)]
  have "tbl_index v div 1024 \<noteq> dir_index w" using i(2) by (simp add: tbl_dir_index)
  then show "mmu_tbl (mem_pg m') (tbl_index v) = mmu_tbl (mem_pg m) (tbl_index v) \<and>
      mmu_dir (mem_pg m') (dir_index v) = mmu_dir (mem_pg m) (dir_index v)"
    using assms(2) i
    by (auto simp: map_page_def mmu_resolve_def resolve_dir_def clear_table_def bind_eq_Some_conv Let_def split: if_splits)
qed

lemma drop_page_kernel: "MMU_BOUND_KLOWER \<le> w \<Longrightarrow> user_same m (snd (drop_page w m))"
  using user_kernel_index by (auto simp: user_same_def drop_page_def mmu_drop_def Let_def)

lemma missing_phys:
  assumes "vma_op a = OpsPhys" "\<not> has (vma_flags a) VM_UNMAPED" "MMU_BOUND_KLOWER \<le> v" "vma_missing bk base a v (vs, m) = Some (ok, vs', m')"
  shows "user_same m m'"
proof -
  have f: "ops_fetch bk a off b (x, y) = Some (page, x', y') \<Longrightarrow> mem_pg y' = mem_pg y" for off b x y page x' y'
    using assms(1) by (auto simp: ops_fetch_def vma_fetch_phys_def bind_eq_Some_conv split: if_splits)
  have r: "ops_resolve x a v page y = Some (x', y') \<Longrightarrow> user_same y y'" for x y page x' y'
    using assms(1) map_page_kernel [OF assms(3)] by (auto simp: ops_resolve_def vma_resolve_phys_def bind_eq_Some_conv)
  obtain page vs1 m1 where 1: "ops_fetch bk a (file_offset base a v) False (vs, m) = Some (page, vs1, m1)"
    using assms(4) by (auto simp: vma_missing_def Let_def bind_eq_Some_conv)
  show ?thesis
  proof (cases "page = 0")
    case True
    then obtain page2 vs2 m2 where 2: "ops_fetch bk a (file_offset base a v) True (vs1, m1) = Some (page2, vs2, m2)"
        "page2 = 0 \<and> m' = m2 \<or> ops_resolve vs2 a v page2 m2 = Some (vs', m')"
      using assms(2,4) 1 by (auto simp: vma_missing_def Let_def bind_eq_Some_conv split: if_splits)
    then have "user_same m2 m'" using r user_same_refl by blast
    then show ?thesis using f [OF 1] f [OF 2(1)] by (simp add: user_same_def)
  next
    case False
    then have "user_same m1 m'" using assms(4) 1 r by (auto simp: vma_missing_def Let_def bind_eq_Some_conv)
    then show ?thesis using f [OF 1] by (simp add: user_same_def)
  qed
qed

lemma vma_kind_phys:
  assumes "vma_kind krn len ptr off (VMA_PHYS OR VM_RW) m = Some (a, flags, m')"
  shows "vma_op a = OpsPhys" "mem_pg m' = mem_pg m"
  using assms by (auto simp: vma_kind_def Let_def split: if_splits)

lemma resolve_phys_page:
  assumes "vma_op a = OpsPhys" "\<not> has (vma_flags a) VM_UNMAPED" "MMU_BOUND_KLOWER \<le> v" "resolve_all bk base a v 0x1000 (vs, m) = Some (vs', m')"
  shows "user_same m m'"
proof -
  obtain ret vs1 m1 where 1: "vma_resolve bk base a v True False (vs, m) = Some (ret, vs1, m1)" "m' = m1"
    using assms(4) by (subst (asm) resolve_all.simps, subst (asm) resolve_all.simps) (auto simp: bind_eq_Some_conv split: if_splits)
  then show ?thesis using missing_phys [OF assms(1-3)] by (fastforce simp: vma_resolve_def bind_eq_Some_conv split: if_splits)
qed

lemma unmap_phys_page:
  assumes "vma_op a = OpsPhys" "MMU_BOUND_KLOWER \<le> k" "vma_length a = 0x1000" "vma_unmap bk k a (vs, m) = Some (x, vs', m')"
  shows "user_same m m'"
proof (cases "has (vma_flags a) VM_UNMAPED")
  case True
  then show ?thesis using assms(1,4)
    by (auto simp: vma_unmap_def ops_close_def split: if_splits intro: user_same_refl)
next
  case False
  have "for_pages (ops_unmap bk k a) k 0x1000 s = ops_unmap bk k a k s" for s
    using for_pages_len [of "0x1000" "ops_unmap bk k a" k s] by (cases "ops_unmap bk k a k s") simp_all
  then show ?thesis using False assms(1,3,4) drop_page_kernel [OF assms(2), of m]
    by (auto simp: vma_unmap_def ops_close_def ops_unmap_def vma_unmap_phys_def Let_def split: if_splits)
qed

text \<open>The kernel window changes no entry of a user address.\<close>

lemma window_user_same:
  assumes "window (kernel_env bk) page (vs, m) = Some (vs', m')" "\<not> vs_krn vs" "vs_inv (mem_kspace m)" "\<not> vs_lock (mem_kspace m)"
    "room (mem_kspace m) PAGE_SIZE" "MMU_BOUND_KLOWER \<le> vs_lower (mem_kspace m)"
  shows "user_same m m'" "vs' = vs"
proof -
  define e0 where "e0 = bk\<lparr>window := \<lambda>_ _. None\<rparr>"
  define ks where "ks = mem_kspace m"
  obtain ptr ks1 m1 ks2 m2 where k: "kmap e0 PAGE_SIZE 0 (ucast page) (VMA_PHYS OR VM_RW) (ks, m) = Some (ptr, ks1, m1)"
      "kunmap e0 ptr PAGE_SIZE (ks1, m1) = Some (ks2, m2)" "m' = m2\<lparr>mem_kspace := ks2\<rparr>" "vs' = vs"
    using assms(1,2) by (auto simp: kernel_env_def page_window_def e0_def ks_def Let_def bind_eq_Some_conv)
  have map: "vmsp_map e0 0 0x1000 0 (ucast page) (VMA_PHYS OR VM_RW) (ks, m) = Some (Inr ptr, ks1, m1)"
  proof -
    obtain res s where "vmsp_map e0 0 0x1000 0 (ucast page) (VMA_PHYS OR VM_RW) (ks, m) = Some (res, s)"
        "(case res of Inl _ \<Rightarrow> None | Inr ptr \<Rightarrow> Some (ptr, s)) = Some (ptr, ks1, m1)"
      using k(1) by (fastforce simp: kmap_def Let_def bind_eq_Some_conv)
    then show ?thesis by (cases res) auto
  qed
  then have off: "ucast page AND (PAGE_SIZE - 1) = (0 :: u64)" "(0x1000 :: size_t) \<le> vs_max ks"
    by (auto simp: vmsp_map_def not_less split: if_splits)
  show "vs' = vs" by (rule k(4))
  note ks = assms(3-6) [folded ks_def]
  obtain b where "free_range ks (unat b) 4096"
      "do { (vs, m) \<leftarrow> vma_create e0 b 0x1000 0 (ucast page) (VMA_PHYS OR VM_RW) (ks\<lparr>vs_lock := True\<rparr>, m); Some (Inr b, unlock_space vs, m) } =
        Some (Inr ptr :: errno + size_t, ks1, m1)"
    using map_base [OF ks(1,3,2) _ _ off, of 0 "VMA_PHYS OR VM_RW" e0 0 m] unfolding map by auto
  then obtain ks0 where c: "vma_create e0 ptr 0x1000 0 (ucast page) (VMA_PHYS OR VM_RW) (ks\<lparr>vs_lock := True\<rparr>, m) = Some (ks0, m1)"
      "ks1 = unlock_space ks0" "free_range ks (unat ptr) 4096"
    by (auto simp: bind_eq_Some_conv)
  have b: "MMU_BOUND_KLOWER \<le> ptr" using c(3) ks(4) by (auto simp: free_range_def word_le_nat_alt)
  have "vs_inv (ks\<lparr>vs_lock := True\<rparr>)" "free_range (ks\<lparr>vs_lock := True\<rparr>) (unat ptr) (unat (0x1000 :: size_t))" "window_ok e0"
    using ks(1) c(3) by (simp_all add: vs_inv_def area_ok_def npages_def free_range_def window_ok_def e0_def)
  from vma_create_areas [OF this(1,2) _ _ this(3) c(1)]
  obtain a flags mk where a: "vma_kind (vs_krn ks) 0x1000 0 (ucast page) (VMA_PHYS OR VM_RW) m = Some (a, flags, mk)"
      "vma_length a = 0x1000" "areas ks0 = insert (ptr, a) (areas ks)" "vs_inv ks0" by auto
  note ph = vma_kind_phys [OF a(1)] and un = vma_kind_made(2) [OF a(1)]
  have "user_same mk m1"
    using c(1) a(1) resolve_phys_page [OF ph(1) _ b] un by (auto simp: vma_create_def Let_def made_def user_same_refl split: if_splits)
  then have 1: "user_same m m1" using ph(2) by (simp add: user_same_def)
  define kl where "kl = ks1\<lparr>vs_lock := True\<rparr>"
  have kl: "lock_space ks1 = Some kl" "vs_lock kl" "same_space ks0 kl"
    using c(2) by (simp_all add: lock_space_def unlock_space_def kl_def same_space_def)
  have "vs_inv kl" "(ptr, a) \<in> areas kl" using same_inv [OF kl(3)] a(3,4) kl(3) by (simp_all add: same_space_def)
  moreover have "unat ptr < fin (ptr, a)" by (simp add: fin_def a(2))
  ultimately have "vmsp_find_area kl ptr = Some (Some (ptr, a))" using find_area_of [OF _ kl(2)] by simp
  then obtain x ks3 where "vma_unmap e0 ptr a (kl, m1) = Some (x, ks3, m2)"
    using k(2) kl(1) a(2) by (auto simp: kunmap_def vmsp_unmap_def bind_eq_Some_conv)
  then have "user_same m1 m2" using unmap_phys_page [OF ph(1) b a(2)] by simp
  then have "user_same m m2" using 1 user_same_trans by blast
  then show "user_same m m'" using k(3) by (simp add: user_same_def)
qed

lemma map_page_mapped:
  assumes "v < MMU_BOUND_KLOWER" "mmu_dir (mem_pg m) (dir_index v) \<noteq> 0" "mmu_tbl (mem_pg m) (tbl_index v) \<noteq> 0"
  shows "map_page v page flags m = None"
  using assms by (simp add: map_page_def mmu_resolve_def resolve_dir_def Let_def leD)

lemma share_page_pg: "share_page vs page n m = Some (r, m') \<Longrightarrow> mem_pg m' = mem_pg m"
  by (auto simp: share_page_def bind_eq_Some_conv split: option.splits)

lemma free_page_pg: "free_page page m = Some m' \<Longrightarrow> mem_pg m' = mem_pg m"
  by (auto simp: free_page_def bind_eq_Some_conv)

lemma vma_copy_stops:
  assumes "v < MMU_BOUND_KLOWER" "mmu_read v (mem_pg m) \<noteq> 0" "\<not> has (vma_flags a) VMA_BACKEDUP" "\<not> has (vma_flags a) VM_UNMAPED"
    "\<not> vs_krn vs" "vs_inv (mem_kspace m)" "\<not> vs_lock (mem_kspace m)" "room (mem_kspace m) PAGE_SIZE" "MMU_BOUND_KLOWER \<le> vs_lower (mem_kspace m)"
  shows "vma_copy (kernel_env bk) base a v (vs, m) = None"
proof (rule ccontr)
  assume "vma_copy (kernel_env bk) base a v (vs, m) \<noteq> None"
  then obtain page km vs1 m1 last m2 m3 t m4 where
      w: "window (kernel_env bk) page (unlock_space vs, m\<lparr>mem_km := km\<rparr>) = Some (vs1, m1)" and
      r: "share_page (vs1\<lparr>vs_lock := True\<rparr>) (mmu_read v (mem_pg m1)) (- 1) (m1\<lparr>mem_ram := (mem_ram m1)(page := mem_ram m1 (mmu_read v (mem_pg m1)))\<rparr>) = Some (last, m2)"
        "(if last then free_page (mmu_read v (mem_pg m1)) m2 else Some m2) = Some m3" "map_page v page VM_RW m3 = Some (t, m4)"
    using assms(3,4) by (auto simp: vma_copy_def Let_def lock_space_def split: if_splits bind_splits)
  have "user_same (m\<lparr>mem_km := km\<rparr>) m1" using window_user_same(1) [OF w] assms(5-9) by (simp add: unlock_space_def)
  then have "mmu_dir (mem_pg m1) (dir_index v) \<noteq> 0" "mmu_tbl (mem_pg m1) (tbl_index v) \<noteq> 0"
    using assms(1,2) by (auto simp: user_same_def mmu_read_def mapped_def split: if_splits)
  moreover have "mem_pg m3 = mem_pg m1" using share_page_pg [OF r(1)] r(2) free_page_pg by (auto split: if_splits)
  ultimately show False using map_page_mapped [OF assms(1), of m3] r(3) by simp
qed



end
