(* ===== verification/Mcheck.thy ===== *)
theory Mcheck
  imports Vmsp Strings
begin

section \<open>Kernel memory and user pointers (\<^verbatim>\<open>src/mem/memory.c\<close>, \<^verbatim>\<open>src/mem/mcheck.c\<close>)\<close>

text \<open>
  The initial kernel space, the choice of the space of an address, and the checks of pointers
  that come from a process. The contents of user memory, as the process sees it, are a function
  from addresses to bytes.
\<close>

unbundle bit_operations_syntax

subsection \<open>Kernel memory\<close>

text \<open>The kernel space after \<^verbatim>\<open>memory_initialize\<close> and \<^verbatim>\<open>mmu_enable\<close>.\<close>

definition kernel_space :: vmsp where
  "kernel_space = \<lparr>vs_usage = 0, vs_tree = Tip, vs_directory = 0x2000, vs_lower = MMU_BOUND_KLOWER, vs_upper = MMU_BOUND_KUPPER,
     vs_vsize = 0, vs_psize = 1024, vs_ssize = 0, vs_tsize = 2, vs_lock = False, vs_max = 0x08000000,
     vs_share = None, vs_proc = None, vs_krn = True\<rparr>"

definition in_space :: "size_t \<Rightarrow> vmsp \<Rightarrow> bool" where
  "in_space address vs \<longleftrightarrow> address \<ge> vs_lower vs \<and> address < vs_upper vs"

definition memory_space_at :: "vmsp \<Rightarrow> vmsp option \<Rightarrow> size_t \<Rightarrow> vmsp option" where
  "memory_space_at kspace uspace address =
     (if in_space address kspace then Some kspace
      else case uspace of
        None \<Rightarrow> None
      | Some us \<Rightarrow> if in_space address us then Some us else None)"

subsection \<open>User pointers\<close>

definition vmsp_check :: "vmsp \<Rightarrow> size_t \<Rightarrow> size_t \<Rightarrow> u32 \<Rightarrow> (errno + unit) option" where
  "vmsp_check vs ptr len flags =
     do { vs \<leftarrow> lock_space vs;
          area \<leftarrow> vmsp_find_area vs ptr;
          Some (case area of
            None \<Rightarrow> Inl EINVAL
          | Some (k, vma) \<Rightarrow>
              if k + vma_length vma - ptr < len then Inl EINVAL
              else if has flags VM_WR \<and> \<not> has (vma_flags vma) VM_WR then Inl EPERM
              else Inr ()) }"

definition vmsp_check_str :: "vmsp \<Rightarrow> bytes \<Rightarrow> size_t \<Rightarrow> size_t \<Rightarrow> (errno + unit) option" where
  "vmsp_check_str vs usr str mx =
     do { vs \<leftarrow> lock_space vs;
          area \<leftarrow> vmsp_find_area vs str;
          Some (case area of
            None \<Rightarrow> Inl EINVAL
          | Some (k, vma) \<Rightarrow>
              let mx = min mx (k + vma_length vma - str) in
              if strnlen usr (unat str) mx \<ge> mx then Inl EINVAL else Inr ()) }"

definition load_ptr :: "bytes \<Rightarrow> size_t \<Rightarrow> size_t" where
  "load_ptr usr a =
     ucast (usr (unat a)) OR push_bit 8 (ucast (usr (unat a + 1))) OR
     push_bit 16 (ucast (usr (unat a + 2))) OR push_bit 24 (ucast (usr (unat a + 3)))"

text \<open>The loop tests the same pointer each time: \<^verbatim>\<open>str\<close> is not advanced.\<close>

partial_function (option) strarray_loop :: "vmsp \<Rightarrow> bytes \<Rightarrow> size_t \<Rightarrow> size_t \<Rightarrow> size_t \<Rightarrow> int option" where
  "strarray_loop vs usr str mx len =
     (if \<not> len < mx then Some (- 1)
      else if load_ptr usr str = 0 then Some 0
      else do {
        r \<leftarrow> vmsp_check_str vs usr (load_ptr usr str) 4096;
        case r of Inl _ \<Rightarrow> Some (- 1) | Inr _ \<Rightarrow> strarray_loop vs usr str mx (len + 4) })"

definition vmsp_check_strarray :: "vmsp \<Rightarrow> bytes \<Rightarrow> size_t \<Rightarrow> int option" where
  "vmsp_check_strarray vs usr str =
     do { vl \<leftarrow> lock_space vs;
          area \<leftarrow> vmsp_find_area vl str;
          case area of
            None \<Rightarrow> Some (- 1)
          | Some (k, vma) \<Rightarrow> strarray_loop vs usr str (k + vma_length vma - str) 4 }"

subsection \<open>Properties\<close>

lemma locked:
  assumes "vs_inv vs" "\<not> vs_lock vs"
  obtains vl where "lock_space vs = Some vl" "vs_inv vl" "vs_lock vl" "areas vl = areas vs"
proof
  show "lock_space vs = Some (vs\<lparr>vs_lock := True\<rparr>)" using assms(2) by (simp add: lock_space_def)
  show "vs_inv (vs\<lparr>vs_lock := True\<rparr>)" using assms(1) by (simp add: vs_inv_def area_ok_def npages_def)
qed simp_all

lemma rest_of_area:
  assumes "vs_inv vs" "(k, a) \<in> areas vs" "unat p \<le> fin (k, a)"
  shows "unat (k + vma_length a - p) = fin (k, a) - unat p"
proof -
  have "unat (k + vma_length a) = fin (k, a)" using area_end(1) [OF assms(1,2), of 0] unat_u32 by simp
  then show ?thesis using assms(3) unat_sub_if' [of "k + vma_length a" p] by simp
qed

text \<open>C32: \<^verbatim>\<open>vmsp_check\<close> always returns. It accepts a buffer exactly when all of it lies in the area of its
  first byte, and that area is writable if the caller asks to write. It answers \<^verbatim>\<open>EPERM\<close> exactly when
  only the right to write is missing, and \<^verbatim>\<open>EINVAL\<close> in every other case.\<close>

theorem vmsp_check_exact:
  assumes "vs_inv vs" "\<not> vs_lock vs"
  shows "vmsp_check vs ptr len flags = Some (
    if \<exists>e\<in>areas vs. unat (fst e) \<le> unat ptr \<and> unat ptr < fin e \<and> unat ptr + unat len \<le> fin e then
      if \<exists>e\<in>areas vs. unat (fst e) \<le> unat ptr \<and> unat ptr < fin e \<and> (has flags VM_WR \<longrightarrow> has (vma_flags (snd e)) VM_WR) then Inr () else Inl EPERM
    else Inl EINVAL)"
proof -
  obtain vl where l: "lock_space vs = Some vl" "vs_inv vl" "vs_lock vl" "areas vl = areas vs" using locked [OF assms] .
  show ?thesis
  proof (cases "\<exists>e\<in>areas vs. unat (fst e) \<le> unat ptr \<and> unat ptr < fin e")
    case False
    then have "vmsp_find_area vl ptr = Some None" using find_area_spec [OF l(2,3), of ptr] l(4) by (auto split: option.splits)
    then show ?thesis using False l(1) by (auto simp: vmsp_check_def)
  next
    case True
    then obtain k a where a: "(k, a) \<in> areas vs" "unat k \<le> unat ptr" "unat ptr < fin (k, a)" by auto
    have f: "vmsp_find_area vl ptr = Some (Some (k, a))" using find_area_of [OF l(2,3)] a l(4) by simp
    have only: "e = (k, a)" if "e \<in> areas vs" "unat (fst e) \<le> unat ptr" "unat ptr < fin e" for e
      using find_area_of [OF l(2,3), of "fst e" "snd e" ptr] that l(4) f by simp
    have "k + vma_length a - ptr < len \<longleftrightarrow> \<not> unat ptr + unat len \<le> fin (k, a)"
      using rest_of_area [OF assms(1) a(1), of ptr] a(3) by (auto simp: word_less_nat_alt)
    moreover have "(\<exists>e\<in>areas vs. unat (fst e) \<le> unat ptr \<and> unat ptr < fin e \<and> P e) \<longleftrightarrow> P (k, a)" for P by (metis only a fst_conv)
    ultimately show ?thesis using l(1) f by (simp add: vmsp_check_def)
  qed
qed

theorem vmsp_check_exact_witness:
  "vmsp_check sample_space 0x401FF0 0x100 VM_WR = Some (Inr ()) \<and> vmsp_check sample_space 0x404FF0 0x100 VM_RD = Some (Inl EINVAL)"
  using vmsp_check_exact [OF sample_ok(1,2), of "0x401FF0" "0x100" VM_WR] vmsp_check_exact [OF sample_ok(1,2), of "0x404FF0" "0x100" VM_RD]
  unfolding sample_ok(3) by (simp add: fin_def sample_area_def has_def)

text \<open>\<^verbatim>\<open>vmsp_check_strarray\<close> always returns, and accepts an array of strings only when its first pointer
  is null: the loop examines the first pointer again and again, and ends at the end of the area with
  a failure. Every array that holds a string is refused.\<close>

theorem vmsp_check_strarray_only_empty:
  assumes "vs_inv vs" "\<not> vs_lock vs" "unat (vs_upper vs) < 2 ^ 32 - 4"
  shows "vmsp_check_strarray vs usr str = Some (
    if (\<exists>e\<in>areas vs. unat (fst e) \<le> unat str \<and> unat str + 4 < fin e) \<and> load_ptr usr str = 0 then 0 else - 1)"
proof -
  obtain vl where l: "lock_space vs = Some vl" "vs_inv vl" "vs_lock vl" "areas vl = areas vs" using locked [OF assms(1,2)] .
  have check: "\<exists>r. vmsp_check_str vs usr p n = Some r" for p n
    using find_area_spec [OF l(2,3), of p] l(1) by (auto simp: vmsp_check_str_def split: option.splits)
  have loop: "strarray_loop vs usr str mx len = Some (- 1)" if "load_ptr usr str \<noteq> 0" "unat mx < 2 ^ 32 - 4" for mx len
  proof (induction "2 ^ 32 - unat len" arbitrary: len rule: less_induct)
    case less
    obtain r where r: "vmsp_check_str vs usr (load_ptr usr str) 4096 = Some r" using check by blast
    have "strarray_loop vs usr str mx (len + 4) = Some (- 1)" if "len < mx"
    proof (rule less)
      have "unat (len + 4) = unat len + 4" using that \<open>unat mx < _\<close> unat_add_u32 [of len 4] by (simp add: word_less_nat_alt)
      then show "2 ^ 32 - unat (len + 4) < 2 ^ 32 - unat len" using that \<open>unat mx < _\<close> by (simp add: word_less_nat_alt)
    qed
    then show ?case using r that(1) by (subst strarray_loop.simps) (auto split: sum.splits)
  qed
  show ?thesis
  proof (cases "\<exists>e\<in>areas vs. unat (fst e) \<le> unat str \<and> unat str < fin e")
    case False
    then have "vmsp_find_area vl str = Some None" using find_area_spec [OF l(2,3), of str] l(4) by (auto split: option.splits)
    then show ?thesis using False l(1) by (force simp: vmsp_check_strarray_def)
  next
    case True
    then obtain k a where a: "(k, a) \<in> areas vs" "unat k \<le> unat str" "unat str < fin (k, a)" by auto
    have f: "vmsp_find_area vl str = Some (Some (k, a))" using find_area_of [OF l(2,3)] a l(4) by simp
    have only: "e = (k, a)" if "e \<in> areas vs" "unat (fst e) \<le> unat str" "unat str < fin e" for e
      using find_area_of [OF l(2,3), of "fst e" "snd e" str] that l(4) f by simp
    define mx where "mx = k + vma_length a - str"
    have mx: "unat mx = fin (k, a) - unat str" using rest_of_area [OF assms(1) a(1), of str] a(3) by (simp add: mx_def)
    have "fin (k, a) \<le> unat (vs_upper vs)" using inv_area [OF assms(1) a(1)] by (simp add: area_ok_def)
    then have small: "unat mx < 2 ^ 32 - 4" using mx assms(3) by simp
    have "(\<exists>e\<in>areas vs. unat (fst e) \<le> unat str \<and> unat str + 4 < fin e) \<longleftrightarrow> unat str + 4 < fin (k, a)"
      by (metis only a(1,2) add_lessD1 fst_conv)
    then have ex: "(\<exists>e\<in>areas vs. unat (fst e) \<le> unat str \<and> unat str + 4 < fin e) \<longleftrightarrow> 4 < mx"
      using mx by (auto simp: word_less_nat_alt)
    have "vmsp_check_strarray vs usr str = strarray_loop vs usr str mx 4" using l(1) f by (simp add: vmsp_check_strarray_def mx_def)
    moreover have "strarray_loop vs usr str mx 4 = Some (if 4 < mx then 0 else - 1)" if "load_ptr usr str = 0"
      using that by (subst strarray_loop.simps) simp
    ultimately show ?thesis unfolding ex using loop [OF _ small] by (cases "load_ptr usr str = 0") auto
  qed
qed

theorem vmsp_check_strarray_only_empty_witness:
  "vmsp_check_strarray sample_space (\<lambda>a. if a = 0x402000 then 0x20 else 0) 0x402000 = Some (- 1) \<and>
   vmsp_check_strarray sample_space (\<lambda>_. 0) 0x402000 = Some 0"
proof -
  have "unat (vs_upper sample_space) < 2 ^ 32 - 4" by (simp add: sample_space_def)
  note t = vmsp_check_strarray_only_empty [OF sample_ok(1,2) this, of _ "0x402000"]
  show ?thesis unfolding t sample_ok(3) by (simp add: fin_def sample_area_def load_ptr_def)
qed

end
