(* ===== verification/Rwlock.thy ===== *)
theory Rwlock
  imports Prelude
begin

section \<open>Spin locks and read/write locks (\<^verbatim>\<open>include/kora/splock.h\<close>, \<^verbatim>\<open>include/kora/rwlock.h\<close>)\<close>

text \<open>
  The lock functions as a transition system of any number of threads. Each access to the shared
  word or counter is one step of one thread, and steps of different threads interleave in every
  order; the program counter of a thread says which access is next. Accesses are sequentially
  consistent, as the locked instructions of the ports make them. The counter of disabled
  interrupts is local to a processor and is left out.
\<close>

subsection \<open>Model\<close>

text \<open>The places where a thread can be: outside, inside as reader or writer, and between the accesses of
  a function. \<open>RdInc\<close>, \<open>RdTest\<close>, \<open>RdDec\<close>, \<open>RdSpin\<close> are in \<^verbatim>\<open>rwlock_rdlock\<close>; \<open>WrXchg\<close>, \<open>WrSpin\<close> in the
  \<^verbatim>\<open>splock_lock\<close> of \<^verbatim>\<open>rwlock_wrlock\<close> and \<open>WrWait\<close> in its loop; \<open>TryRdTest\<close>, \<open>TryRdDec\<close> in \<^verbatim>\<open>rwlock_rdtrylock\<close>;
  \<open>TryWrXchg\<close>, \<open>TryWrTest\<close>, \<open>TryWrUndo\<close> in \<^verbatim>\<open>rwlock_wrtrylock\<close>; \<open>UpDec\<close> in \<^verbatim>\<open>rwlock_upgrade\<close>, whose last loop
  is again \<open>WrWait\<close>.\<close>

datatype place = Outside | Reading | Writing
  | RdInc | RdTest | RdDec | RdSpin
  | WrXchg | WrSpin | WrWait
  | TryRdTest | TryRdDec
  | TryWrXchg | TryWrTest | TryWrUndo
  | UpDec

record rwlock =
  rw_lock :: bool
  rw_readers :: int
  rw_at :: "nat \<Rightarrow> place"

definition rwlock_init :: rwlock where
  "rwlock_init = \<lparr>rw_lock = False, rw_readers = 0, rw_at = (\<lambda>_. Outside)\<rparr>"

definition goto :: "nat \<Rightarrow> place \<Rightarrow> rwlock \<Rightarrow> rwlock" where
  "goto t p s = s\<lparr>rw_at := (rw_at s)(t := p)\<rparr>"

definition readers_add :: "int \<Rightarrow> rwlock \<Rightarrow> rwlock" where
  "readers_add n s = s\<lparr>rw_readers := rw_readers s + n\<rparr>"

definition set_lock :: "bool \<Rightarrow> rwlock \<Rightarrow> rwlock" where
  "set_lock b s = s\<lparr>rw_lock := b\<rparr>"

inductive rdlock_step :: "nat \<Rightarrow> rwlock \<Rightarrow> rwlock \<Rightarrow> bool" where
  rdlock_call: "rw_at s t = Outside \<Longrightarrow> rdlock_step t s (goto t RdInc s)"
| rdlock_inc: "rw_at s t = RdInc \<Longrightarrow> rdlock_step t s (goto t RdTest (readers_add 1 s))"
| rdlock_enter: "rw_at s t = RdTest \<Longrightarrow> \<not> rw_lock s \<Longrightarrow> rdlock_step t s (goto t Reading s)"
| rdlock_back: "rw_at s t = RdTest \<Longrightarrow> rw_lock s \<Longrightarrow> rdlock_step t s (goto t RdDec s)"
| rdlock_dec: "rw_at s t = RdDec \<Longrightarrow> rdlock_step t s (goto t RdSpin (readers_add (- 1) s))"
| rdlock_again: "rw_at s t = RdSpin \<Longrightarrow> \<not> rw_lock s \<Longrightarrow> rdlock_step t s (goto t RdInc s)"

inductive splock_lock_step :: "nat \<Rightarrow> rwlock \<Rightarrow> rwlock \<Rightarrow> bool" where
  splock_take: "rw_at s t = WrXchg \<Longrightarrow> \<not> rw_lock s \<Longrightarrow> splock_lock_step t s (goto t WrWait (set_lock True s))"
| splock_busy: "rw_at s t = WrXchg \<Longrightarrow> rw_lock s \<Longrightarrow> splock_lock_step t s (goto t WrSpin s)"
| splock_again: "rw_at s t = WrSpin \<Longrightarrow> \<not> rw_lock s \<Longrightarrow> splock_lock_step t s (goto t WrXchg s)"

inductive wrlock_step :: "nat \<Rightarrow> rwlock \<Rightarrow> rwlock \<Rightarrow> bool" where
  wrlock_call: "rw_at s t = Outside \<Longrightarrow> wrlock_step t s (goto t WrXchg s)"
| wrlock_enter: "rw_at s t = WrWait \<Longrightarrow> rw_readers s = 0 \<Longrightarrow> wrlock_step t s (goto t Writing s)"

inductive rdunlock_step :: "nat \<Rightarrow> rwlock \<Rightarrow> rwlock \<Rightarrow> bool" where
  rdunlock: "rw_at s t = Reading \<Longrightarrow> rdunlock_step t s (goto t Outside (readers_add (- 1) s))"

inductive wrunlock_step :: "nat \<Rightarrow> rwlock \<Rightarrow> rwlock \<Rightarrow> bool" where
  wrunlock: "rw_at s t = Writing \<Longrightarrow> wrunlock_step t s (goto t Outside (set_lock False s))"

inductive rdtrylock_step :: "nat \<Rightarrow> rwlock \<Rightarrow> rwlock \<Rightarrow> bool" where
  rdtrylock_inc: "rw_at s t = Outside \<Longrightarrow> rdtrylock_step t s (goto t TryRdTest (readers_add 1 s))"
| rdtrylock_enter: "rw_at s t = TryRdTest \<Longrightarrow> \<not> rw_lock s \<Longrightarrow> rdtrylock_step t s (goto t Reading s)"
| rdtrylock_back: "rw_at s t = TryRdTest \<Longrightarrow> rw_lock s \<Longrightarrow> rdtrylock_step t s (goto t TryRdDec s)"
| rdtrylock_dec: "rw_at s t = TryRdDec \<Longrightarrow> rdtrylock_step t s (goto t Outside (readers_add (- 1) s))"

inductive wrtrylock_step :: "nat \<Rightarrow> rwlock \<Rightarrow> rwlock \<Rightarrow> bool" where
  wrtrylock_free: "rw_at s t = Outside \<Longrightarrow> rw_readers s = 0 \<Longrightarrow> wrtrylock_step t s (goto t TryWrXchg s)"
| wrtrylock_taken: "rw_at s t = Outside \<Longrightarrow> rw_readers s \<noteq> 0 \<Longrightarrow> wrtrylock_step t s s"
| wrtrylock_take: "rw_at s t = TryWrXchg \<Longrightarrow> \<not> rw_lock s \<Longrightarrow> wrtrylock_step t s (goto t TryWrTest (set_lock True s))"
| wrtrylock_busy: "rw_at s t = TryWrXchg \<Longrightarrow> rw_lock s \<Longrightarrow> wrtrylock_step t s (goto t Outside s)"
| wrtrylock_enter: "rw_at s t = TryWrTest \<Longrightarrow> rw_readers s = 0 \<Longrightarrow> wrtrylock_step t s (goto t Writing s)"
| wrtrylock_back: "rw_at s t = TryWrTest \<Longrightarrow> rw_readers s \<noteq> 0 \<Longrightarrow> wrtrylock_step t s (goto t TryWrUndo s)"
| wrtrylock_undo: "rw_at s t = TryWrUndo \<Longrightarrow> wrtrylock_step t s (goto t Outside (set_lock False s))"

inductive upgrade_step :: "nat \<Rightarrow> rwlock \<Rightarrow> rwlock \<Rightarrow> bool" where
  upgrade_take: "rw_at s t = Reading \<Longrightarrow> \<not> rw_lock s \<Longrightarrow> upgrade_step t s (goto t UpDec (set_lock True s))"
| upgrade_busy: "rw_at s t = Reading \<Longrightarrow> rw_lock s \<Longrightarrow> upgrade_step t s s"
| upgrade_dec: "rw_at s t = UpDec \<Longrightarrow> upgrade_step t s (goto t WrWait (readers_add (- 1) s))"

text \<open>One step of some thread in some function, and the states that are reachable.\<close>

inductive rwlock_step :: "rwlock \<Rightarrow> rwlock \<Rightarrow> bool" where
  "rdlock_step t s s' \<Longrightarrow> rwlock_step s s'"
| "splock_lock_step t s s' \<Longrightarrow> rwlock_step s s'"
| "wrlock_step t s s' \<Longrightarrow> rwlock_step s s'"
| "rdunlock_step t s s' \<Longrightarrow> rwlock_step s s'"
| "wrunlock_step t s s' \<Longrightarrow> rwlock_step s s'"
| "rdtrylock_step t s s' \<Longrightarrow> rwlock_step s s'"
| "wrtrylock_step t s s' \<Longrightarrow> rwlock_step s s'"
| "upgrade_step t s s' \<Longrightarrow> rwlock_step s s'"

inductive rwlock_reach :: "rwlock \<Rightarrow> bool" where
  reach_init: "rwlock_reach rwlock_init"
| reach_step: "rwlock_reach s \<Longrightarrow> rwlock_step s s' \<Longrightarrow> rwlock_reach s'"

definition rwlock_wrlocked :: "rwlock \<Rightarrow> bool" where
  "rwlock_wrlocked s = rw_lock s"

inductive_cases rdlock_stepE: "rdlock_step t s s'"
inductive_cases splock_lock_stepE: "splock_lock_step t s s'"
inductive_cases wrlock_stepE: "wrlock_step t s s'"
inductive_cases rdunlock_stepE: "rdunlock_step t s s'"
inductive_cases wrunlock_stepE: "wrunlock_step t s s'"
inductive_cases rdtrylock_stepE: "rdtrylock_step t s s'"
inductive_cases wrtrylock_stepE: "wrtrylock_step t s s'"
inductive_cases upgrade_stepE: "upgrade_step t s s'"

lemmas step_cases = rdlock_stepE splock_lock_stepE wrlock_stepE rdunlock_stepE wrunlock_stepE rdtrylock_stepE wrtrylock_stepE upgrade_stepE

subsection \<open>Mutual exclusion\<close>

text \<open>The places that count as a reader, and those that hold the spin lock.\<close>

definition counted :: "place \<Rightarrow> bool" where
  "counted p \<longleftrightarrow> p \<in> {RdTest, RdDec, TryRdTest, TryRdDec, Reading, UpDec}"

definition holder :: "place \<Rightarrow> bool" where
  "holder p \<longleftrightarrow> p \<in> {WrWait, TryWrTest, TryWrUndo, UpDec, Writing}"

abbreviation counted_by :: "(nat \<Rightarrow> place) \<Rightarrow> nat set" where
  "counted_by f \<equiv> {t. counted (f t)}"

definition rw_inv :: "rwlock \<Rightarrow> bool" where
  "rw_inv s \<longleftrightarrow> finite (counted_by (rw_at s)) \<and> rw_readers s = int (card (counted_by (rw_at s))) \<and>
     (rw_lock s \<longleftrightarrow> (\<exists>t. holder (rw_at s t))) \<and> (\<forall>t u. holder (rw_at s t) \<longrightarrow> holder (rw_at s u) \<longrightarrow> t = u) \<and>
     (\<forall>t u. rw_at s t = Writing \<longrightarrow> rw_at s u \<noteq> Reading)"

text \<open>A thread that moves changes the set of counted threads by at most itself.\<close>

lemma counted_upd:
  "counted_by (f(t := p)) = (if counted p then insert t (counted_by f) else counted_by f - {t})"
  by auto

lemma card_upd:
  assumes "finite (counted_by f)"
  shows "int (card (counted_by (f(t := p)))) =
    int (card (counted_by f)) + (if counted p then 1 else 0) - (if counted (f t) then 1 else 0)"
proof -
  have "card (insert t (counted_by f)) = card (counted_by f) + (if counted (f t) then 0 else 1)"
    using assms by (auto simp: card_insert_if)
  moreover have "counted (f t) \<Longrightarrow> 0 < card (counted_by f)" using assms by (auto simp: card_gt_0_iff)
  then have "int (card (counted_by f - {t})) = int (card (counted_by f)) - (if counted (f t) then 1 else 0)"
    using assms by (auto simp: card_Diff_singleton_if)
  ultimately show ?thesis unfolding counted_upd by auto
qed

text \<open>A move that keeps the counter and the lock in line with the places keeps the invariant.\<close>

lemma rw_inv_move:
  assumes "rw_inv s" "rw_at s' = (rw_at s)(t := p)"
    "rw_readers s' = rw_readers s + (if counted p then 1 else 0) - (if counted (rw_at s t) then 1 else 0)"
    "rw_lock s' \<longleftrightarrow> holder p \<or> rw_lock s \<and> \<not> holder (rw_at s t)"
    "holder p \<Longrightarrow> \<not> holder (rw_at s t) \<Longrightarrow> \<not> rw_lock s"
    "p = Writing \<Longrightarrow> rw_readers s = 0" "p = Reading \<Longrightarrow> \<not> rw_lock s"
  shows "rw_inv s'"
proof -
  have fin: "finite (counted_by (rw_at s))" using assms(1) by (simp add: rw_inv_def)
  have one: "holder (rw_at s t) \<Longrightarrow> holder (rw_at s u) \<Longrightarrow> t = u" "rw_lock s \<longleftrightarrow> (\<exists>t. holder (rw_at s t))" for t u
    using assms(1) by (auto simp: rw_inv_def)
  have "finite (counted_by (rw_at s'))" unfolding assms(2) counted_upd using fin by simp
  moreover have "rw_readers s' = int (card (counted_by (rw_at s')))"
    unfolding assms(2,3) card_upd [OF fin] using assms(1) by (simp add: rw_inv_def)
  moreover have "rw_lock s' \<longleftrightarrow> (\<exists>u. holder (rw_at s' u))" unfolding assms(2,4) one(2) using one(1) by (metis fun_upd_apply)
  moreover have "u = v" if "holder (rw_at s' u)" "holder (rw_at s' v)" for u v
    using that assms(5) one unfolding assms(2) by (metis fun_upd_apply)
  moreover have "rw_at s' v \<noteq> Reading" if w: "rw_at s' u = Writing" for u v
  proof
    assume v: "rw_at s' v = Reading"
    have "\<not> (rw_at s u = Writing \<and> rw_at s v = Reading)" using assms(1) by (auto simp: rw_inv_def)
    then consider "u = t" "p = Writing" "v \<noteq> t" | "v = t" "p = Reading" "u \<noteq> t" using w v assms(2) by (auto split: if_splits)
    then show False
    proof cases
      case 1
      then have "v \<in> counted_by (rw_at s)" using v assms(2) by (simp add: counted_def)
      then have "card (counted_by (rw_at s)) \<noteq> 0" using fin by auto
      then show False using assms(1,6) 1 by (simp add: rw_inv_def)
    next
      case 2
      then have "holder (rw_at s u)" using w assms(2) by (simp add: holder_def)
      then show False using assms(7) 2 one(2) by blast
    qed
  qed
  ultimately show ?thesis unfolding rw_inv_def by blast
qed

lemma rw_inv_goto:
  assumes "rw_inv s" "rw_at s1 = rw_at s"
    "rw_readers s1 = rw_readers s + (if counted p then 1 else 0) - (if counted (rw_at s t) then 1 else 0)"
    "rw_lock s1 \<longleftrightarrow> holder p \<or> rw_lock s \<and> \<not> holder (rw_at s t)"
    "holder p \<Longrightarrow> \<not> holder (rw_at s t) \<Longrightarrow> \<not> rw_lock s"
    "p = Writing \<Longrightarrow> rw_readers s = 0" "p = Reading \<Longrightarrow> \<not> rw_lock s"
  shows "rw_inv (goto t p s1)"
  by (rule rw_inv_move [OF assms(1), of _ t p]) (use assms in \<open>simp_all add: goto_def\<close>)

lemma holder_locked: "rw_inv s \<Longrightarrow> holder (rw_at s t) \<Longrightarrow> rw_lock s"
  by (auto simp: rw_inv_def)

lemmas move_defs = readers_add_def set_lock_def counted_def holder_def

lemma rw_inv_steps:
  assumes "rw_inv s"
  shows "rdlock_step t s s' \<Longrightarrow> rw_inv s'"
    "splock_lock_step t s s' \<Longrightarrow> rw_inv s'"
    "wrlock_step t s s' \<Longrightarrow> rw_inv s'"
    "rdunlock_step t s s' \<Longrightarrow> rw_inv s'"
    "wrunlock_step t s s' \<Longrightarrow> rw_inv s'"
    "rdtrylock_step t s s' \<Longrightarrow> rw_inv s'"
    "wrtrylock_step t s s' \<Longrightarrow> rw_inv s'"
    "upgrade_step t s s' \<Longrightarrow> rw_inv s'"
proof (goal_cases)
  case 1 then show ?case using assms holder_locked [OF assms, of t]
    by (elim rdlock_stepE; (simp; fail | hypsubst, intro rw_inv_goto [OF assms]; simp add: move_defs))
next
  case 2 then show ?case using assms holder_locked [OF assms, of t]
    by (elim splock_lock_stepE; (simp; fail | hypsubst, intro rw_inv_goto [OF assms]; simp add: move_defs))
next
  case 3 then show ?case using assms holder_locked [OF assms, of t]
    by (elim wrlock_stepE; (simp; fail | hypsubst, intro rw_inv_goto [OF assms]; simp add: move_defs))
next
  case 4 then show ?case using assms holder_locked [OF assms, of t]
    by (elim rdunlock_stepE; (simp; fail | hypsubst, intro rw_inv_goto [OF assms]; simp add: move_defs))
next
  case 5 then show ?case using assms holder_locked [OF assms, of t]
    by (elim wrunlock_stepE; (simp; fail | hypsubst, intro rw_inv_goto [OF assms]; simp add: move_defs))
next
  case 6 then show ?case using assms holder_locked [OF assms, of t]
    by (elim rdtrylock_stepE; (simp; fail | hypsubst, intro rw_inv_goto [OF assms]; simp add: move_defs))
next
  case 7 then show ?case using assms holder_locked [OF assms, of t]
    by (elim wrtrylock_stepE; (simp; fail | hypsubst, intro rw_inv_goto [OF assms]; simp add: move_defs))
next
  case 8 then show ?case using assms holder_locked [OF assms, of t]
    by (elim upgrade_stepE; (simp; fail | hypsubst, intro rw_inv_goto [OF assms]; simp add: move_defs))
qed

lemma reach_inv: "rwlock_reach s \<Longrightarrow> rw_inv s"
proof (induction rule: rwlock_reach.induct)
  case reach_init
  then show ?case by (simp add: rw_inv_def rwlock_init_def counted_def holder_def)
next
  case (reach_step s s')
  show ?case using reach_step(2) by (cases rule: rwlock_step.cases) (use rw_inv_steps [OF reach_step(3)] in blast)+
qed

text \<open>C5: In every state that any number of threads can reach by calling the functions of the read/write
  lock, in every interleaving of their accesses, at most one thread writes, and no thread reads
  while one writes. While a thread writes, the lock is seen as locked for writing, and the number
  of readers is never negative and never below the number of threads that read.\<close>

theorem rwlock_mutual_exclusion:
  assumes "rwlock_reach s"
  shows "(\<forall>t u. rw_at s t = Writing \<longrightarrow> rw_at s u = Writing \<longrightarrow> t = u) \<and>
    (\<forall>t u. rw_at s t = Writing \<longrightarrow> rw_at s u \<noteq> Reading \<and> rwlock_wrlocked s) \<and>
    finite {t. rw_at s t = Reading} \<and> int (card {t. rw_at s t = Reading}) \<le> rw_readers s"
proof -
  note i = reach_inv [OF assms, unfolded rw_inv_def]
  have "holder Writing" by (simp add: holder_def)
  then have "t = u" if "rw_at s t = Writing" "rw_at s u = Writing" for t u using i that by metis
  moreover have "rw_lock s" if "rw_at s t = Writing" for t using i that \<open>holder Writing\<close> by metis
  moreover have sub: "{t. rw_at s t = Reading} \<subseteq> counted_by (rw_at s)" by (auto simp: counted_def)
  have fin: "finite (counted_by (rw_at s))" using i by simp
  note finite_subset [OF sub fin] card_mono [OF fin sub]
  ultimately show ?thesis using i by (auto simp: rwlock_wrlocked_def)
qed

text \<open>A run in which one thread reads while another has taken the lock and waits.\<close>

definition waiting_state :: rwlock where
  "waiting_state = \<lparr>rw_lock = True, rw_readers = 1, rw_at = (\<lambda>_. Outside)(0 := Reading, 1 := WrWait)\<rparr>"

lemma waiting_reach: "rwlock_reach waiting_state"
proof -
  have "rwlock_step rwlock_init (goto 0 TryRdTest (readers_add 1 rwlock_init))" (is "rwlock_step _ ?a")
    by (rule rwlock_step.intros(6), rule rdtrylock_inc [of _ 0]) (simp add: rwlock_init_def)
  then have 1: "rwlock_reach ?a" by (rule reach_step [OF reach_init])
  have "rwlock_step ?a (goto 0 Reading ?a)" (is "rwlock_step _ ?b")
    by (rule rwlock_step.intros(6), rule rdtrylock_enter [of _ 0]) (simp_all add: goto_def readers_add_def rwlock_init_def)
  then have 2: "rwlock_reach ?b" by (rule reach_step [OF 1])
  have "rwlock_step ?b (goto 1 WrXchg ?b)" (is "rwlock_step _ ?c")
    by (rule rwlock_step.intros(3), rule wrlock_call [of _ 1]) (simp add: goto_def readers_add_def rwlock_init_def)
  then have 3: "rwlock_reach ?c" by (rule reach_step [OF 2])
  have "rwlock_step ?c (goto 1 WrWait (set_lock True ?c))"
    by (rule rwlock_step.intros(2), rule splock_take [of _ 1]) (simp_all add: goto_def readers_add_def rwlock_init_def)
  then have "rwlock_reach (goto 1 WrWait (set_lock True ?c))" by (rule reach_step [OF 3])
  also have "goto 1 WrWait (set_lock True ?c) = waiting_state"
    by (auto simp: waiting_state_def goto_def set_lock_def readers_add_def rwlock_init_def fun_eq_iff)
  finally show ?thesis .
qed

theorem rwlock_mutual_exclusion_witness:
  "rw_at waiting_state 0 = Reading \<and> (\<forall>t. rw_at waiting_state t \<noteq> Writing) \<and> finite {t. rw_at waiting_state t = Reading}"
proof -
  have "rw_at waiting_state 0 = Reading" by (simp add: waiting_state_def)
  then show ?thesis using rwlock_mutual_exclusion [OF waiting_reach] by blast
qed

end
