(* ===== verification/Sync.thy ===== *)
theory Sync
  imports Prelude
begin

section \<open>Mutexes, condition variables and semaphores (\<^verbatim>\<open>src/stdc/mtx.c\<close>, \<^verbatim>\<open>cnd.c\<close>, \<^verbatim>\<open>sem.c\<close>)\<close>

text \<open>
  The primitives that sleep in the kernel. The word of a mutex is shared, so each access to it is
  preceded by what the other threads may have got since the last one: a function \<open>env\<close> from the
  number of the access and the old value to the new value. A call that reaches \<^verbatim>\<open>futex_wait\<close> is an
  outcome of its own; what happens after the thread is woken is a function of its own. The timed
  variants are modelled up to their first wait.
\<close>

subsection \<open>Model\<close>

text \<open>The exchange instructions return the old value and leave the new one.\<close>

definition atomic_cmpxchg :: "int \<Rightarrow> int \<Rightarrow> int \<Rightarrow> int \<times> int" where
  "atomic_cmpxchg p t s = (p, if p = t then s else p)"

definition atomic_xchg :: "int \<Rightarrow> int \<Rightarrow> int \<times> int" where
  "atomic_xchg p v = (p, v)"

text \<open>\<open>Sleeps\<close> is a call of \<^verbatim>\<open>futex_wait\<close>.\<close>

datatype 'a outcome = Returns 'a | Sleeps

type_synonym interference = "nat \<Rightarrow> int \<Rightarrow> int"

definition mtx_init :: int where
  "mtx_init = 0"

text \<open>The attempts that are left, the number of the next access, the word and the last result; the first
  component says whether the function has returned.\<close>

fun lock_spin :: "interference \<Rightarrow> nat \<Rightarrow> nat \<Rightarrow> int \<Rightarrow> int \<Rightarrow> bool \<times> nat \<times> int \<times> int" where
  "lock_spin env 0 i v s = (False, i, v, s)"
| "lock_spin env (Suc n) i v s =
     (let (s, v) = atomic_cmpxchg (env i v) 0 1
      in if s \<noteq> 0 then (True, Suc i, v, s) else lock_spin env n (Suc i) v s)"

definition mtx_timedlock :: "interference \<Rightarrow> int \<Rightarrow> int outcome \<times> int" where
  "mtx_timedlock env v =
     (case lock_spin env 100 0 v 0 of (got, i, v, s) \<Rightarrow>
        if got then (Returns 0, v)
        else let (s, v) = (if s = 1 then atomic_xchg (env i v) 2 else (s, v))
             in if s \<noteq> 0 then (Sleeps, v) else (Returns 0, v))"

definition mtx_lock :: "interference \<Rightarrow> int \<Rightarrow> int outcome \<times> int" where
  "mtx_lock env v = mtx_timedlock env v"

text \<open>\<open>False\<close> is \<^verbatim>\<open>thrd_busy\<close>.\<close>

definition mtx_trylock :: "interference \<Rightarrow> int \<Rightarrow> bool \<times> int" where
  "mtx_trylock env v = (case lock_spin env 100 0 v 0 of (got, i, v, s) \<Rightarrow> (got, v))"

fun unlock_spin :: "interference \<Rightarrow> nat \<Rightarrow> nat \<Rightarrow> int \<Rightarrow> bool \<times> int" where
  "unlock_spin env 0 i v = (False, v)"
| "unlock_spin env (Suc n) i v =
     (let v = env i v in
      if v \<noteq> 0 then
        let (s, v) = atomic_cmpxchg (env (Suc i) v) 1 2
        in if s \<noteq> 0 then (True, v) else unlock_spin env n (Suc (Suc i)) v
      else unlock_spin env n (Suc i) v)"

text \<open>The flag says whether \<^verbatim>\<open>futex_wake\<close> is called for one waiter.\<close>

definition mtx_unlock :: "interference \<Rightarrow> int \<Rightarrow> bool \<times> int" where
  "mtx_unlock env v =
     (let v = env 0 v in
      if v = 2 then let (got, v) = unlock_spin env 200 1 0 in (\<not> got, v)
      else let (s, v) = atomic_xchg (env 1 v) 0 in
        if s = 1 then (False, v)
        else let (got, v) = unlock_spin env 200 2 v in (\<not> got, v))"

text \<open>No interference: the calls of one thread while the others do nothing.\<close>

definition alone :: interference where
  "alone i v = v"

record cnd =
  cn_mtx :: "nat option"
  cn_seq :: int

definition cnd_init :: cnd where
  "cnd_init = \<lparr>cn_mtx = None, cn_seq = 0\<rparr>"

text \<open>The number is how many waiters are to be woken; \<open>None\<close> stands for all of them, of which all but one
  are moved to the queue of the mutex.\<close>

definition cnd_signal :: "cnd \<Rightarrow> cnd \<times> nat option" where
  "cnd_signal c = (c\<lparr>cn_seq := cn_seq c + 1\<rparr>, Some 1)"

definition cnd_broadcast :: "cnd \<Rightarrow> cnd \<times> nat option" where
  "cnd_broadcast c =
     (case cn_mtx c of None \<Rightarrow> (c, Some 0) | Some _ \<Rightarrow> (c\<lparr>cn_seq := cn_seq c + 1\<rparr>, None))"

text \<open>Up to the wait on the sequence number. The mutex is given by its address and its word.\<close>

definition cnd_timedwait :: "interference \<Rightarrow> cnd \<Rightarrow> nat \<Rightarrow> int \<Rightarrow> (errno outcome \<times> cnd \<times> int)" where
  "cnd_timedwait env c mtx v =
     (if cn_mtx c \<noteq> Some mtx \<and> cn_mtx c \<noteq> None then (Returns EINVAL, c, v)
      else let c = c\<lparr>cn_mtx := Some mtx\<rparr>; (_, v) = mtx_unlock env v in (Sleeps, c, v))"

definition cnd_wait :: "interference \<Rightarrow> cnd \<Rightarrow> nat \<Rightarrow> int \<Rightarrow> (errno outcome \<times> cnd \<times> int)" where
  "cnd_wait env c mtx v = cnd_timedwait env c mtx v"

text \<open>After a wait, here and in the last loop of \<^verbatim>\<open>mtx_timedlock\<close>: one attempt to take the mutex back, marked as contended.\<close>

definition mutex_retake :: "int \<Rightarrow> int outcome \<times> int" where
  "mutex_retake v = (let (s, v) = atomic_xchg v 2 in if s \<noteq> 0 then (Sleeps, v) else (Returns 0, v))"

record sem =
  se_count :: int
  se_mtx :: int
  se_cv :: cnd

definition sem_init :: "int \<Rightarrow> sem" where
  "sem_init count = \<lparr>se_count = count, se_mtx = mtx_init, se_cv = cnd_init\<rparr>"

text \<open>The semaphore functions of a thread that is not disturbed; the address of the mutex inside a
  semaphore is \<open>0\<close>. The loops sleep as long as the count is too small.\<close>

definition sem_enter :: "sem \<Rightarrow> sem" where
  "sem_enter se = se\<lparr>se_mtx := snd (mtx_lock alone (se_mtx se))\<rparr>"

definition sem_leave :: "sem \<Rightarrow> sem" where
  "sem_leave se = se\<lparr>se_mtx := snd (mtx_unlock alone (se_mtx se))\<rparr>"

definition sem_sleep :: "sem \<Rightarrow> sem" where
  "sem_sleep se = (let (_, c, v) = cnd_wait alone (se_cv se) 0 (se_mtx se) in se\<lparr>se_cv := c, se_mtx := v\<rparr>)"

definition sem_acquire :: "sem \<Rightarrow> unit outcome \<times> sem" where
  "sem_acquire se =
     (let se = sem_enter se in
      if se_count se = 0 then (Sleeps, sem_sleep se)
      else (Returns (), sem_leave (se\<lparr>se_count := se_count se - 1\<rparr>)))"

definition sem_timedacquire :: "sem \<Rightarrow> bool outcome \<times> sem" where
  "sem_timedacquire se =
     (let se = sem_enter se in
      if se_count se = 0 then (Sleeps, sem_sleep se)
      else (Returns True, sem_leave (se\<lparr>se_count := se_count se - 1\<rparr>)))"

definition sem_acquire_many :: "int \<Rightarrow> sem \<Rightarrow> unit outcome \<times> sem" where
  "sem_acquire_many count se =
     (let se = sem_enter se in
      if se_count se < count then (Sleeps, sem_sleep se)
      else (Returns (), sem_leave (se\<lparr>se_count := se_count se - count\<rparr>)))"

definition sem_tryacquire :: "sem \<Rightarrow> bool \<times> sem" where
  "sem_tryacquire se =
     (let se = sem_enter se in
      if se_count se = 0 then (False, sem_leave se)
      else (True, sem_leave (se\<lparr>se_count := se_count se - 1\<rparr>)))"

definition sem_release :: "sem \<Rightarrow> nat option \<times> sem" where
  "sem_release se =
     (let se = sem_enter se; se = se\<lparr>se_count := se_count se + 1\<rparr>; (c, n) = cnd_signal (se_cv se)
      in (n, sem_leave (se\<lparr>se_cv := c\<rparr>)))"

definition sem_release_many :: "int \<Rightarrow> sem \<Rightarrow> nat option \<times> sem" where
  "sem_release_many count se =
     (let se = sem_enter se; se = se\<lparr>se_count := se_count se + count\<rparr>; (c, n) = cnd_broadcast (se_cv se)
      in (n, sem_leave (se\<lparr>se_cv := c\<rparr>)))"

definition sem_drain :: "sem \<Rightarrow> int \<times> sem" where
  "sem_drain se =
     (let se = sem_enter se; count = se_count se; se = se\<lparr>se_count := 0\<rparr>;
          se = (if count < 0 then se\<lparr>se_cv := fst (cnd_broadcast (se_cv se))\<rparr> else se)
      in (count, sem_leave se))"

subsection \<open>Properties\<close>

text \<open>The loop of attempts leaves the function on the first non-zero old value.\<close>

lemma lock_spin_result:
  "lock_spin env n i v s = (got, j, w, r) \<Longrightarrow> s = 0 \<Longrightarrow> (if got then r \<noteq> 0 \<and> w = r else r = 0)"
  by (induction env n i v s rule: lock_spin.induct)
    (auto simp: atomic_cmpxchg_def Let_def split: if_splits)

text \<open>C20: \<^verbatim>\<open>mtx_lock\<close> never waits and always reports success, whatever the word of the mutex is and whatever
  other threads do to it meanwhile. The result of the compare-and-exchange, which is the old value,
  is taken for a success flag: a mutex that another thread holds is the one that is handed out
  at once, with its word unchanged. So two threads hold the mutex, and \<^verbatim>\<open>mtx_trylock\<close> behaves
  the same way.\<close>

theorem mtx_lock_never_excludes:
  "fst (mtx_lock env v) = Returns 0 \<and>
   mtx_lock alone 1 = (Returns 0, 1) \<and> mtx_lock alone 2 = (Returns 0, 2) \<and> mtx_lock alone 0 = (Returns 0, 1) \<and>
   mtx_trylock alone 1 = (True, 1) \<and> mtx_trylock alone 2 = (True, 2)"
proof -
  obtain got i w r where l: "lock_spin env 100 0 v 0 = (got, i, w, r)" by (metis prod_cases4)
  then have "fst (mtx_lock env v) = Returns 0"
    using lock_spin_result [OF l refl] by (simp add: mtx_lock_def mtx_timedlock_def split: if_splits)
  moreover have spin: "lock_spin alone (Suc (Suc n)) 0 v 0 = (True, if v = 0 then 2 else 1, if v = 0 then 1 else v, if v = 0 then 1 else v)" for n v
    by (simp add: atomic_cmpxchg_def alone_def)
  have "lock_spin alone 100 0 v 0 = (True, if v = 0 then 2 else 1, if v = 0 then 1 else v, if v = 0 then 1 else v)" for v
    using spin [of 98 v] by (simp add: eval_nat_numeral)
  ultimately show ?thesis by (simp add: mtx_lock_def mtx_timedlock_def mtx_trylock_def)
qed

end
