(* ===== verification/Arena.thy ===== *)
theory Arena
  imports Prelude
begin

section \<open>The kernel allocator (\<^verbatim>\<open>src/stdc/arena.c\<close>)\<close>

text \<open>
  An arena is a range of memory that is tiled by chunks. The header of a chunk holds its size and
  the size of the chunk before it; the headers of free chunks are linked. The state is a function from
  addresses to headers, one entry per address, so that a header that is read where none was written
  is whatever that entry holds. The two links overlap the block that the user gets, so those of an
  allocated chunk are never relied on. The request, the limit of a request and the count of used bytes are
  machine words. Addresses and sizes are numbers, and the fields of a header are cut to their 32 and 31 bits when they are written;
  an arena is shorter than 2 GiB and ends below 4 GiB, which is part of its invariant.
\<close>

subsection \<open>Model\<close>

abbreviation NIL_CHUNK :: nat where "NIL_CHUNK \<equiv> 0"

definition POISON_PTR :: nat where "POISON_PTR = 0xAAAAAAAA"

abbreviation HEAP_HEADER :: "'a::numeral" where "HEAP_HEADER \<equiv> 8"
abbreviation HEAP_MIN_CHUNK :: "'a::numeral" where "HEAP_MIN_CHUNK \<equiv> 16"

record heap_chunk =
  ck_size :: nat
  ck_prsz :: nat
  ck_free :: bool
  ck_prev :: nat
  ck_next :: nat

type_synonym chunks = "nat \<Rightarrow> heap_chunk"

record heap_arena =
  ar_address :: nat
  ar_length :: nat
  ar_used :: u32
  ar_max :: u32
  ar_parano :: bool
  ar_check :: bool
  ar_corrupted :: bool
  ar_lock :: bool
  ar_free :: nat
  ar_mapped :: bool

definition set_size :: "nat \<Rightarrow> nat \<Rightarrow> chunks \<Rightarrow> chunks" where
  "set_size c v h = h(c := (h c)\<lparr>ck_size := v\<rparr>)"

definition set_prsz :: "nat \<Rightarrow> nat \<Rightarrow> chunks \<Rightarrow> chunks" where
  "set_prsz c v h = h(c := (h c)\<lparr>ck_prsz := v\<rparr>)"

definition put_size :: "nat \<Rightarrow> nat \<Rightarrow> chunks \<Rightarrow> chunks" where
  "put_size c v h = set_size c (v mod 2 ^ 32) h"

definition put_prsz :: "nat \<Rightarrow> nat \<Rightarrow> chunks \<Rightarrow> chunks" where
  "put_prsz c v h = set_prsz c (v mod 2 ^ 31) h"

definition put_free :: "nat \<Rightarrow> bool \<Rightarrow> chunks \<Rightarrow> chunks" where
  "put_free c v h = h(c := (h c)\<lparr>ck_free := v\<rparr>)"

definition put_prev :: "nat \<Rightarrow> nat \<Rightarrow> chunks \<Rightarrow> chunks" where
  "put_prev c v h = h(c := (h c)\<lparr>ck_prev := v\<rparr>)"

definition put_next :: "nat \<Rightarrow> nat \<Rightarrow> chunks \<Rightarrow> chunks" where
  "put_next c v h = h(c := (h c)\<lparr>ck_next := v\<rparr>)"

lemmas chunk_sets = set_size_def set_prsz_def put_free_def put_prev_def put_next_def

definition arena_prev_chunk :: "chunks \<Rightarrow> nat \<Rightarrow> nat" where
  "arena_prev_chunk h c = c - ck_prsz (h c)"

definition arena_next_chunk :: "chunks \<Rightarrow> nat \<Rightarrow> nat" where
  "arena_next_chunk h c = c + ck_size (h c)"

definition arena_freelist_rm :: "heap_arena \<Rightarrow> nat \<Rightarrow> chunks \<Rightarrow> (chunks \<times> heap_arena) option" where
  "arena_freelist_rm ar c h =
     (if \<not> ar_lock ar then None
      else
        let h = put_free c False h;
            ar = ar\<lparr>ar_used := ar_used ar + of_nat (ck_size (h c))\<rparr>;
            h = (if ck_next (h c) \<noteq> NIL_CHUNK then put_prev (ck_next (h c)) (ck_prev (h c)) h else h);
            (h, ar) = (if ck_prev (h c) \<noteq> NIL_CHUNK then (put_next (ck_prev (h c)) (ck_next (h c)) h, ar)
                       else (h, ar\<lparr>ar_free := ck_next (h c)\<rparr>));
            h = put_prev c POISON_PTR h;
            h = put_next c POISON_PTR h
        in Some (h, ar))"

partial_function (option) add_cursor :: "chunks \<Rightarrow> nat \<Rightarrow> nat \<Rightarrow> nat option" where
  "add_cursor h sz cur =
     (if ck_next (h cur) \<noteq> NIL_CHUNK \<and> ck_size (h (ck_next (h cur))) \<ge> sz then add_cursor h sz (ck_next (h cur))
      else Some cur)"

definition arena_freelist_add :: "heap_arena \<Rightarrow> nat \<Rightarrow> chunks \<Rightarrow> (chunks \<times> heap_arena) option" where
  "arena_freelist_add ar c h =
     (let cur = ar_free ar in
      if \<not> ar_lock ar then None
      else
        let h = put_free c True h;
            ar = ar\<lparr>ar_used := ar_used ar - of_nat (ck_size (h c))\<rparr>
        in
          if cur = NIL_CHUNK then Some (put_next c NIL_CHUNK (put_prev c NIL_CHUNK h), ar\<lparr>ar_free := c\<rparr>)
          else if ck_size (h cur) \<ge> ck_size (h c) then
            Some (put_prev cur c (put_next c cur (put_prev c NIL_CHUNK h)), ar\<lparr>ar_free := c\<rparr>)
          else do {
            cur \<leftarrow> add_cursor h (ck_size (h c)) cur;
            let h = (if ck_next (h cur) \<noteq> NIL_CHUNK then put_prev (ck_next (h cur)) c h else h);
                h = put_prev c cur h;
                h = put_next c (ck_next (h cur)) h;
                h = put_next cur c h
            in Some (h, ar) })"

definition arena_split_chunk :: "heap_arena \<Rightarrow> nat \<Rightarrow> nat \<Rightarrow> chunks \<Rightarrow> (nat \<times> chunks) option" where
  "arena_split_chunk ar c len h =
     (let nx = arena_next_chunk h c; total = ck_size (h c) in
      if \<not> total \<ge> len + HEAP_MIN_CHUNK then None
      else
        let h = put_size c len h;
            split = arena_next_chunk h c;
            h = put_size split (total - len) h;
            h = put_prsz split len h;
            h = (if nx < ar_address ar + ar_length ar then put_prsz nx (ck_size (h split)) h else h)
        in Some (split, h))"

definition arena_collapse :: "heap_arena \<Rightarrow> nat \<Rightarrow> nat \<Rightarrow> chunks \<Rightarrow> chunks" where
  "arena_collapse ar c1 c2 h =
     (let h = put_size c1 (ck_size (h c1) + ck_size (h c2)) h;
          nx = arena_next_chunk h c1
      in if nx < ar_address ar + ar_length ar then put_prsz nx (ck_size (h c1)) h else h)"

text \<open>The loop of \<^verbatim>\<open>arena_check\<close>; \<open>None\<close> is a failed assertion.\<close>

partial_function (option) check_chunks :: "heap_arena \<Rightarrow> chunks \<Rightarrow> nat \<Rightarrow> unit option" where
  "check_chunks ar h c =
     (let limit = ar_address ar + ar_length ar in
      if c < limit then
        if \<not> ck_size (h c) \<le> ar_length ar then None
        else
          let nx = arena_next_chunk h c in
          if nx < limit then
            if ck_prsz (h nx) \<noteq> ck_size (h c) then None
            else if c \<noteq> ar_address ar \<and> arena_prev_chunk h nx \<noteq> c then None
            else check_chunks ar h nx
          else if nx \<noteq> limit then None
          else check_chunks ar h nx
      else Some ())"

definition arena_check :: "heap_arena \<Rightarrow> chunks \<Rightarrow> unit option" where
  "arena_check ar h = (if \<not> ar_lock ar then None else check_chunks ar h (ar_address ar))"

definition lock_arena :: "heap_arena \<Rightarrow> heap_arena option" where
  "lock_arena ar = (if ar_lock ar then None else Some (ar\<lparr>ar_lock := True\<rparr>))"

definition unlock_arena :: "heap_arena \<Rightarrow> heap_arena" where
  "unlock_arena ar = ar\<lparr>ar_lock := False\<rparr>"

definition setup_arena :: "nat \<Rightarrow> nat \<Rightarrow> u32 \<Rightarrow> bool \<Rightarrow> bool \<Rightarrow> chunks \<Rightarrow> (chunks \<times> heap_arena) option" where
  "setup_arena address len mx parano chk h =
     (let ar = \<lparr>ar_address = address, ar_length = len, ar_used = 0, ar_max = mx, ar_parano = parano, ar_check = chk,
                ar_corrupted = False, ar_lock = False, ar_free = NIL_CHUNK, ar_mapped = False\<rparr>;
          h = put_size address len h;
          h = put_prsz address 0 h;
          h = put_prev address NIL_CHUNK h;
          h = put_next address NIL_CHUNK h
      in do {
        ar \<leftarrow> lock_arena ar;
        (h, ar) \<leftarrow> arena_freelist_add ar address h;
        Some (h, (unlock_arena ar)\<lparr>ar_used := 0\<rparr>) })"

text \<open>The size of the chunk for a request.\<close>

definition chunk_len :: "u32 \<Rightarrow> u32" where
  "chunk_len len = ALIGN_UP (max (len + HEAP_HEADER) HEAP_MIN_CHUNK) 8"

text \<open>The browsing of the free list, up to the first chunk that is large enough.\<close>

datatype browse = Corrupted | Found nat | NoFit

partial_function (option) browse_free :: "bool \<Rightarrow> chunks \<Rightarrow> nat \<Rightarrow> nat \<Rightarrow> nat \<Rightarrow> nat \<Rightarrow> browse option" where
  "browse_free chk h len cur ck_pv ck_sz =
     (if cur = NIL_CHUNK then Some NoFit
      else if chk \<and> (ck_prev (h cur) \<noteq> ck_pv \<or> ck_size (h cur) < ck_sz) then Some Corrupted
      else
        let (ck_pv, ck_sz) = (if chk then (cur, ck_size (h cur)) else (ck_pv, ck_sz)) in
        if ck_size (h cur) < len then browse_free chk h len (ck_next (h cur)) ck_pv ck_sz
        else Some (Found cur))"

text \<open>The results: the pointer and \<^verbatim>\<open>errno\<close>, where \<open>None\<close> is \<open>-1\<close>.\<close>

definition malloc_r :: "heap_arena \<Rightarrow> u32 \<Rightarrow> chunks \<Rightarrow> (nat \<times> errno option \<times> chunks \<times> heap_arena) option" where
  "malloc_r ar len h =
     (let len = chunk_len len in
      if len > ar_max ar then Some (NIL_CHUNK, Some EINVAL, h, ar)
      else do {
        ar \<leftarrow> lock_arena ar;
        _ \<leftarrow> (if ar_parano ar then arena_check ar h else Some ());
        b \<leftarrow> browse_free (ar_check ar) h (unat len) (ar_free ar) NIL_CHUNK 0;
        case b of
          Corrupted \<Rightarrow> Some (NIL_CHUNK, None, h, unlock_arena (ar\<lparr>ar_corrupted := True\<rparr>))
        | NoFit \<Rightarrow> Some (NIL_CHUNK, Some ENOMEM, h, unlock_arena ar)
        | Found cur \<Rightarrow> do {
            (h, ar) \<leftarrow> arena_freelist_rm ar cur h;
            (h, ar) \<leftarrow> (if ck_size (h cur) \<ge> unat (len + HEAP_MIN_CHUNK) then do {
                           (split, h) \<leftarrow> arena_split_chunk ar cur (unat len) h;
                           arena_freelist_add ar split h }
                         else Some (h, ar));
            _ \<leftarrow> (if ar_parano ar then arena_check ar h else Some ());
            Some (cur + HEAP_HEADER, Some EOK, h, unlock_arena ar) } })"

definition free_r :: "heap_arena \<Rightarrow> nat \<Rightarrow> chunks \<Rightarrow> (errno option \<times> chunks \<times> heap_arena) option" where
  "free_r ar ptr h =
     (let c = ptr - HEAP_HEADER; limit = ar_address ar + ar_length ar in
      if \<not> (c \<ge> ar_address ar \<and> c < limit) then None
      else do {
        ar \<leftarrow> lock_arena ar;
        _ \<leftarrow> (if ar_parano ar then arena_check ar h else Some ());
        let pv = arena_prev_chunk h c;
        let nx = arena_next_chunk h c;
        let bad = (ar_check ar \<and> (pv \<noteq> c \<and> ck_size (h pv) \<noteq> ck_prsz (h c) \<or> nx \<noteq> c \<and> ck_prsz (h nx) \<noteq> ck_size (h c)));
        if bad then Some (None, h, unlock_arena (ar\<lparr>ar_corrupted := True\<rparr>))
        else do {
          (h, ar) \<leftarrow> (if nx < limit \<and> ck_free (h nx) then do {
                         (h, ar) \<leftarrow> arena_freelist_rm ar nx h;
                         Some (arena_collapse ar c nx h, ar) }
                       else Some (h, ar));
          (c, h, ar) \<leftarrow> (if pv \<noteq> c \<and> ck_free (h pv) then do {
                            (h, ar) \<leftarrow> arena_freelist_rm ar pv h;
                            Some (pv, arena_collapse ar pv c h, ar) }
                          else Some (c, h, ar));
          (h, ar) \<leftarrow> arena_freelist_add ar c h;
          _ \<leftarrow> (if ar_parano ar then arena_check ar h else Some ());
          Some (Some EOK, h, unlock_arena ar) } })"

subsection \<open>Tiling and free list\<close>

text \<open>From address \<open>a\<close>, preceded by a chunk of size \<open>p\<close>, up to address \<open>l\<close>, preceded by one of size \<open>q\<close>.\<close>

fun tiles :: "chunks \<Rightarrow> nat \<Rightarrow> nat \<Rightarrow> nat \<Rightarrow> nat \<Rightarrow> nat list \<Rightarrow> bool" where
  "tiles h a p l q [] \<longleftrightarrow> a = l \<and> p = q"
| "tiles h a p l q (c # cs) \<longleftrightarrow> c = a \<and> ck_prsz (h c) = p \<and> HEAP_MIN_CHUNK \<le> ck_size (h c) \<and>
     tiles h (c + ck_size (h c)) (ck_size (h c)) l q cs"

text \<open>A doubly linked segment from \<open>p\<close>, preceded by \<open>pv\<close>, up to \<open>n\<close>, preceded by \<open>l\<close>.\<close>

fun flinks :: "chunks \<Rightarrow> nat \<Rightarrow> nat \<Rightarrow> nat list \<Rightarrow> nat \<Rightarrow> nat \<Rightarrow> bool" where
  "flinks h pv p [] l n \<longleftrightarrow> p = n \<and> pv = l"
| "flinks h pv p (x # xs) l n \<longleftrightarrow> p = x \<and> x \<noteq> NIL_CHUNK \<and> ck_prev (h x) = pv \<and> flinks h x (ck_next (h x)) xs l n"

lemma tiles_append: "tiles h a p l q (xs @ ys) \<longleftrightarrow> (\<exists>m r. tiles h a p m r xs \<and> tiles h m r l q ys)"
  by (induction xs arbitrary: a p) auto

lemma flinks_append: "flinks h pv p (xs @ ys) l n \<longleftrightarrow> (\<exists>m r. flinks h pv p xs r m \<and> flinks h r m ys l n)"
  by (induction xs arbitrary: pv p) auto

lemma tiles_cong:
  "(\<And>x. x \<in> set cs \<Longrightarrow> ck_size (h' x) = ck_size (h x) \<and> ck_prsz (h' x) = ck_prsz (h x)) \<Longrightarrow>
   tiles h' a p l q cs = tiles h a p l q cs"
  by (induction cs arbitrary: a p) auto

lemma flinks_cong:
  "(\<And>x. x \<in> set xs \<Longrightarrow> ck_prev (h' x) = ck_prev (h x) \<and> ck_next (h' x) = ck_next (h x)) \<Longrightarrow>
   flinks h' pv p xs l n = flinks h pv p xs l n"
  by (induction xs arbitrary: pv p) auto

lemma tiles_bounds: "tiles h a p l q cs \<Longrightarrow> a \<le> l \<and> (\<forall>c\<in>set cs. a \<le> c \<and> c + ck_size (h c) \<le> l \<and> HEAP_MIN_CHUNK \<le> ck_size (h c))"
proof (induction cs arbitrary: a p)
  case (Cons c cs)
  from Cons.prems Cons.IH [of "c + ck_size (h c)" "ck_size (h c)"] show ?case by force
qed simp

text \<open>The chunks of an arena are disjoint.\<close>

lemma tiles_apart: "tiles h a p l q cs \<Longrightarrow> sorted_wrt (\<lambda>x y. x + ck_size (h x) \<le> y) cs"
  by (induction cs arbitrary: a p) (auto dest: tiles_bounds)

lemma tiles_distinct: "tiles h a p l q cs \<Longrightarrow> distinct cs"
  by (induction cs arbitrary: a p) (force dest: tiles_bounds)+

lemma tiles_overlap:
  assumes "tiles h a p l q cs" "x \<in> set cs" "y \<in> set cs" "x \<noteq> y"
  shows "x + ck_size (h x) \<le> y \<or> y + ck_size (h y) \<le> x"
  using assms
proof (induction cs arbitrary: a p)
  case (Cons c cs)
  then show ?case using tiles_bounds [of h "c + ck_size (h c)" "ck_size (h c)" l q cs] by (auto 4 3)
qed simp

lemma flinks_nil: "flinks h pv p xs l n \<Longrightarrow> NIL_CHUNK \<notin> set xs"
  by (induction xs arbitrary: pv p) auto

lemma flinks_last: "flinks h pv p xs l n \<Longrightarrow> l = (if xs = [] then pv else last xs)"
  by (induction xs arbitrary: pv p) auto

lemma flinks_first: "flinks h pv p xs l n \<Longrightarrow> p = (if xs = [] then n else hd xs)"
  by (cases xs) auto

lemma put_narrow:
  "v < 2 ^ 32 \<Longrightarrow> put_size c v h = set_size c v h" "v < 2 ^ 31 \<Longrightarrow> put_prsz c v h = set_prsz c v h"
  by (simp_all add: put_size_def put_prsz_def)

lemma flinks_put [simp]:
  "x \<notin> set xs \<Longrightarrow> flinks (put_next x v h) pv p xs l n = flinks h pv p xs l n"
  "x \<notin> set xs \<Longrightarrow> flinks (put_prev x v h) pv p xs l n = flinks h pv p xs l n"
  "flinks (put_free x b h) pv p xs l n = flinks h pv p xs l n"
  "flinks (set_size x v h) pv p xs l n = flinks h pv p xs l n"
  "flinks (set_prsz x v h) pv p xs l n = flinks h pv p xs l n"
  by (auto intro!: flinks_cong simp: chunk_sets)

lemma tiles_put [simp]:
  "tiles (put_next x v h) a p l q cs = tiles h a p l q cs"
  "tiles (put_prev x v h) a p l q cs = tiles h a p l q cs"
  "tiles (put_free x b h) a p l q cs = tiles h a p l q cs"
  "x \<notin> set cs \<Longrightarrow> tiles (set_size x v h) a p l q cs = tiles h a p l q cs"
  "x \<notin> set cs \<Longrightarrow> tiles (set_prsz x v h) a p l q cs = tiles h a p l q cs"
  by (auto intro!: tiles_cong simp: chunk_sets)

lemma put_sel [simp]:
  "ck_next (put_next x v h y) = (if y = x then v else ck_next (h y))" "ck_prev (put_next x v h y) = ck_prev (h y)"
  "ck_size (put_next x v h y) = ck_size (h y)" "ck_prsz (put_next x v h y) = ck_prsz (h y)" "ck_free (put_next x v h y) = ck_free (h y)"
  "ck_prev (put_prev x v h y) = (if y = x then v else ck_prev (h y))" "ck_next (put_prev x v h y) = ck_next (h y)"
  "ck_size (put_prev x v h y) = ck_size (h y)" "ck_prsz (put_prev x v h y) = ck_prsz (h y)" "ck_free (put_prev x v h y) = ck_free (h y)"
  "ck_free (put_free x b h y) = (if y = x then b else ck_free (h y))" "ck_next (put_free x b h y) = ck_next (h y)"
  "ck_size (put_free x b h y) = ck_size (h y)" "ck_prsz (put_free x b h y) = ck_prsz (h y)" "ck_prev (put_free x b h y) = ck_prev (h y)"
  "ck_size (set_size x v h y) = (if y = x then v else ck_size (h y))" "ck_next (set_size x v h y) = ck_next (h y)"
  "ck_prev (set_size x v h y) = ck_prev (h y)" "ck_prsz (set_size x v h y) = ck_prsz (h y)" "ck_free (set_size x v h y) = ck_free (h y)"
  "ck_prsz (set_prsz x v h y) = (if y = x then v else ck_prsz (h y))" "ck_next (set_prsz x v h y) = ck_next (h y)"
  "ck_prev (set_prsz x v h y) = ck_prev (h y)" "ck_size (set_prsz x v h y) = ck_size (h y)" "ck_free (set_prsz x v h y) = ck_free (h y)"
  by (auto simp: chunk_sets)

text \<open>Relinking around the ends of segments.\<close>

lemma flinks_set_last:
  assumes "flinks h pv p (xs @ [b]) l n" "distinct (xs @ [b])"
  shows "flinks (put_next b m h) pv p (xs @ [b]) l m"
  using assms by (auto simp: flinks_append)

lemma flinks_set_first:
  assumes "flinks h pv p (d # ys) l n" "d \<notin> set ys"
  shows "flinks (put_prev d m h) m p (d # ys) l n"
  using assms by auto

text \<open>The invariant; \<open>cs\<close> are the chunks and \<open>fs\<close> those in the free list.\<close>

definition ar_inv :: "chunks \<Rightarrow> heap_arena \<Rightarrow> nat list \<Rightarrow> nat list \<Rightarrow> bool" where
  "ar_inv h ar cs fs \<longleftrightarrow> 0 < ar_address ar \<and> ar_length ar < 2 ^ 31 \<and> ar_address ar + ar_length ar < 2 ^ 32 \<and> (\<exists>q. tiles h (ar_address ar) 0 (ar_address ar + ar_length ar) q cs) \<and>
     (\<exists>l. flinks h NIL_CHUNK (ar_free ar) fs l NIL_CHUNK) \<and> distinct fs \<and> set fs \<subseteq> set cs \<and>
     ar_used ar = of_nat (\<Sum>c\<in>set cs - set fs. ck_size (h c))"

definition same_sizes :: "chunks \<Rightarrow> chunks \<Rightarrow> bool" where
  "same_sizes h h' \<longleftrightarrow> (\<forall>x. ck_size (h' x) = ck_size (h x) \<and> ck_prsz (h' x) = ck_prsz (h x))"

definition same_arena :: "heap_arena \<Rightarrow> heap_arena \<Rightarrow> bool" where
  "same_arena ar ar' \<longleftrightarrow> ar_address ar' = ar_address ar \<and> ar_length ar' = ar_length ar \<and> ar_max ar' = ar_max ar \<and>
     ar_parano ar' = ar_parano ar \<and> ar_check ar' = ar_check ar \<and> ar_corrupted ar' = ar_corrupted ar \<and> ar_lock ar' = ar_lock ar \<and> ar_mapped ar' = ar_mapped ar"

lemma rm_inv:
  assumes "ar_inv h ar cs fs" "c \<in> set fs" "ar_lock ar"
  shows "\<exists>h' ar'. arena_freelist_rm ar c h = Some (h', ar') \<and> ar_inv h' ar' cs (remove1 c fs) \<and> same_sizes h h' \<and> same_arena ar ar' \<and>
    (\<forall>x. ck_free (h' x) = (x \<noteq> c \<and> ck_free (h x)))"
proof -
  obtain xs ys where fs: "fs = xs @ c # ys" using assms(2) split_list by metis
  obtain l where l: "flinks h NIL_CHUNK (ar_free ar) fs l NIL_CHUNK" and d: "distinct fs" "set fs \<subseteq> set cs"
      and u: "ar_used ar = of_nat (\<Sum>c\<in>set cs - set fs. ck_size (h c))"
    using assms(1) by (auto simp: ar_inv_def)
  obtain pv where lk: "flinks h NIL_CHUNK (ar_free ar) xs pv c" "ck_prev (h c) = pv" "c \<noteq> NIL_CHUNK" "flinks h c (ck_next (h c)) ys l NIL_CHUNK"
    using l unfolding fs flinks_append by auto
  define nx where "nx = ck_next (h c)"
  define h0 where "h0 = put_free c False h"
  define h1 where "h1 = (if nx \<noteq> NIL_CHUNK then put_prev nx pv h0 else h0)"
  define h2 where "h2 = (if pv \<noteq> NIL_CHUNK then put_next pv nx h1 else h1)"
  define h' where "h' = put_next c POISON_PTR (put_prev c POISON_PTR h2)"
  define ar' where "ar' = ar\<lparr>ar_used := ar_used ar + of_nat (ck_size (h c)), ar_free := (if pv \<noteq> NIL_CHUNK then ar_free ar else nx)\<rparr>"
  have nc: "nx \<noteq> c" using flinks_first [OF lk(4)] d(1) lk(3) unfolding fs nx_def by (cases ys) auto
  have pc: "pv \<noteq> c" using flinks_last [OF lk(1)] d(1) lk(3) unfolding fs by (cases xs rule: rev_cases) auto
  have run: "arena_freelist_rm ar c h = Some (h', ar')"
    using assms(3) lk(2) nc by (simp add: arena_freelist_rm_def Let_def h0_def h1_def h2_def h'_def ar'_def nx_def [symmetric])
  have ss: "same_sizes h h'" by (auto simp: same_sizes_def h'_def h2_def h1_def h0_def)
  have fr: "\<forall>x. ck_free (h' x) = (x \<noteq> c \<and> ck_free (h x))" by (auto simp: h'_def h2_def h1_def h0_def)
  have xs': "flinks h' NIL_CHUNK (ar_free ar') xs pv nx"
  proof (cases xs rule: rev_cases)
    case Nil
    then show ?thesis using lk(1) by (auto simp: ar'_def)
  next
    case (snoc zs b)
    then have "pv = b" "b \<noteq> NIL_CHUNK" using flinks_last [OF lk(1)] flinks_nil [OF lk(1)] by auto
    moreover have "flinks (put_next b nx h) NIL_CHUNK (ar_free ar) xs pv nx" using flinks_set_last lk(1) d(1) unfolding snoc fs by auto
    moreover have "nx \<notin> set xs" using flinks_first [OF lk(4)] flinks_nil [OF lk(1)] d(1) unfolding fs nx_def by (cases ys) auto
    moreover have "c \<notin> set xs" using d(1) unfolding fs by simp
    moreover have "flinks h' NIL_CHUNK (ar_free ar) xs pv nx = flinks (put_next b nx h) NIL_CHUNK (ar_free ar) xs pv nx"
      by (rule flinks_cong) (use calculation in \<open>auto simp: h'_def h2_def h1_def h0_def\<close>)
    ultimately show ?thesis by (simp add: ar'_def)
  qed
  have ys': "flinks h' pv nx ys (if ys = [] then pv else l) NIL_CHUNK"
  proof (cases ys)
    case Nil
    then show ?thesis using lk(4) by (auto simp: nx_def)
  next
    case (Cons e zs)
    then have "nx = e" "e \<noteq> NIL_CHUNK" using lk(4) by (auto simp: nx_def)
    moreover have "flinks (put_prev e pv h) pv nx ys l NIL_CHUNK" using flinks_set_first lk(4) d(1) unfolding Cons fs nx_def by auto
    moreover have "pv \<notin> set ys" using flinks_last [OF lk(1)] flinks_nil [OF lk(4)] d(1) unfolding fs by (cases xs rule: rev_cases) auto
    moreover have "c \<notin> set ys" using d(1) unfolding fs by simp
    moreover have "flinks h' pv nx ys l NIL_CHUNK = flinks (put_prev e pv h) pv nx ys l NIL_CHUNK"
      by (rule flinks_cong) (use calculation in \<open>auto simp: h'_def h2_def h1_def h0_def\<close>)
    ultimately show ?thesis using Cons by simp
  qed
  have "\<exists>l. flinks h' NIL_CHUNK (ar_free ar') (xs @ ys) l NIL_CHUNK" using xs' ys' unfolding flinks_append by blast
  moreover have rm: "remove1 c fs = xs @ ys" "set (remove1 c fs) = set fs - {c}" using d(1) unfolding fs by (auto simp: remove1_append)
  moreover have "(\<Sum>x\<in>set cs - (set fs - {c}). ck_size (h' x)) = ck_size (h c) + (\<Sum>x\<in>set cs - set fs. ck_size (h x))"
  proof -
    have "set cs - (set fs - {c}) = insert c (set cs - set fs)" using assms(2) d(2) by auto
    then show ?thesis using assms(2) ss by (simp add: same_sizes_def)
  qed
  moreover have "tiles h' a p m q cs = tiles h a p m q cs" for a p m q using tiles_cong ss unfolding same_sizes_def by blast
  ultimately have "ar_inv h' ar' cs (remove1 c fs)"
    using assms(1) d u unfolding ar_inv_def rm(2) by (auto simp: ar'_def rm(1) fs)
  then show ?thesis using run ss fr by (auto simp: same_arena_def ar'_def)
qed


text \<open>Where a chunk is linked in: at the front if it is not larger than the first one, otherwise behind
  the chunks that follow the first one and are not smaller.\<close>

fun link_in :: "(nat \<Rightarrow> nat) \<Rightarrow> nat \<Rightarrow> nat list \<Rightarrow> nat list" where
  "link_in sz c [] = [c]"
| "link_in sz c (e # ys) =
     (if sz c \<le> sz e then c # e # ys else e # takeWhile (\<lambda>y. sz c \<le> sz y) ys @ c # dropWhile (\<lambda>y. sz c \<le> sz y) ys)"

lemma add_cursor_spec:
  "flinks h pv cur (cur # ys) l NIL_CHUNK \<Longrightarrow>
   \<exists>xs b. add_cursor h sz cur = Some b \<and> cur # takeWhile (\<lambda>y. sz \<le> ck_size (h y)) ys = xs @ [b]"
proof (induction ys arbitrary: pv cur)
  case Nil
  then show ?case by (subst add_cursor.simps) auto
next
  case (Cons e ys)
  show ?case
  proof (cases "ck_size (h e) \<ge> sz")
    case True
    then have r: "add_cursor h sz cur = add_cursor h sz e" using Cons.prems by (subst add_cursor.simps) auto
    obtain xs b where "add_cursor h sz e = Some b" "e # takeWhile (\<lambda>y. sz \<le> ck_size (h y)) ys = xs @ [b]"
      using Cons.IH [of cur e] Cons.prems by auto
    then show ?thesis unfolding r using True by (intro exI [of _ "cur # xs"]) auto
  next
    case False
    then have "add_cursor h sz cur = Some cur" using Cons.prems by (subst add_cursor.simps) auto
    then show ?thesis using False by auto
  qed
qed

lemma same_sizes_put [simp]:
  "same_sizes h h" "same_sizes h (put_next x v h') = same_sizes h h'" "same_sizes h (put_prev x v h') = same_sizes h h'"
  "same_sizes h (put_free x b h') = same_sizes h h'"
  by (simp_all add: same_sizes_def)

text \<open>Whatever way the chunk is linked in, the invariant follows.\<close>

lemma linked_inv:
  assumes "ar_inv h ar cs fs" "c \<in> set cs" "c \<notin> set fs" "same_sizes h h'" "flinks h' NIL_CHUNK (ar_free ar') fs' l NIL_CHUNK"
    "same_arena ar ar'" "ar_used ar' = ar_used ar - of_nat (ck_size (h c))" "distinct fs'" "set fs' = insert c (set fs)"
  shows "ar_inv h' ar' cs fs'"
proof -
  have "tiles h' a p m q cs = tiles h a p m q cs" for a p m q using tiles_cong assms(4) unfolding same_sizes_def by blast
  moreover have "(\<Sum>x\<in>set cs - set fs. ck_size (h x)) = ck_size (h c) + (\<Sum>x\<in>set cs - set fs'. ck_size (h' x))"
  proof -
    have eq: "set cs - set fs = insert c (set cs - set fs')" using assms(2,3,9) by auto
    have "c \<notin> set cs - set fs'" using assms(9) by simp
    then show ?thesis unfolding eq using assms(4) by (simp add: same_sizes_def)
  qed
  ultimately show ?thesis using assms(1,2,5-9) unfolding ar_inv_def same_arena_def by auto
qed

lemma add_inv:
  assumes "ar_inv h ar cs fs" "c \<in> set cs" "c \<notin> set fs" "ar_lock ar"
  shows "\<exists>h' ar' fs'. arena_freelist_add ar c h = Some (h', ar') \<and> ar_inv h' ar' cs fs' \<and> set fs' = insert c (set fs) \<and>
    fs' = link_in (\<lambda>x. ck_size (h x)) c fs \<and> same_sizes h h' \<and> same_arena ar ar' \<and> (\<forall>x. ck_free (h' x) = (x = c \<or> ck_free (h x)))"
proof -
  obtain l where l: "flinks h NIL_CHUNK (ar_free ar) fs l NIL_CHUNK" and d: "distinct fs"
    using assms(1) by (auto simp: ar_inv_def)
  have c0: "c \<noteq> NIL_CHUNK" using assms(1,2) tiles_bounds unfolding ar_inv_def by fastforce
  define ar1 where "ar1 = ar\<lparr>ar_used := ar_used ar - of_nat (ck_size (h c))\<rparr>"
  define h0 where "h0 = put_free c True h"
  have s0: "ck_size (h0 x) = ck_size (h x)" for x by (simp add: h0_def)
  have l0: "flinks h0 NIL_CHUNK (ar_free ar) fs l NIL_CHUNK" using l by (simp add: h0_def)
  consider (empty) "fs = []" | (first) e ys where "fs = e # ys" "ck_size (h e) \<ge> ck_size (h c)"
    | (after) e ys where "fs = e # ys" "\<not> ck_size (h e) \<ge> ck_size (h c)" by (cases fs) auto
  then obtain h' ar' fs' l' where r: "arena_freelist_add ar c h = Some (h', ar')" "flinks h' NIL_CHUNK (ar_free ar') fs' l' NIL_CHUNK"
      "same_arena ar ar'" "ar_used ar' = ar_used ar - of_nat (ck_size (h c))" "distinct fs'" "set fs' = insert c (set fs)"
      "same_sizes h h'" "\<forall>x. ck_free (h' x) = (x = c \<or> ck_free (h x))" "fs' = link_in (\<lambda>x. ck_size (h x)) c fs"
  proof cases
    case empty
    show ?thesis
      by (rule that [of "put_next c NIL_CHUNK (put_prev c NIL_CHUNK h0)" "ar1\<lparr>ar_free := c\<rparr>" "[c]" c])
        (use empty l assms(4) c0 in \<open>auto simp: arena_freelist_add_def Let_def h0_def ar1_def same_arena_def\<close>)
  next
    case first
    show ?thesis
      by (rule that [of "put_prev e c (put_next c e (put_prev c NIL_CHUNK h0))" "ar1\<lparr>ar_free := c\<rparr>" "c # fs" l])
        (use first l assms(3,4) d c0 in \<open>auto simp: arena_freelist_add_def Let_def h0_def ar1_def same_arena_def\<close>)
  next
    case after
    define zs where "zs = dropWhile (\<lambda>y. ck_size (h c) \<le> ck_size (h y)) ys"
    obtain xs b where b: "add_cursor h0 (ck_size (h c)) e = Some b" "e # takeWhile (\<lambda>y. ck_size (h c) \<le> ck_size (h y)) ys = xs @ [b]"
      using add_cursor_spec [of h0 NIL_CHUNK e ys l "ck_size (h c)"] l0 unfolding after(1) s0 by auto
    have "fs = (e # takeWhile (\<lambda>y. ck_size (h c) \<le> ck_size (h y)) ys) @ zs" by (simp add: zs_def after(1))
    then have fs: "fs = xs @ b # zs" unfolding b(2) by simp
    have li: "link_in (\<lambda>x. ck_size (h x)) c fs = xs @ b # c # zs"
    proof -
      have "link_in (\<lambda>x. ck_size (h x)) c fs = (e # takeWhile (\<lambda>y. ck_size (h c) \<le> ck_size (h y)) ys) @ c # zs"
        using after(2) by (simp add: zs_def after(1))
      then show ?thesis unfolding b(2) by simp
    qed
    define nx where "nx = ck_next (h0 b)"
    define h1 where "h1 = (if nx \<noteq> NIL_CHUNK then put_prev nx c h0 else h0)"
    have bc: "b \<noteq> c" "c \<notin> set xs" "c \<notin> set zs" "b \<notin> set xs" "b \<notin> set zs" "distinct xs" "distinct zs" "set xs \<inter> set zs = {}" 
      using assms(3) d unfolding fs by auto
    obtain pv where pv: "flinks h0 NIL_CHUNK (ar_free ar) xs pv b" "ck_prev (h0 b) = pv" "b \<noteq> NIL_CHUNK" "flinks h0 b nx zs l NIL_CHUNK"
      using l0 unfolding fs flinks_append nx_def by auto
    have nb: "nx \<noteq> b" "nx \<noteq> c" "nx \<notin> set xs" using flinks_first [OF pv(4)] bc pv(3) c0 flinks_nil [OF pv(1)] by (cases zs; auto)+
    have h1: "ck_next (h1 b) = nx" "ck_prev (h1 b) = pv" using pv(2) nb by (auto simp: h1_def nx_def)
    have zs: "flinks h1 (if zs = [] then b else c) nx zs l NIL_CHUNK"
      using pv(4) flinks_set_first [of h0 b nx "hd zs" "tl zs" l NIL_CHUNK c] bc(7) by (cases zs) (auto simp: h1_def)
    have xs: "flinks h1 NIL_CHUNK (ar_free ar) xs pv b" using pv(1) nb(3) by (simp add: h1_def)
    define h' where "h' = put_next b c (put_next c nx (put_prev c b h1))"
    have e: "ar_free ar = e" "e \<noteq> NIL_CHUNK" using l unfolding after(1) by auto
    have run: "arena_freelist_add ar c h = Some (h', ar1)"
      using assms(4) e after(2) b(1) bc(1) nb
      by (simp add: arena_freelist_add_def Let_def h0_def [symmetric] s0 nx_def [symmetric] h1_def h'_def ar1_def)
    have "flinks h' c nx zs (if zs = [] then c else l) NIL_CHUNK" using zs bc by (cases "zs = []") (auto simp: h'_def)
    moreover have "flinks h' NIL_CHUNK (ar_free ar) xs pv b" using xs bc by (simp add: h'_def)
    ultimately have fl: "flinks h' NIL_CHUNK (ar_free ar1) (xs @ b # c # zs) (if zs = [] then c else l) NIL_CHUNK"
      using bc(1) c0 pv(3) h1(2) by (auto simp: flinks_append h'_def ar1_def)
    show ?thesis
      by (rule that [OF run fl]) (use bc fs li in \<open>auto simp: ar1_def h'_def h1_def h0_def same_arena_def\<close>)
  qed
  show ?thesis using linked_inv [OF assms(1-3) r(7,2-6)] r by blast
qed


text \<open>Replacing the chunks between two parts of the tiling, when the sizes add up.\<close>

lemma retile:
  assumes "ar_inv h ar (xs @ ms @ ys) fs" "set ms \<inter> set fs = {}" "set ms' \<inter> set fs = {}" "ms \<noteq> []" "ms' \<noteq> []"
    and mid: "\<And>a p m q. tiles h a p m q ms \<Longrightarrow> tiles h' a p m (ck_size (h' (last ms'))) ms' \<and> (\<Sum>x\<in>set ms'. ck_size (h' x)) = (\<Sum>x\<in>set ms. ck_size (h x)) \<and>
      (\<forall>x\<in>set ms'. a \<le> x \<and> x < m) \<and> (m < ar_address ar + ar_length ar \<longrightarrow> ck_prsz (h' m) = ck_size (h' (last ms'))) \<and>
      (\<forall>x. x \<notin> set ms' \<longrightarrow> ck_size (h' x) = ck_size (h x) \<and> (x \<noteq> m \<longrightarrow> ck_prsz (h' x) = ck_prsz (h x)))"
    and links: "\<And>x. ck_prev (h' x) = ck_prev (h x) \<and> ck_next (h' x) = ck_next (h x)"
  shows "ar_inv h' ar (xs @ ms' @ ys) fs"
proof -
  let ?A = "ar_address ar" let ?L = "ar_address ar + ar_length ar"
  obtain q a p m r where t: "tiles h ?A 0 a p xs" "tiles h a p m r ms" "tiles h m r ?L q ys"
    using assms(1) by (auto simp: ar_inv_def tiles_append)
  have all: "tiles h ?A 0 ?L q (xs @ ms @ ys)" using t by (auto simp: tiles_append)
  note d = tiles_distinct [OF all]
  note mid = mid [OF t(2)]
  let ?s = "ck_size (h' (last ms'))"
  have xb: "\<forall>x\<in>set xs. x < a"
  proof
    fix x assume "x \<in> set xs"
    then have "x + ck_size (h x) \<le> a" "HEAP_MIN_CHUNK \<le> ck_size (h x)" using tiles_bounds [OF t(1)] by auto
    then show "x < a" by linarith
  qed
  have yb: "\<forall>y\<in>set ys. m \<le> y" using tiles_bounds [OF t(3)] by blast
  have am: "a < m" using mid assms(5) by (metis last_in_set le_less_trans)
  have x': "tiles h' ?A 0 a p xs" 
  proof -
    have "x \<notin> set ms' \<and> x \<noteq> m" if "x \<in> set xs" for x using xb am mid that by fastforce
    then show ?thesis using t(1) tiles_cong [of xs h' h] mid by auto
  qed
  have y': "\<exists>q. tiles h' m ?s ?L q ys"
  proof (cases ys)
    case Nil
    then show ?thesis using t(3) by simp
  next
    case (Cons y zs)
    have y: "y = m" "HEAP_MIN_CHUNK \<le> ck_size (h y)" "tiles h (y + ck_size (h y)) (ck_size (h y)) ?L q zs" using t(3) Cons by auto
    have "x \<notin> set ms' \<and> x \<noteq> m" if "x \<in> set zs" for x using tiles_bounds [OF y(3)] y(1,2) mid that by fastforce
    then have "tiles h' (y + ck_size (h y)) (ck_size (h y)) ?L q zs" using y(3) tiles_cong [of zs h' h] mid by auto
    moreover have "m < ?L" using tiles_bounds [OF y(3)] y by linarith
    moreover have "m \<notin> set ms'" using mid by blast
    ultimately show ?thesis using mid y(1,2) Cons by auto
  qed
  have "\<exists>q. tiles h' ?A 0 ?L q (xs @ ms' @ ys)" using x' mid y' unfolding tiles_append by blast
  moreover have "(\<Sum>x\<in>set (xs @ ms' @ ys) - set fs. ck_size (h' x)) = (\<Sum>x\<in>set (xs @ ms @ ys) - set fs. ck_size (h x))"
  proof -
    have "set (xs @ ms' @ ys) - set fs = set ms' \<union> ((set xs \<union> set ys) - set fs)" "set (xs @ ms @ ys) - set fs = set ms \<union> ((set xs \<union> set ys) - set fs)"
      using assms(2,3) by auto
    moreover have "set ms' \<inter> (set xs \<union> set ys) = {}" using xb yb mid by fastforce
    moreover have "set ms \<inter> (set xs \<union> set ys) = {}" using d by auto
    moreover have "(\<Sum>x\<in>(set xs \<union> set ys) - set fs. ck_size (h' x)) = (\<Sum>x\<in>(set xs \<union> set ys) - set fs. ck_size (h x))"
      using mid calculation(3) by (intro sum.cong) auto
    ultimately show ?thesis using mid by (simp add: sum.union_disjoint Int_Diff Diff_Int_distrib)
  qed
  moreover have "flinks h' a p fs l n = flinks h a p fs l n" for a p l n using flinks_cong links by blast
  ultimately show ?thesis using assms(1-3) unfolding ar_inv_def by auto
qed


lemma split_inv:
  assumes "ar_inv h ar (xs @ c # ys) fs" "c \<notin> set fs" "HEAP_MIN_CHUNK \<le> len" "len + HEAP_MIN_CHUNK \<le> ck_size (h c)"
  shows "\<exists>h'. arena_split_chunk ar c len h = Some (c + len, h') \<and> ar_inv h' ar (xs @ c # (c + len) # ys) fs \<and> c + len \<notin> set (xs @ c # ys) \<and>
    ck_size (h' c) = len \<and> ck_size (h' (c + len)) = ck_size (h c) - len \<and>
    (\<forall>x. x \<notin> {c, c + len} \<longrightarrow> ck_size (h' x) = ck_size (h x)) \<and> (\<forall>x. ck_free (h' x) = ck_free (h x))"
proof -
  let ?A = "ar_address ar" let ?L = "ar_address ar + ar_length ar"
  define h1 where "h1 = set_prsz (c + len) len (set_size (c + len) (ck_size (h c) - len) (set_size c len h))"
  define h' where "h' = (if c + ck_size (h c) < ?L then set_prsz (c + ck_size (h c)) (ck_size (h c) - len) h1 else h1)"
  obtain q where t: "tiles h ?A 0 ?L q (xs @ c # ys)" using assms(1) by (auto simp: ar_inv_def)
  have "ck_size (h c) < 2 ^ 31" using tiles_bounds [OF t] assms(1) by (auto simp: ar_inv_def)
  then have run: "arena_split_chunk ar c len h = Some (c + len, h')"
    using assms(3,4) by (auto simp: arena_split_chunk_def arena_next_chunk_def Let_def h1_def h'_def put_narrow)
  have new: "c + len \<notin> set (xs @ c # ys)"
    using tiles_overlap [OF t, of c "c + len"] tiles_bounds [OF t] assms(3,4) by fastforce
  have size: "ck_size (h' c) = len" "ck_size (h' (c + len)) = ck_size (h c) - len"
      "\<forall>x. x \<notin> {c, c + len} \<longrightarrow> ck_size (h' x) = ck_size (h x)" "\<forall>x. ck_free (h' x) = ck_free (h x)"
    using assms(3) by (auto simp: h'_def h1_def)
  have "ar_inv h' ar (xs @ [c, c + len] @ ys) fs"
  proof (rule retile [where ms = "[c]"])
    show "ar_inv h ar (xs @ [c] @ ys) fs" using assms(1) by simp
    show "set [c] \<inter> set fs = {}" "set [c, c + len] \<inter> set fs = {}"
      using assms(1,2) new by (auto simp: ar_inv_def)
    show "ck_prev (h' x) = ck_prev (h x) \<and> ck_next (h' x) = ck_next (h x)" for x by (simp add: h'_def h1_def)
  qed (use assms(3,4) in \<open>auto simp: h'_def h1_def\<close>)
  then show ?thesis using run new size by auto
qed

lemma collapse_inv:
  assumes "ar_inv h ar (xs @ c # n # ys) fs" "c \<notin> set fs" "n \<notin> set fs"
  defines "h' \<equiv> arena_collapse ar c n h"
  shows "ar_inv h' ar (xs @ c # ys) fs \<and> ck_size (h' c) = ck_size (h c) + ck_size (h n) \<and>
    (\<forall>x. x \<noteq> c \<longrightarrow> ck_size (h' x) = ck_size (h x)) \<and> (\<forall>x. ck_free (h' x) = ck_free (h x))"
proof -
  let ?L = "ar_address ar + ar_length ar"
  have sum: "ck_size (h c) + ck_size (h n) < 2 ^ 31"
    using assms(1) by (auto simp: ar_inv_def tiles_append dest!: tiles_bounds)
  have h': "h' = (let h1 = set_size c (ck_size (h c) + ck_size (h n)) h
      in if c + (ck_size (h c) + ck_size (h n)) < ?L then set_prsz (c + (ck_size (h c) + ck_size (h n))) (ck_size (h c) + ck_size (h n)) h1 else h1)"
    using sum by (simp add: h'_def arena_collapse_def arena_next_chunk_def Let_def put_narrow)
  have "ar_inv h' ar (xs @ [c] @ ys) fs"
  proof (rule retile [where ms = "[c, n]"])
    show "ar_inv h ar (xs @ [c, n] @ ys) fs" using assms(1) by simp
    show "ck_prev (h' x) = ck_prev (h x) \<and> ck_next (h' x) = ck_next (h x)" for x by (simp add: h' Let_def)
  qed (use assms(2,3) in \<open>auto simp: h' Let_def\<close>)
  then show ?thesis by (auto simp: h' Let_def)
qed

text \<open>\<^verbatim>\<open>arena_check\<close> passes.\<close>

lemma check_tiles:
  "tiles h c p (ar_address ar + ar_length ar) q cs \<Longrightarrow> ar_address ar \<le> c \<Longrightarrow> check_chunks ar h c = Some ()"
proof (induction cs arbitrary: c p)
  case Nil
  then show ?case by (subst check_chunks.simps) simp
next
  case (Cons d cs)
  let ?L = "ar_address ar + ar_length ar"
  have d: "d = c" "HEAP_MIN_CHUNK \<le> ck_size (h c)" "tiles h (c + ck_size (h c)) (ck_size (h c)) ?L q cs" using Cons.prems(1) by auto
  have le: "c + ck_size (h c) \<le> ?L" using tiles_bounds [OF d(3)] by simp
  have rest: "check_chunks ar h (c + ck_size (h c)) = Some ()" using Cons.IH [OF d(3)] Cons.prems(2) by simp
  have "c + ck_size (h c) < ?L \<Longrightarrow> ck_prsz (h (c + ck_size (h c))) = ck_size (h c)" using d(3) by (cases cs) auto
  then show ?case using d(2) le rest Cons.prems(2)
    by (subst check_chunks.simps) (auto simp: Let_def arena_next_chunk_def arena_prev_chunk_def)
qed

lemma check_ok: "ar_inv h ar cs fs \<Longrightarrow> ar_lock ar \<Longrightarrow> arena_check ar h = Some ()"
  using check_tiles by (auto simp: ar_inv_def arena_check_def)

lemma browse_spec:
  "flinks h pv cur fs l NIL_CHUNK \<Longrightarrow>
   \<exists>b. browse_free chk h len cur ck_pv ck_sz = Some b \<and>
     (case b of Found c \<Rightarrow> c \<in> set fs \<and> len \<le> ck_size (h c)
      | NoFit \<Rightarrow> \<forall>c\<in>set fs. ck_size (h c) < len
      | Corrupted \<Rightarrow> chk)"
proof (induction fs arbitrary: pv cur ck_pv ck_sz)
  case Nil
  then show ?case by (subst browse_free.simps) simp
next
  case (Cons c fs)
  then have c: "cur = c" "c \<noteq> NIL_CHUNK" "flinks h c (ck_next (h c)) fs l NIL_CHUNK" by auto
  show ?case
  proof (cases "chk \<and> (ck_prev (h c) \<noteq> ck_pv \<or> ck_size (h c) < ck_sz) \<or> len \<le> ck_size (h c)")
    case True
    then show ?thesis using c by (subst browse_free.simps) (auto simp: Let_def split: prod.splits)
  next
    case False
    obtain p s where ps: "(if chk then (c, ck_size (h c)) else (ck_pv, ck_sz)) = (p, s)" by (metis surj_pair)
    then have r: "browse_free chk h len cur ck_pv ck_sz = browse_free chk h len (ck_next (h c)) p s"
      using c False by (subst browse_free.simps) (auto simp: Let_def)
    show ?thesis unfolding r using Cons.IH [OF c(3), of p s] False by (auto split: browse.splits)
  qed
qed

lemma browse_sorted:
  "flinks h pv cur fs l NIL_CHUNK \<Longrightarrow> (chk \<Longrightarrow> ck_pv = pv \<and> sorted (ck_sz # map (\<lambda>c. ck_size (h c)) fs)) \<Longrightarrow>
   browse_free chk h len cur ck_pv ck_sz \<noteq> Some Corrupted"
proof (induction fs arbitrary: pv cur ck_pv ck_sz)
  case Nil
  then show ?case by (subst browse_free.simps) simp
next
  case (Cons c fs)
  then have c: "cur = c" "c \<noteq> NIL_CHUNK" "ck_prev (h c) = pv" "flinks h c (ck_next (h c)) fs l NIL_CHUNK" by auto
  have "browse_free chk h len (ck_next (h c)) (if chk then c else ck_pv) (if chk then ck_size (h c) else ck_sz) \<noteq> Some Corrupted"
    by (rule Cons.IH [OF c(4)]) (use Cons.prems(2) in auto)
  then show ?case using c Cons.prems(2) by (subst browse_free.simps) (auto simp: Let_def)
qed

text \<open>A well-formed arena: the flags agree with the free list, and no two free chunks are adjacent.\<close>

definition flags_ok :: "chunks \<Rightarrow> nat list \<Rightarrow> nat list \<Rightarrow> bool" where
  "flags_ok h cs fs \<longleftrightarrow> (\<forall>c\<in>set cs. ck_free (h c) \<longleftrightarrow> c \<in> set fs)"

definition coalesced :: "chunks \<Rightarrow> nat list \<Rightarrow> bool" where
  "coalesced h fs \<longleftrightarrow> (\<forall>c\<in>set fs. c + ck_size (h c) \<notin> set fs)"

definition arena_ok :: "chunks \<Rightarrow> heap_arena \<Rightarrow> nat list \<Rightarrow> nat list \<Rightarrow> bool" where
  "arena_ok h ar cs fs \<longleftrightarrow> ar_inv h ar cs fs \<and> \<not> ar_lock ar \<and> flags_ok h cs fs \<and> coalesced h fs \<and> unat (ar_max ar) + HEAP_MIN_CHUNK < 2 ^ 32"

lemma ar_inv_lock [simp]: "ar_inv h (ar\<lparr>ar_lock := b\<rparr>) cs fs = ar_inv h ar cs fs" "ar_inv h (ar\<lparr>ar_corrupted := b\<rparr>) cs fs = ar_inv h ar cs fs"
  "ar_inv h (unlock_arena ar) cs fs = ar_inv h ar cs fs"
  by (simp_all add: ar_inv_def unlock_arena_def)

lemma ar_inv_tiles: "ar_inv h ar cs fs \<Longrightarrow> \<exists>q. tiles h (ar_address ar) 0 (ar_address ar + ar_length ar) q cs"
  by (simp add: ar_inv_def)

lemma chunks_apart:
  assumes "ar_inv h ar cs fs" "x \<in> set cs" "y \<in> set cs" "x \<noteq> y"
  shows "x + ck_size (h x) \<le> y \<or> y + ck_size (h y) \<le> x"
  using ar_inv_tiles [OF assms(1)] tiles_overlap assms(2-4) by blast

lemma chunk_bounds:
  assumes "ar_inv h ar cs fs" "c \<in> set cs"
  shows "0 < c" "ar_address ar \<le> c" "c + ck_size (h c) \<le> ar_address ar + ar_length ar" "HEAP_MIN_CHUNK \<le> ck_size (h c)"
  using ar_inv_tiles [OF assms(1)] tiles_bounds assms unfolding ar_inv_def by fastforce+

lemma unat_align_down_8: "unat ((w :: u32) AND NOT 7) = unat w div 8 * 8"
proof -
  have 7: "(7 :: u32) = mask 3" by (simp add: mask_eq_exp_minus_1)
  have "w AND NOT 7 = push_bit 3 (drop_bit 3 w)" unfolding 7 by (rule bit_word_eqI) (auto simp: bit_simps)
  then have w: "w AND NOT 7 = w div 8 * 8" by (simp add: push_bit_eq_mult drop_bit_eq_div)
  have "unat (w div 8) * unat (8 :: u32) < 2 ^ 32" using unsigned_less [where w = w and 'a = nat] by (simp add: unat_div)
  then show ?thesis using unat_mult_lem [of "w div 8" 8] unfolding w by (simp add: unat_div)
qed
text \<open>The size of the chunk covers the request and its header.\<close>

lemma chunk_len_bounds:
  assumes "len \<le> 0xFFFFFFF0"
  shows "HEAP_MIN_CHUNK \<le> unat (chunk_len len)" "unat len + HEAP_HEADER \<le> unat (chunk_len len)"
proof -
  define m :: u32 where "m = max (len + 8) 16"
  have l: "unat (len + 8) = unat len + 8" using assms by (subst unat_add_lem [THEN iffD1]) (auto simp: word_le_nat_alt)
  have m: "unat m = max (unat len + 8) 16" using l by (auto simp: m_def max_def word_le_nat_alt)
  have "unat len \<le> 0xFFFFFFF0" using assms by (simp add: word_le_nat_alt)
  then have s: "unat (m + 7) = unat m + 7" using m by (subst unat_add_lem [THEN iffD1]) auto
  have "unat (chunk_len len) = (unat m + 7) div 8 * 8"
    using unat_align_down_8 [of "m + 7"] s by (simp add: chunk_len_def ALIGN_UP_def m_def)
  then show "HEAP_MIN_CHUNK \<le> unat (chunk_len len)" "unat len + HEAP_HEADER \<le> unat (chunk_len len)" using m by auto
qed

text \<open>Taking a chunk out of the free list, and cutting off what is not needed.\<close>

lemma take_chunk:
  assumes "ar_inv h ar cs fs" "ar_lock ar" "flags_ok h cs fs" "coalesced h fs" "c \<in> set fs" "HEAP_MIN_CHUNK \<le> len" "len \<le> ck_size (h c)"
  shows "\<exists>h' ar' cs' fs'. do { (h, ar) \<leftarrow> arena_freelist_rm ar c h;
        if ck_size (h c) \<ge> len + HEAP_MIN_CHUNK then do { (split, h) \<leftarrow> arena_split_chunk ar c len h; arena_freelist_add ar split h }
        else Some (h, ar) } = Some (h', ar') \<and>
    ar_inv h' ar' cs' fs' \<and> same_arena ar ar' \<and> flags_ok h' cs' fs' \<and> coalesced h' fs' \<and>
    set cs' - set fs' = insert c (set cs - set fs) \<and> len \<le> ck_size (h' c) \<and> ck_size (h' c) \<le> ck_size (h c) \<and>
    (\<forall>x\<in>set cs - set fs. ck_size (h' x) = ck_size (h x))"
proof -
  have cs: "c \<in> set cs" "distinct fs" using assms(1,5) by (auto simp: ar_inv_def)
  obtain h1 ar1 where rm: "arena_freelist_rm ar c h = Some (h1, ar1)" "ar_inv h1 ar1 cs (remove1 c fs)" "same_sizes h h1" "same_arena ar ar1"
      "\<And>x. ck_free (h1 x) = (x \<noteq> c \<and> ck_free (h x))"
    using rm_inv [OF assms(1,5,2)] by blast
  have s1: "ck_size (h1 x) = ck_size (h x)" for x using rm(3) by (simp add: same_sizes_def)
  have f1: "set (remove1 c fs) = set fs - {c}" using cs(2) by simp
  show ?thesis
  proof (cases "ck_size (h c) \<ge> len + HEAP_MIN_CHUNK")
    case False
    have "flags_ok h1 cs (remove1 c fs)" "coalesced h1 (remove1 c fs)" using assms(3,4) f1 s1 rm(5) by (auto simp: flags_ok_def coalesced_def)
    then show ?thesis using False rm s1 f1 assms(5,7) cs(1) by (intro exI [of _ h1] exI [of _ ar1] exI [of _ cs] exI [of _ "remove1 c fs"]) auto
  next
    case True
    obtain xs ys where xy: "cs = xs @ c # ys" using cs(1) split_list by metis
    have "ar_lock ar1" using rm(4) assms(2) by (simp add: same_arena_def)
    obtain h2 where sp: "arena_split_chunk ar1 c len h1 = Some (c + len, h2)" "ar_inv h2 ar1 (xs @ c # (c + len) # ys) (remove1 c fs)" "c + len \<notin> set cs"
        "ck_size (h2 c) = len" "ck_size (h2 (c + len)) = ck_size (h c) - len" "\<And>x. x \<notin> {c, c + len} \<Longrightarrow> ck_size (h2 x) = ck_size (h x)"
        "\<And>x. ck_free (h2 x) = ck_free (h1 x)"
      using split_inv [OF rm(2) [unfolded xy], of len] assms(6) True s1 f1 unfolding xy by auto
    define cs' where "cs' = xs @ c # (c + len) # ys"
    have cs': "set cs' = insert (c + len) (set cs)" by (auto simp: cs'_def xy)
    have "c + len \<in> set cs'" "c + len \<notin> set (remove1 c fs)" using sp(3) assms(1) f1 cs' by (auto simp: ar_inv_def)
    from add_inv [OF sp(2) [folded cs'_def] this \<open>ar_lock ar1\<close>]
    obtain h' ar' fs' where ad: "arena_freelist_add ar1 (c + len) h2 = Some (h', ar')" "ar_inv h' ar' cs' fs'" "set fs' = insert (c + len) (set fs - {c})"
        "same_sizes h2 h'" "same_arena ar1 ar'" "\<And>x. ck_free (h' x) = (x = c + len \<or> ck_free (h2 x))"
      unfolding f1 by blast
    have s2: "ck_size (h' x) = ck_size (h2 x)" for x using ad(4) by (simp add: same_sizes_def)
    have "flags_ok h' cs' fs'" using assms(3) by (auto simp: flags_ok_def cs' ad(3,6) sp(7) rm(5))
    moreover have "coalesced h' fs'"
    proof -
      have "f + ck_size (h f) \<noteq> c + len" if "f \<in> set fs" "f \<noteq> c" for f
        using chunks_apart [OF assms(1) _ cs(1) that(2)] that assms(1,6) True unfolding ar_inv_def by fastforce
      moreover have "c + len + (ck_size (h c) - len) \<notin> set fs" using assms(4,5,7) by (auto simp: coalesced_def)
      moreover have "f \<noteq> c + len" if "f \<in> set fs" for f using sp(3) that assms(1) by (auto simp: ar_inv_def)
      ultimately show ?thesis using assms(4,6) True sp(5,6) by (auto simp: coalesced_def ad(3) s2)
    qed
    moreover have "set cs' - set fs' = insert c (set cs - set fs)" using cs(1) sp(3) assms(6) by (auto simp: cs' ad(3))
    moreover have "\<forall>x\<in>set cs - set fs. ck_size (h' x) = ck_size (h x)" using sp(3,6) assms(5) s2 by (metis Diff_iff empty_iff insert_iff)
    ultimately show ?thesis using True rm(1,4) s1 sp(1,4) ad(1,2,5) s2 by (auto simp: same_arena_def)
  qed
qed


lemma malloc_r_spec:
  assumes "arena_ok h ar cs fs" "len \<le> 0xFFFFFFF0"
  shows "\<exists>p e h' ar' cs' fs'. malloc_r ar len h = Some (p, e, h', ar') \<and> arena_ok h' ar' cs' fs' \<and>
    ar_address ar' = ar_address ar \<and> ar_length ar' = ar_length ar \<and>
    (if p \<noteq> 0 then
       p - 8 \<in> set fs \<and> set cs' - set fs' = insert (p - 8) (set cs - set fs) \<and> ar_address ar + 8 \<le> p \<and> p + unat len \<le> ar_address ar + ar_length ar \<and>
       (\<forall>x\<in>set cs - set fs. ck_size (h' x) = ck_size (h x) \<and> (x + ck_size (h x) \<le> p - 8 \<or> p + unat len \<le> x))
     else h' = h \<and> cs' = cs \<and> fs' = fs \<and>
       (e = Some EINVAL \<and> chunk_len len > ar_max ar \<or> e = Some ENOMEM \<and> (\<forall>c\<in>set fs. ck_size (h c) < unat (chunk_len len)) \<or>
        e = None \<and> ar_check ar \<and> \<not> sorted (map (\<lambda>c. ck_size (h c)) fs)))"
proof (cases "chunk_len len > ar_max ar")
  case True
  then show ?thesis using assms(1) by (auto simp: malloc_r_def)
next
  case False
  define k where "k = chunk_len len"
  define al where "al = ar\<lparr>ar_lock := True\<rparr>"
  have ok: "ar_inv h al cs fs" "ar_lock al" "flags_ok h cs fs" "coalesced h fs" "lock_arena ar = Some al" "\<not> ar_lock ar"
    using assms(1) by (auto simp: arena_ok_def al_def lock_arena_def)
  obtain l where l: "flinks h NIL_CHUNK (ar_free ar) fs l NIL_CHUNK" using assms(1) by (auto simp: arena_ok_def ar_inv_def)
  obtain b where b: "browse_free (ar_check ar) h (unat k) (ar_free ar) NIL_CHUNK 0 = Some b"
      "case b of Found c \<Rightarrow> c \<in> set fs \<and> unat k \<le> ck_size (h c) | NoFit \<Rightarrow> \<forall>c\<in>set fs. ck_size (h c) < unat k | Corrupted \<Rightarrow> ar_check ar"
    using browse_spec [OF l] by blast
  have kb: "HEAP_MIN_CHUNK \<le> unat k" "unat len + 8 \<le> unat k" using chunk_len_bounds [OF assms(2)] by (simp_all add: k_def)
  have "unat k \<le> unat (ar_max ar)" using False by (simp add: k_def word_less_nat_alt)
  then have k16: "unat (k + HEAP_MIN_CHUNK) = unat k + HEAP_MIN_CHUNK"
    using assms(1) by (subst unat_add_lem [THEN iffD1]) (auto simp: arena_ok_def)
  have chk: "arena_check al h = Some ()" "ar_check al = ar_check ar" "ar_free al = ar_free ar" using check_ok [OF ok(1,2)] by (simp_all add: al_def)
  show ?thesis
  proof (cases b)
    case Corrupted
    then have "\<not> sorted (map (\<lambda>c. ck_size (h c)) fs)" using browse_sorted [OF l, of "ar_check ar" NIL_CHUNK 0 "unat k"] b by auto
    moreover have "malloc_r ar len h = Some (0, None, h, unlock_arena (al\<lparr>ar_corrupted := True\<rparr>))"
      using False b(1) chk ok(5) Corrupted by (simp add: malloc_r_def k_def)
    ultimately show ?thesis using assms(1) b(2) Corrupted by (auto simp: arena_ok_def al_def unlock_arena_def)
  next
    case NoFit
    then have "malloc_r ar len h = Some (0, Some ENOMEM, h, unlock_arena al)"
      using False b(1) chk ok(5) by (simp add: malloc_r_def k_def)
    then show ?thesis using assms(1) b(2) NoFit by (auto simp: arena_ok_def al_def unlock_arena_def k_def)
  next
    case (Found c)
    then have c: "c \<in> set fs" "unat k \<le> ck_size (h c)" using b(2) by auto
    then have cc: "c \<in> set cs" using ok(1) by (auto simp: ar_inv_def)
    from take_chunk [OF ok(1-4) c(1) kb(1) c(2)]
    obtain h' ar' cs' fs' where t: "do { (h, ar) \<leftarrow> arena_freelist_rm al c h;
          if ck_size (h c) \<ge> unat k + HEAP_MIN_CHUNK then do { (split, h) \<leftarrow> arena_split_chunk ar c (unat k) h; arena_freelist_add ar split h }
          else Some (h, ar) } = Some (h', ar')"
        "ar_inv h' ar' cs' fs'" "same_arena al ar'" "flags_ok h' cs' fs'" "coalesced h' fs'" "set cs' - set fs' = insert c (set cs - set fs)"
        "unat k \<le> ck_size (h' c)" "ck_size (h' c) \<le> ck_size (h c)" "\<forall>x\<in>set cs - set fs. ck_size (h' x) = ck_size (h x)"
      by blast
    have "ar_lock ar'" "ar_parano ar' = ar_parano ar" using t(3) by (simp_all add: same_arena_def al_def)
    moreover obtain h1 ar1 where rm: "arena_freelist_rm al c h = Some (h1, ar1)" using t(1) by (auto simp: bind_eq_Some_conv)
    moreover have "(if ck_size (h1 c) \<ge> unat k + HEAP_MIN_CHUNK then do { (split, h) \<leftarrow> arena_split_chunk ar1 c (unat k) h1; arena_freelist_add ar1 split h }
          else Some (h1, ar1)) = Some (h', ar')" using t(1) rm by simp
    ultimately have "malloc_r ar len h = Some (c + 8, Some EOK, h', unlock_arena ar')"
      using False b(1) chk ok(5) Found k16 check_ok [OF t(2)] unfolding malloc_r_def k_def [symmetric] by (simp cong: if_cong)
    moreover have "arena_ok h' (unlock_arena ar') cs' fs'"
      using assms(1) t(2-5) by (auto simp: arena_ok_def same_arena_def al_def unlock_arena_def)
    moreover have "c + 8 + unat len \<le> ar_address ar + ar_length ar" "ar_address ar \<le> c"
      using chunk_bounds [OF ok(1) cc] c(2) kb(2) by (auto simp: al_def)
    moreover have "x + ck_size (h x) \<le> c \<or> c + 8 + unat len \<le> x" if "x \<in> set cs - set fs" for x
      using chunks_apart [OF ok(1) _ cc, of x] that c kb(2) by fastforce
    moreover have "ar_address (unlock_arena ar') = ar_address ar" "ar_length (unlock_arena ar') = ar_length ar"
      using t(3) by (simp_all add: same_arena_def al_def unlock_arena_def)
    ultimately show ?thesis using t(6,9) c(1) by (auto intro!: exI [of _ "c + 8"])
  qed
qed

text \<open>A request close to the end of the address space wraps around. One of at least \<^verbatim>\<open>0xFFFFFFF8\<close> bytes is served
  as a request of 8 bytes. One between \<^verbatim>\<open>0xFFFFFFF1\<close> and \<^verbatim>\<open>0xFFFFFFF7\<close> bytes asks for a chunk of no bytes, which the code cuts off the
  front of a free chunk.\<close>

lemma malloc_r_wraps:
  assumes "0xFFFFFFF8 \<le> len"
  shows "malloc_r ar len h = malloc_r ar 8 h"
proof -
  define w where "w = len + 8"
  have "unat len + 8 = 2 ^ 32 + unat w" "unat w < 8"
    using assms unsigned_less [where w = len and 'a = nat] by (auto simp: w_def unat_word_ariths word_le_nat_alt le_mod_geq)
  then have "max w 16 = 16" by (simp add: max_def word_le_nat_alt)
  then show ?thesis by (simp add: malloc_r_def chunk_len_def w_def [symmetric])
qed

lemma chunk_len_zero:
  assumes "0xFFFFFFF1 \<le> len" "len \<le> 0xFFFFFFF7"
  shows "chunk_len len = 0"
proof -
  define w where "w = len + 8"
  have w: "unat w = unat len + 8" using assms by (auto simp: w_def unat_word_ariths word_le_nat_alt)
  then have m: "max w 16 = w" using assms by (simp add: max_def word_le_nat_alt)
  have "unat (w + 7) < 8" using w assms by (auto simp: unat_word_ariths word_le_nat_alt le_mod_geq)
  then have "unat ((w + 7) AND NOT 7) = 0" unfolding unat_align_down_8 by simp
  then have "(w + 7) AND NOT 7 = 0" by (rule unat_eq_zero [THEN iffD1])
  then show ?thesis using m by (simp add: chunk_len_def ALIGN_UP_def w_def [symmetric])
qed


text \<open>The neighbours of a chunk.\<close>

lemma chunk_next:
  assumes "ar_inv h ar (xs @ c # ys) fs"
  shows "if c + ck_size (h c) < ar_address ar + ar_length ar then \<exists>zs. ys = (c + ck_size (h c)) # zs \<and> ck_prsz (h (c + ck_size (h c))) = ck_size (h c)
         else ys = [] \<and> c + ck_size (h c) = ar_address ar + ar_length ar"
proof -
  obtain q where "tiles h (c + ck_size (h c)) (ck_size (h c)) (ar_address ar + ar_length ar) q ys"
    using assms by (auto simp: ar_inv_def tiles_append)
  then show ?thesis by (cases ys) (auto dest: tiles_bounds)
qed

lemma chunk_prev:
  assumes "ar_inv h ar (xs @ c # ys) fs"
  shows "if xs = [] then c = ar_address ar \<and> ck_prsz (h c) = 0
         else last xs + ck_size (h (last xs)) = c \<and> ck_prsz (h c) = ck_size (h (last xs))"
proof (cases xs rule: rev_cases)
  case Nil
  then show ?thesis using assms by (auto simp: ar_inv_def)
next
  case (snoc ws b)
  then show ?thesis using assms by (auto simp: ar_inv_def tiles_append)
qed

lemma ar_inv_distinct: "ar_inv h ar cs fs \<Longrightarrow> distinct fs \<and> distinct cs \<and> set fs \<subseteq> set cs"
  using ar_inv_tiles tiles_distinct by (metis ar_inv_def)

text \<open>The state between the steps of \<^verbatim>\<open>free_r\<close>: the chunk \<open>c\<close> is in no list, and no free chunk follows it.\<close>

definition loose :: "chunks \<Rightarrow> heap_arena \<Rightarrow> nat list \<Rightarrow> nat \<Rightarrow> nat list \<Rightarrow> nat list \<Rightarrow> bool" where
  "loose h ar xs c ys fs \<longleftrightarrow> ar_inv h ar (xs @ c # ys) fs \<and> ar_lock ar \<and> c \<notin> set fs \<and> flags_ok h (xs @ c # ys) fs \<and> coalesced h fs \<and>
     c + ck_size (h c) \<notin> set fs"

lemma merge_next:
  assumes "ar_inv h ar (xs @ c # ys) fs" "ar_lock ar" "c \<notin> set fs" "flags_ok h (xs @ c # ys) fs" "coalesced h fs"
  defines "nx \<equiv> c + ck_size (h c)"
  shows "\<exists>h' ar' ys' fs'. (if nx < ar_address ar + ar_length ar \<and> ck_free (h nx) then do {
        (h, ar) \<leftarrow> arena_freelist_rm ar nx h; Some (arena_collapse ar c nx h, ar) } else Some (h, ar)) = Some (h', ar') \<and>
      loose h' ar' xs c ys' fs' \<and> same_arena ar ar' \<and> set (xs @ c # ys') - set fs' = set (xs @ c # ys) - set fs \<and>
      set fs' \<subseteq> set fs \<and> ck_size (h c) \<le> ck_size (h' c) \<and> (\<forall>x. x \<noteq> c \<longrightarrow> ck_size (h' x) = ck_size (h x)) \<and> (\<forall>x. x \<in> set xs \<inter> set fs \<longrightarrow> x \<in> set fs')"
proof (cases "nx < ar_address ar + ar_length ar \<and> ck_free (h nx)")
  case False
  have "nx \<notin> set fs"
  proof
    assume n: "nx \<in> set fs"
    then have m: "nx \<in> set (xs @ c # ys)" using assms(1) by (auto simp: ar_inv_def)
    then show False using n False assms(4) chunk_bounds [OF assms(1) m] by (auto simp: flags_ok_def)
  qed
  then have "loose h ar xs c ys fs" using assms(1-5) by (simp add: loose_def nx_def)
  then show ?thesis using False by (intro exI [of _ h] exI [of _ ar] exI [of _ ys] exI [of _ fs]) (auto simp: same_arena_def)
next
  case True
  obtain zs where ys: "ys = nx # zs" using chunk_next [OF assms(1)] True unfolding nx_def by auto
  have nf: "nx \<in> set fs" using True assms(4) ys by (simp add: flags_ok_def)
  obtain h1 ar1 where rm: "arena_freelist_rm ar nx h = Some (h1, ar1)" "ar_inv h1 ar1 (xs @ c # ys) (remove1 nx fs)" "same_sizes h h1" "same_arena ar ar1"
      "\<And>x. ck_free (h1 x) = (x \<noteq> nx \<and> ck_free (h x))"
    using rm_inv [OF assms(1) nf assms(2)] by blast
  have d: "distinct fs" "distinct (xs @ c # ys)" using ar_inv_distinct [OF assms(1)] by blast+
  have s1: "ck_size (h1 x) = ck_size (h x)" for x using rm(3) by (simp add: same_sizes_def)
  have f1: "set (remove1 nx fs) = set fs - {nx}" using d(1) by simp
  define h' where "h' = arena_collapse ar1 c nx h1"
  have co: "ar_inv h' ar1 (xs @ c # zs) (remove1 nx fs)" "ck_size (h' c) = ck_size (h c) + ck_size (h nx)"
      "\<And>x. x \<noteq> c \<Longrightarrow> ck_size (h' x) = ck_size (h x)" "\<And>x. ck_free (h' x) = ck_free (h1 x)"
    using collapse_inv [of h1 ar1 xs c nx zs "remove1 nx fs"] rm(2) assms(3) f1 s1 unfolding ys h'_def by auto
  have "coalesced h' (remove1 nx fs)" using assms(3,5) co(3) unfolding coalesced_def f1 by fastforce
  moreover have "flags_ok h' (xs @ c # zs) (remove1 nx fs)" using assms(4) d(2) unfolding flags_ok_def f1 co(4) rm(5) ys by auto
  moreover have "c + ck_size (h' c) \<notin> set fs" using assms(5) nf by (auto simp: co(2) coalesced_def nx_def add.assoc)
  ultimately have "loose h' ar1 xs c zs (remove1 nx fs)"
    using co(1) rm(4) assms(2,3) unfolding loose_def f1 by (auto simp: same_arena_def)
  then show ?thesis using True rm(1,4) d(2) nf co(2,3) unfolding ys
    by (intro exI [of _ h'] exI [of _ ar1] exI [of _ zs] exI [of _ "remove1 nx fs"]) (auto simp: h'_def f1)
qed

lemma merge_prev:
  assumes l: "loose h ar xs c ys fs" and pv: "pv = (if xs = [] then c else last xs)"
  shows "\<exists>d h' ar' cs' fs'. (if pv \<noteq> c \<and> ck_free (h pv) then do {
        (h, ar) \<leftarrow> arena_freelist_rm ar pv h; Some (pv, arena_collapse ar pv c h, ar) } else Some (c, h, ar)) = Some (d, h', ar') \<and>
      ar_inv h' ar' cs' fs' \<and> same_arena ar ar' \<and> d \<in> set cs' \<and> d \<notin> set fs' \<and> flags_ok h' cs' fs' \<and> coalesced h' fs' \<and>
      d + ck_size (h' d) \<notin> set fs' \<and> (\<forall>f\<in>set fs'. f + ck_size (h' f) \<noteq> d) \<and>
      set cs' - set fs' - {d} = set (xs @ c # ys) - set fs - {c} \<and> d \<le> c \<and> c + ck_size (h c) \<le> d + ck_size (h' d) \<and>
      (\<forall>x. x \<noteq> d \<longrightarrow> ck_size (h' x) = ck_size (h x)) \<and> (d = c \<or> d \<in> set fs)"
proof -
  have a: "ar_inv h ar (xs @ c # ys) fs" "ar_lock ar" "c \<notin> set fs" "flags_ok h (xs @ c # ys) fs" "coalesced h fs" "c + ck_size (h c) \<notin> set fs"
    using l by (simp_all add: loose_def)
  have d: "distinct fs" "distinct (xs @ c # ys)" "set fs \<subseteq> set (xs @ c # ys)" using ar_inv_distinct [OF a(1)] by blast+
  have before: "f = pv \<and> xs \<noteq> []" if "f \<in> set fs" "f + ck_size (h f) = c" for f
  proof -
    have f: "f \<in> set (xs @ c # ys)" using that(1) d(3) by blast
    have "f < c" using chunk_bounds [OF a(1) f] that(2) by linarith
    then have ne: "xs \<noteq> []" using chunk_prev [OF a(1)] chunk_bounds(2) [OF a(1) f] by (auto split: if_splits)
    have p: "pv \<in> set (xs @ c # ys)" "pv + ck_size (h pv) = c" using ne pv chunk_prev [OF a(1)] by auto
    have "f = pv" using chunks_apart [OF a(1) f p(1)] p(2) that(2) chunk_bounds(4) [OF a(1) f] chunk_bounds(4) [OF a(1) p(1)] by fastforce
    then show ?thesis using ne by simp
  qed
  show ?thesis
  proof (cases "pv \<noteq> c \<and> ck_free (h pv)")
    case False
    have "f + ck_size (h f) \<noteq> c" if "f \<in> set fs" for f
      using before [OF that] that False a(3,4) d(3) by (auto simp: flags_ok_def)
    then show ?thesis using False a by (intro exI [of _ c] exI [of _ h] exI [of _ ar] exI [of _ "xs @ c # ys"] exI [of _ fs]) (auto simp: same_arena_def)
  next
    case True
    then obtain ws where xs: "xs = ws @ [pv]" using pv by (metis append_butlast_last_id)
    have pe: "pv + ck_size (h pv) = c" using chunk_prev [OF a(1)] xs by auto
    have pf: "pv \<in> set fs" using True a(4) xs by (simp add: flags_ok_def)
    obtain h1 ar1 where rm: "arena_freelist_rm ar pv h = Some (h1, ar1)" "ar_inv h1 ar1 (xs @ c # ys) (remove1 pv fs)" "same_sizes h h1" "same_arena ar ar1"
        "\<And>x. ck_free (h1 x) = (x \<noteq> pv \<and> ck_free (h x))"
      using rm_inv [OF a(1) pf a(2)] by blast
    have s1: "ck_size (h1 x) = ck_size (h x)" for x using rm(3) by (simp add: same_sizes_def)
    have f1: "set (remove1 pv fs) = set fs - {pv}" using d(1) by simp
    define h' where "h' = arena_collapse ar1 pv c h1"
    have co: "ar_inv h' ar1 (ws @ pv # ys) (remove1 pv fs)" "ck_size (h' pv) = ck_size (h pv) + ck_size (h c)"
        "\<And>x. x \<noteq> pv \<Longrightarrow> ck_size (h' x) = ck_size (h x)" "\<And>x. ck_free (h' x) = ck_free (h1 x)"
      using collapse_inv [of h1 ar1 ws pv c ys "remove1 pv fs"] rm(2) a(3) f1 s1 unfolding xs h'_def by auto
    have "coalesced h' (remove1 pv fs)" using a(5) co(3) unfolding coalesced_def f1 by fastforce
    moreover have "flags_ok h' (ws @ pv # ys) (remove1 pv fs)" using a(4) d(2) unfolding flags_ok_def f1 co(4) rm(5) xs by auto
    moreover have "pv + ck_size (h' pv) \<notin> set fs" using a(6) by (simp add: co(2) pe [symmetric] add.assoc)
    moreover have "\<forall>f\<in>set fs - {pv}. f + ck_size (h' f) \<noteq> pv" using a(5) pf co(3) by (auto simp: coalesced_def)
    ultimately show ?thesis using True rm(1,4) co d(2) pe pf a(3) unfolding xs
      by (intro exI [of _ pv] exI [of _ h'] exI [of _ ar1] exI [of _ "ws @ pv # ys"] exI [of _ "remove1 pv fs"]) (auto simp: h'_def f1)
  qed
qed

text \<open>The optional check of \<^verbatim>\<open>free_r\<close> passes, except that for the last chunk of the arena it reads the header
  behind the arena.\<close>

definition end_passes :: "chunks \<Rightarrow> heap_arena \<Rightarrow> nat \<Rightarrow> bool" where
  "end_passes h ar c \<longleftrightarrow> (ar_check ar \<longrightarrow> c + ck_size (h c) < ar_address ar + ar_length ar \<or> ck_prsz (h (c + ck_size (h c))) = ck_size (h c))"

lemma check_passes:
  assumes "ar_inv h ar (xs @ c # ys) fs" "end_passes h ar c"
  shows "\<not> (ar_check ar \<and> (arena_prev_chunk h c \<noteq> c \<and> ck_size (h (arena_prev_chunk h c)) \<noteq> ck_prsz (h c) \<or>
      arena_next_chunk h c \<noteq> c \<and> ck_prsz (h (arena_next_chunk h c)) \<noteq> ck_size (h c)))"
    "arena_prev_chunk h c = (if xs = [] then c else last xs)"
proof -
  show pv: "arena_prev_chunk h c = (if xs = [] then c else last xs)"
    using chunk_prev [OF assms(1)] by (auto simp: arena_prev_chunk_def split: if_splits)
  show "\<not> (ar_check ar \<and> (arena_prev_chunk h c \<noteq> c \<and> ck_size (h (arena_prev_chunk h c)) \<noteq> ck_prsz (h c) \<or>
      arena_next_chunk h c \<noteq> c \<and> ck_prsz (h (arena_next_chunk h c)) \<noteq> ck_size (h c)))"
    unfolding pv using chunk_prev [OF assms(1)] chunk_next [OF assms(1)] assms(2)
    by (auto simp: arena_next_chunk_def end_passes_def split: if_splits)
qed

lemma free_r_spec:
  assumes "arena_ok h ar cs fs" "c \<in> set cs - set fs" "end_passes h ar c"
  shows "\<exists>h' ar' cs' fs'. free_r ar (c + 8) h = Some (Some EOK, h', ar') \<and> arena_ok h' ar' cs' fs' \<and>
    set cs' - set fs' = set cs - set fs - {c} \<and> (\<forall>x\<in>set cs - set fs - {c}. ck_size (h' x) = ck_size (h x)) \<and>
    (\<exists>f\<in>set fs'. f \<le> c \<and> c + ck_size (h c) \<le> f + ck_size (h' f))"
proof -
  define al where "al = ar\<lparr>ar_lock := True\<rparr>"
  have ok: "ar_inv h al cs fs" "ar_lock al" "flags_ok h cs fs" "coalesced h fs" "lock_arena ar = Some al" "end_passes h al c"
    using assms(1,3) by (auto simp: arena_ok_def al_def lock_arena_def end_passes_def)
  obtain xs ys where cs: "cs = xs @ c # ys" using assms(2) split_list by (metis DiffD1)
  note chk = check_passes [OF ok(1) [unfolded cs] ok(6)]
  have cb: "ar_address ar \<le> c" "c < ar_address ar + ar_length ar"
    using chunk_bounds [OF ok(1), of c] assms(2) by (auto simp: al_def)
  have nf: "c \<notin> set fs" using assms(2) by simp
  define nx where "nx = c + ck_size (h c)"
  define pv where "pv = arena_prev_chunk h c"
  obtain h1 ar1 ys1 fs1 where m1: "(if nx < ar_address al + ar_length al \<and> ck_free (h nx) then do {
        (h, ar) \<leftarrow> arena_freelist_rm al nx h; Some (arena_collapse ar c nx h, ar) } else Some (h, al)) = Some (h1, ar1)"
      "loose h1 ar1 xs c ys1 fs1" "same_arena al ar1" "set (xs @ c # ys1) - set fs1 = set cs - set fs"
      "ck_size (h c) \<le> ck_size (h1 c)" "\<And>x. x \<noteq> c \<Longrightarrow> ck_size (h1 x) = ck_size (h x)"
    using merge_next [OF ok(1) [unfolded cs] ok(2) nf ok(3) [unfolded cs] ok(4), folded nx_def] unfolding cs by blast
  obtain d h2 ar2 cs2 fs2 where m2: "(if pv \<noteq> c \<and> ck_free (h1 (pv)) then do {
        (h, ar) \<leftarrow> arena_freelist_rm ar1 (pv) h1; Some (pv, arena_collapse ar (pv) c h, ar) }
        else Some (c, h1, ar1)) = Some (d, h2, ar2)"
      "ar_inv h2 ar2 cs2 fs2" "same_arena ar1 ar2" "d \<in> set cs2" "d \<notin> set fs2" "flags_ok h2 cs2 fs2" "coalesced h2 fs2"
      "d + ck_size (h2 d) \<notin> set fs2" "\<forall>f\<in>set fs2. f + ck_size (h2 f) \<noteq> d" "set cs2 - set fs2 - {d} = set (xs @ c # ys1) - set fs1 - {c}"
      "d \<le> c" "c + ck_size (h1 c) \<le> d + ck_size (h2 d)" "\<forall>x. x \<noteq> d \<longrightarrow> ck_size (h2 x) = ck_size (h1 x)" "d = c \<or> d \<in> set fs1"
    using merge_prev [OF m1(2) chk(2) [folded pv_def]] by (elim exE conjE) (rule that; assumption)
  have "ar_lock ar2" using m1(3) m2(3) ok(2) by (simp add: same_arena_def)
  from add_inv [OF m2(2,4,5) this]
  obtain h' ar' fs' where m3: "arena_freelist_add ar2 d h2 = Some (h', ar')" "ar_inv h' ar' cs2 fs'" "set fs' = insert d (set fs2)"
      "same_sizes h2 h'" "same_arena ar2 ar'" "\<And>x. ck_free (h' x) = (x = d \<or> ck_free (h2 x))"
    by blast
  have sz: "ck_size (h' x) = ck_size (h2 x)" for x using m3(4) by (simp add: same_sizes_def)
  have same: "same_arena al ar'" using m1(3) m2(3) m3(5) by (auto simp: same_arena_def)
  have alf: "ar_address al = ar_address ar" "ar_length al = ar_length ar" "ar_check al = ar_check ar" by (simp_all add: al_def)
  have "free_r ar (c + 8) h = Some (Some EOK, h', unlock_arena ar')"
    using cb chk(1) [folded pv_def] ok(5) m1(1) m2(1) m3(1) alf same check_ok [OF ok(1,2)] check_ok [OF m3(2)] ok(2)
    unfolding free_r_def Let_def by (simp add: arena_next_chunk_def nx_def [symmetric] pv_def [symmetric] same_arena_def cong: if_cong)
  moreover have "arena_ok h' (unlock_arena ar') cs2 fs'"
  proof -
    have "coalesced h' fs'" using m2(5,7-9) chunk_bounds(4) [OF m2(2,4)] by (auto simp: coalesced_def m3(3) sz)
    moreover have "flags_ok h' cs2 fs'" using m2(6) by (auto simp: flags_ok_def m3(3,6))
    ultimately show ?thesis using m3(2) same assms(1) by (auto simp: arena_ok_def same_arena_def al_def unlock_arena_def)
  qed
  moreover have "set cs2 - set fs' = set cs - set fs - {c}" using m1(4) m2(10) m3(3) by auto
  moreover have "ck_size (h' x) = ck_size (h x)" if "x \<in> set cs - set fs - {c}" for x
  proof -
    have "x \<noteq> d" using that m1(4) m2(14) by auto
    then show ?thesis using that m1(6) m2(13) sz by auto
  qed
  moreover have "\<exists>f\<in>set fs'. f \<le> c \<and> c + ck_size (h c) \<le> f + ck_size (h' f)" using m1(5) m2(11,12) sz m3(3) by auto
  ultimately show ?thesis by blast
qed

lemma free_r_end:
  assumes "arena_ok h ar cs fs" "c \<in> set cs - set fs" "\<not> end_passes h ar c"
  shows "free_r ar (c + 8) h = Some (None, h, ar\<lparr>ar_corrupted := True\<rparr>)"
proof -
  define al where "al = ar\<lparr>ar_lock := True\<rparr>"
  have ok: "ar_inv h al cs fs" "ar_lock al" "lock_arena ar = Some al" "unlock_arena (al\<lparr>ar_corrupted := True\<rparr>) = ar\<lparr>ar_corrupted := True\<rparr>"
      "ar_check al = ar_check ar"
    using assms(1) by (auto simp: arena_ok_def al_def lock_arena_def unlock_arena_def)
  have c: "ar_address ar \<le> c" "c < ar_address ar + ar_length ar" "0 < ck_size (h c)"
    using chunk_bounds [OF ok(1), of c] assms(2) by (auto simp: al_def)
  then show ?thesis using assms(3) ok check_ok [OF ok(1,2)]
    by (simp add: free_r_def Let_def end_passes_def arena_next_chunk_def)
qed

text \<open>C7: \<^verbatim>\<open>free_r\<close> of a block in use always returns. It keeps the arena well-formed: the block and no other is
  released, the other blocks in use keep their sizes, its bytes are part of a free chunk, and
  free chunks are never left adjacent. There is one exception. With the check of the heap, which the kernel turns on, the
  header behind the arena is read when the block is the last one. If that header does not happen to match, the call
  releases nothing, marks the arena as corrupted and reports it.\<close>

theorem free_r_correct:
  assumes "arena_ok h ar cs fs" "c \<in> set cs - set fs"
  shows "if end_passes h ar c then
      \<exists>h' ar' cs' fs'. free_r ar (c + 8) h = Some (Some EOK, h', ar') \<and> arena_ok h' ar' cs' fs' \<and>
        set cs' - set fs' = set cs - set fs - {c} \<and> (\<forall>x\<in>set cs - set fs - {c}. ck_size (h' x) = ck_size (h x)) \<and>
        (\<exists>f\<in>set fs'. f \<le> c \<and> c + ck_size (h c) \<le> f + ck_size (h' f))
    else free_r ar (c + 8) h = Some (None, h, ar\<lparr>ar_corrupted := True\<rparr>)"
  using free_r_spec [OF assms] free_r_end [OF assms] by simp

text \<open>A new arena is one free chunk.\<close>

lemma setup_arena_ok:
  assumes "0 < address" "HEAP_MIN_CHUNK \<le> len" "len < 2 ^ 31" "address + len < 2 ^ 32" "unat mx + HEAP_MIN_CHUNK < 2 ^ 32"
  shows "\<exists>h' ar. setup_arena address len mx parano chk h = Some (h', ar) \<and> arena_ok h' ar [address] [address] \<and>
    ar_address ar = address \<and> ar_length ar = len \<and> ar_max ar = mx \<and> ar_check ar = chk"
  using assms by (auto simp: setup_arena_def lock_arena_def unlock_arena_def arena_freelist_add_def Let_def arena_ok_def ar_inv_def
      flags_ok_def coalesced_def put_narrow)

lemma free_r_alone:
  assumes "arena_ok h ar cs fs" "c \<in> set cs - set fs" "end_passes h ar c" "c + ck_size (h c) \<notin> set fs" "\<forall>f\<in>set fs. f + ck_size (h f) \<noteq> c"
  shows "\<exists>h' ar'. free_r ar (c + 8) h = Some (Some EOK, h', ar') \<and> arena_ok h' ar' cs (link_in (\<lambda>x. ck_size (h x)) c fs) \<and> same_sizes h h' \<and> same_arena ar ar'"
proof -
  define al where "al = ar\<lparr>ar_lock := True\<rparr>"
  have ok: "ar_inv h al cs fs" "ar_lock al" "flags_ok h cs fs" "coalesced h fs" "lock_arena ar = Some al" "end_passes h al c"
      "ar_address al = ar_address ar" "ar_length al = ar_length ar" "ar_check al = ar_check ar"
    using assms(1,3) by (auto simp: arena_ok_def al_def lock_arena_def end_passes_def)
  obtain xs ys where cs: "cs = xs @ c # ys" using assms(2) split_list by (metis DiffD1)
  note chk = check_passes [OF ok(1) [unfolded cs] ok(6)]
  have cb: "ar_address ar \<le> c" "c < ar_address ar + ar_length ar"
    using chunk_bounds [OF ok(1), of c] assms(2) by (auto simp: al_def)
  define nx where "nx = c + ck_size (h c)"
  define pv where "pv = arena_prev_chunk h c"
  have nx: "\<not> (nx < ar_address ar + ar_length ar \<and> ck_free (h nx))"
    using chunk_next [OF ok(1) [unfolded cs]] ok(3) assms(4) unfolding cs nx_def by (auto simp: flags_ok_def al_def split: if_splits)
  have pv: "\<not> (pv \<noteq> c \<and> ck_free (h pv))"
    using chunk_prev [OF ok(1) [unfolded cs]] ok(3) assms(5) chk(2) unfolding cs pv_def by (auto simp: flags_ok_def split: if_splits)
  obtain h' ar' where m: "arena_freelist_add al c h = Some (h', ar')" "ar_inv h' ar' cs (link_in (\<lambda>x. ck_size (h x)) c fs)"
      "set (link_in (\<lambda>x. ck_size (h x)) c fs) = insert c (set fs)" "same_sizes h h'" "same_arena al ar'" "\<And>x. ck_free (h' x) = (x = c \<or> ck_free (h x))"
    using add_inv [OF ok(1) _ _ ok(2), of c] assms(2) by auto
  have sz: "ck_size (h' x) = ck_size (h x)" for x using m(4) by (simp add: same_sizes_def)
  have "free_r ar (c + 8) h = Some (Some EOK, h', unlock_arena ar')"
    using cb chk(1) [folded pv_def] ok(2,5,7-9) nx pv m(1,5) check_ok [OF ok(1,2)] check_ok [OF m(2)]
    unfolding free_r_def Let_def by (auto simp: arena_next_chunk_def nx_def [symmetric] pv_def [symmetric] same_arena_def)
  moreover have "coalesced h' (link_in (\<lambda>x. ck_size (h x)) c fs)"
    using ok(4) assms(4,5) chunk_bounds(4) [OF ok(1), of c] assms(2) unfolding coalesced_def m(3) sz by auto
  moreover have "flags_ok h' cs (link_in (\<lambda>x. ck_size (h x)) c fs)" using ok(3) unfolding flags_ok_def m(3,6) by auto
  ultimately show ?thesis using m(2,4,5) assms(1) by (auto simp: arena_ok_def same_arena_def al_def unlock_arena_def)
qed

text \<open>The free list is not kept in the order that \<^verbatim>\<open>malloc_r\<close> checks. In an arena with two free chunks,
  releasing a block whose size lies between theirs succeeds and leaves a well-formed arena, but links the chunk behind the
  larger one. The next request that no chunk can serve is then answered as corruption of the heap,
  and the arena is marked, where it is only out of memory.\<close>

theorem free_r_breaks_order:
  assumes "arena_ok h ar cs [a, b]" "ar_check ar" "c \<in> set cs - {a, b}" "end_passes h ar c" "c + ck_size (h c) \<notin> {a, b}"
    "\<forall>f\<in>{a, b}. f + ck_size (h f) \<noteq> c" "ck_size (h a) < ck_size (h c)" "ck_size (h c) < ck_size (h b)"
    "ck_size (h b) < unat (chunk_len len)" "chunk_len len \<le> ar_max ar"
  shows "\<exists>h' ar'. free_r ar (c + 8) h = Some (Some EOK, h', ar') \<and> arena_ok h' ar' cs [a, b, c] \<and>
    malloc_r ar' len h' = Some (0, None, h', ar'\<lparr>ar_corrupted := True\<rparr>)"
proof -
  have "link_in (\<lambda>x. ck_size (h x)) c [a, b] = [a, b, c]" using assms(7,8) by simp
  then obtain h' ar' where f: "free_r ar (c + 8) h = Some (Some EOK, h', ar')" "arena_ok h' ar' cs [a, b, c]" "same_sizes h h'" "same_arena ar ar'"
    using free_r_alone [OF assms(1) _ assms(4)] assms(3,5,6) by auto
  define al where "al = ar'\<lparr>ar_lock := True\<rparr>"
  have ok: "ar_inv h' al cs [a, b, c]" "ar_lock al" "lock_arena ar' = Some al" "ar_check al" "ar_max ar' = ar_max ar" "ar_free al = a"
      "unlock_arena (al\<lparr>ar_corrupted := True\<rparr>) = ar'\<lparr>ar_corrupted := True\<rparr>"
    using f(2,4) assms(2) by (auto simp: arena_ok_def al_def lock_arena_def same_arena_def unlock_arena_def ar_inv_def)
  have l: "a \<noteq> 0" "b \<noteq> 0" "c \<noteq> 0" "ck_prev (h' a) = 0" "ck_next (h' a) = b" "ck_prev (h' b) = a" "ck_next (h' b) = c" "ck_prev (h' c) = b"
    using ok(1) by (auto simp: ar_inv_def)
  have s: "ck_size (h' x) = ck_size (h x)" for x using f(3) by (simp add: same_sizes_def)
  have "browse_free True h' k c b (ck_size (h' b)) = Some Corrupted" for k
    using l s assms(8) by (subst browse_free.simps) simp
  then have "browse_free True h' (unat (chunk_len len)) b a (ck_size (h' a)) = Some Corrupted"
    using l s assms(7-9) by (subst browse_free.simps) simp
  then have "browse_free True h' (unat (chunk_len len)) a 0 0 = Some Corrupted"
    using l s assms(7-9) by (subst browse_free.simps) simp
  then have "malloc_r ar' len h' = Some (0, None, h', ar'\<lparr>ar_corrupted := True\<rparr>)"
    using leD [OF assms(10)] ok(2-7) check_ok [OF ok(1,2)] by (simp add: malloc_r_def)
  then show ?thesis using f(1,2) by blast
qed

subsection \<open>Examples\<close>

text \<open>An arena of 256 bytes with free chunks of 16 and 64 bytes and blocks of 16, 32 and 128 bytes.\<close>

definition sample_chunks :: chunks where
  "sample_chunks = (\<lambda>_. \<lparr>ck_size = 0, ck_prsz = 128, ck_free = False, ck_prev = 0, ck_next = 0\<rparr>)
     (4096 := \<lparr>ck_size = 16, ck_prsz = 0, ck_free = True, ck_prev = 0, ck_next = 4128\<rparr>,
      4112 := \<lparr>ck_size = 16, ck_prsz = 16, ck_free = False, ck_prev = 0, ck_next = 0\<rparr>,
      4128 := \<lparr>ck_size = 64, ck_prsz = 16, ck_free = True, ck_prev = 4096, ck_next = 0\<rparr>,
      4192 := \<lparr>ck_size = 128, ck_prsz = 64, ck_free = False, ck_prev = 0, ck_next = 0\<rparr>,
      4320 := \<lparr>ck_size = 32, ck_prsz = 128, ck_free = False, ck_prev = 0, ck_next = 0\<rparr>,
      4352 := \<lparr>ck_size = 16, ck_prsz = 32, ck_free = False, ck_prev = 0, ck_next = 0\<rparr>)"

definition sample_arena :: heap_arena where
  "sample_arena = \<lparr>ar_address = 4096, ar_length = 272, ar_used = 192, ar_max = 16384, ar_parano = False, ar_check = True,
     ar_corrupted = False, ar_lock = False, ar_free = 4096, ar_mapped = False\<rparr>"

lemma sample_arena_ok: "arena_ok sample_chunks sample_arena [4096, 4112, 4128, 4192, 4320, 4352] [4096, 4128]"
  by (simp add: arena_ok_def ar_inv_def flags_ok_def coalesced_def sample_chunks_def sample_arena_def insert_Diff_if)

lemma sample_lens: "chunk_len 100 = 112" "chunk_len 40 = 48" by code_simp+


theorem free_r_correct_witness:
  "\<exists>h' ar' cs' fs'. free_r sample_arena (4192 + 8) sample_chunks = Some (Some EOK, h', ar') \<and> arena_ok h' ar' cs' fs' \<and>
     set cs' - set fs' = {4112, 4320, 4352} \<and>
     free_r sample_arena (4352 + 8) sample_chunks = Some (None, sample_chunks, sample_arena\<lparr>ar_corrupted := True\<rparr>)"
proof -
  have e: "end_passes sample_chunks sample_arena 4192" and ne: "\<not> end_passes sample_chunks sample_arena 4352"
    by (simp_all add: end_passes_def sample_chunks_def sample_arena_def)
  have "4352 \<in> set [4096, 4112, 4128, 4192, 4320, 4352] - set [4096, 4128 :: nat]" by simp
  from free_r_correct [OF sample_arena_ok this] ne
  have last: "free_r sample_arena (4352 + 8) sample_chunks = Some (None, sample_chunks, sample_arena\<lparr>ar_corrupted := True\<rparr>)" by simp
  have u: "4192 \<in> set [4096, 4112, 4128, 4192, 4320, 4352] - set [4096, 4128 :: nat]" by simp
  from free_r_correct [OF sample_arena_ok u] e
  obtain h' ar' cs' fs' where r: "free_r sample_arena (4192 + 8) sample_chunks = Some (Some EOK, h', ar')" "arena_ok h' ar' cs' fs'"
      "set cs' - set fs' = set [4096, 4112, 4128, 4192, 4320, 4352] - set [4096, 4128] - {4192}"
    by (simp only: if_True) blast
  have "set [4096, 4112, 4128, 4192, 4320, 4352] - set [4096, 4128] - {4192} = {4112, 4320, 4352 :: nat}" by auto
  from r(3) [unfolded this] r(1,2) last show ?thesis by blast
qed

theorem free_r_breaks_order_witness:
  "\<exists>h' ar'. free_r sample_arena (4320 + 8) sample_chunks = Some (Some EOK, h', ar') \<and>
     malloc_r ar' 100 h' = Some (0, None, h', ar'\<lparr>ar_corrupted := True\<rparr>)"
proof -
  have sz: "ck_size (sample_chunks 4320) = 32" "ck_size (sample_chunks 4096) = 16" "ck_size (sample_chunks 4128) = 64" by (simp_all add: sample_chunks_def)
  have "end_passes sample_chunks sample_arena 4320" "ar_check sample_arena" "chunk_len 100 \<le> ar_max sample_arena"
    by (simp_all add: end_passes_def sz sample_arena_def sample_lens)
  from free_r_breaks_order [OF sample_arena_ok this(2) _ this(1), of 100] this(3) show ?thesis by (auto simp: sz sample_lens)
qed

end
