(* ===== verification/Heap.thy ===== *)
theory Heap
  imports Arena
begin

section \<open>The allocator front end (\<^verbatim>\<open>src/stdc/heap.c\<close>, \<^verbatim>\<open>kalloc\<close> and \<^verbatim>\<open>kfree\<close> of \<^verbatim>\<open>src/core/common.c\<close>)\<close>

text \<open>
  The list of arenas, tried one after the other, and the creation of new ones. The structure that describes an arena is
  itself allocated, so the allocator calls itself. The kernel window (\<^verbatim>\<open>kmap\<close>, \<^verbatim>\<open>kunmap\<close>) is a pair of functions
  on a state of their own. The contents of blocks are not part of the model.
\<close>

subsection \<open>Model\<close>

definition arena_size :: u32 where "arena_size = 0x200000"
definition arena_chunk_size_limit :: u32 where "arena_chunk_size_limit = 0x4000"

text \<open>The size of \<^verbatim>\<open>struct heap_arena\<close> on i386.\<close>

definition SIZEOF_ARENA :: u32 where "SIZEOF_ARENA = 36"

text \<open>An arena comes with the address of its structure; that of the first one is static.\<close>

record 's kheap =
  kh_empty :: int
  kh_arenas :: "(nat \<times> heap_arena) list"
  kh_chunks :: chunks
  kh_map :: 's

record 's mapper =
  mp_mmap :: "u32 \<Rightarrow> 's \<Rightarrow> nat \<times> 's"
  mp_unmap :: "nat \<Rightarrow> nat \<Rightarrow> 's \<Rightarrow> 's"

text \<open>What \<^verbatim>\<open>new_arena\<close> does after it has a structure.\<close>

definition map_arena :: "'s mapper \<Rightarrow> nat \<Rightarrow> 's kheap \<Rightarrow> 's kheap option" where
  "map_arena mp node s =
     (let (map, st) = mp_mmap mp arena_size (kh_map s) in
      if map = 0 \<or> map = 0xFFFFFFFF then None
      else do {
        (h, ar) \<leftarrow> setup_arena map (unat arena_size) arena_chunk_size_limit False True (kh_chunks s);
        Some (s\<lparr>kh_arenas := kh_arenas s @ [(node, ar)], kh_chunks := h, kh_map := st\<rparr>) })"

fun find_arena :: "nat \<Rightarrow> (nat \<times> heap_arena) list \<Rightarrow> (nat \<times> heap_arena) option" where
  "find_arena ptr [] = None"
| "find_arena ptr ((node, ar) # ars) =
     (if ar_address ar > ptr \<or> ar_address ar + ar_length ar \<le> ptr then find_arena ptr ars else Some (node, ar))"

text \<open>What \<^verbatim>\<open>valloc\<close> does after it has a structure; the assertion asks for the error value of the mapping.\<close>

definition map_block :: "'s mapper \<Rightarrow> u32 \<Rightarrow> nat \<Rightarrow> 's kheap \<Rightarrow> (nat \<times> 's kheap) option" where
  "map_block mp sz node s =
     (let sz = ALIGN_UP sz PAGE_SIZE; (map, st) = mp_mmap mp sz (kh_map s) in
      if \<not> (map \<noteq> 0 \<and> map = 0xFFFFFFFF) then None
      else Some (map, s\<lparr>kh_map := st,
        kh_arenas := kh_arenas s @ [(node, \<lparr>ar_address = map, ar_length = unat sz, ar_used = 0, ar_max = 0, ar_parano = False, ar_check = False,
          ar_corrupted = False, ar_lock = False, ar_free = NIL_CHUNK, ar_mapped = True\<rparr>)]\<rparr>))"

text \<open>The loop of \<^verbatim>\<open>malloc\<close> over the arenas.\<close>

fun try_arenas :: "u32 \<Rightarrow> (nat \<times> heap_arena) list \<Rightarrow> chunks \<Rightarrow> int \<Rightarrow> (nat \<times> (nat \<times> heap_arena) list \<times> chunks \<times> int) option" where
  "try_arenas sz [] h e = Some (0, [], h, e)"
| "try_arenas sz ((node, ar) # ars) h e =
     (let room = of_nat (ar_length ar) - ar_used ar in
      if room < sz then do { (p, ars, h, e) \<leftarrow> try_arenas sz ars h e; Some (p, (node, ar) # ars, h, e) }
      else
        let e = (if room < 4096 then e - 1 else e) in do {
          (p, _, h, ar) \<leftarrow> malloc_r ar sz h;
          if p \<noteq> 0 then Some (p, (node, ar) # ars, h, e)
          else do { (p, ars, h, e) \<leftarrow> try_arenas sz ars h e; Some (p, (node, ar) # ars, h, e) } })"

definition try_all :: "u32 \<Rightarrow> 's kheap \<Rightarrow> (nat \<times> 's kheap) option" where
  "try_all sz s =
     do { (p, ars, h, e) \<leftarrow> try_arenas sz (kh_arenas s) (kh_chunks s) (kh_empty s);
          Some (p, s\<lparr>kh_arenas := ars, kh_chunks := h, kh_empty := e\<rparr>) }"

definition alloc_in_last :: "u32 \<Rightarrow> 's kheap \<Rightarrow> (nat \<times> 's kheap) option" where
  "alloc_in_last sz s =
     (let (node, ar) = last (kh_arenas s) in do {
        (p, _, h, ar) \<leftarrow> malloc_r ar sz (kh_chunks s);
        Some (p, s\<lparr>kh_arenas := butlast (kh_arenas s) @ [(node, ar)], kh_chunks := h\<rparr>) })"

definition count_empty :: "'s kheap \<Rightarrow> 's kheap" where
  "count_empty s = s\<lparr>kh_empty := kh_empty s + 1\<rparr>"

text \<open>\<^verbatim>\<open>malloc\<close> with \<^verbatim>\<open>valloc\<close> and \<^verbatim>\<open>new_arena\<close>, which call it back for their structure.\<close>

partial_function (option) malloc :: "'s mapper \<Rightarrow> u32 \<Rightarrow> 's kheap \<Rightarrow> (nat \<times> 's kheap) option" where
  "malloc mp sz s =
     (if sz > arena_chunk_size_limit then do {
        (node, s) \<leftarrow> malloc mp SIZEOF_ARENA s;
        map_block mp sz node s }
      else do {
        (ptr, s) \<leftarrow> try_all sz s;
        (ptr, s) \<leftarrow> (if ptr = 0 then do {
                        (node, s) \<leftarrow> malloc mp SIZEOF_ARENA (count_empty s);
                        s \<leftarrow> map_arena mp node s;
                        alloc_in_last sz s }
                      else Some (ptr, s));
        s \<leftarrow> (if kh_empty s = 0 then do {
                 (node, s) \<leftarrow> malloc mp SIZEOF_ARENA (count_empty s);
                 s \<leftarrow> map_arena mp node s;
                 Some (count_empty s) }
               else Some s);
        Some (ptr, s) })"

definition valloc :: "'s mapper \<Rightarrow> u32 \<Rightarrow> 's kheap \<Rightarrow> (nat \<times> 's kheap) option" where
  "valloc mp sz s = do { (node, s) \<leftarrow> malloc mp SIZEOF_ARENA s; map_block mp sz node s }"

definition pvalloc :: "'s mapper \<Rightarrow> u32 \<Rightarrow> 's kheap \<Rightarrow> (nat \<times> 's kheap) option" where
  "pvalloc mp sz s = valloc mp (ALIGN_UP sz PAGE_SIZE) s"

definition calloc :: "'s mapper \<Rightarrow> u32 \<Rightarrow> u32 \<Rightarrow> 's kheap \<Rightarrow> (nat \<times> 's kheap) option" where
  "calloc mp nmemb sz s =
     (let sz = sz * nmemb in if sz > arena_chunk_size_limit then valloc mp sz s else malloc mp sz s)"

definition free :: "'s mapper \<Rightarrow> nat \<Rightarrow> 's kheap \<Rightarrow> 's kheap option" where
  "free mp ptr s =
     (if ptr = 0 then None
      else case find_arena ptr (kh_arenas s) of
        None \<Rightarrow> None
      | Some (node, ar) \<Rightarrow>
          if ar_mapped ar then
            if ptr \<noteq> ar_address ar then None
            else Some (s\<lparr>kh_map := mp_unmap mp (ar_address ar) (ar_length ar) (kh_map s)\<rparr>)
          else do {
            (_, h, ar') \<leftarrow> free_r ar ptr (kh_chunks s);
            Some (s\<lparr>kh_chunks := h, kh_arenas := map (\<lambda>(n, a). if n = node then (n, ar') else (n, a)) (kh_arenas s)\<rparr>) })"

text \<open>The size of the old block is taken as zero, so nothing is copied.\<close>

definition realloc :: "'s mapper \<Rightarrow> nat \<Rightarrow> u32 \<Rightarrow> 's kheap \<Rightarrow> (nat \<times> 's kheap) option" where
  "realloc mp ptr sz s = do { (buf, s) \<leftarrow> malloc mp sz s; s \<leftarrow> free mp ptr s; Some (buf, s) }"

definition setup_allocator :: "nat \<Rightarrow> nat \<Rightarrow> chunks \<Rightarrow> 's \<Rightarrow> 's kheap option" where
  "setup_allocator base len h st =
     do { (h, ar) \<leftarrow> setup_arena base len arena_chunk_size_limit False True h;
          Some \<lparr>kh_empty = 1, kh_arenas = [(0, ar)], kh_chunks = h, kh_map = st\<rparr> }"

text \<open>The arenas in the order of the list; the next one is read before the current one is removed.\<close>

fun sweep_nodes :: "'s mapper \<Rightarrow> nat list \<Rightarrow> 's kheap \<Rightarrow> 's kheap option" where
  "sweep_nodes mp [] s = Some s"
| "sweep_nodes mp (node # nodes) s =
     (case map_of (kh_arenas s) node of
        None \<Rightarrow> None
      | Some ar \<Rightarrow>
          if ar_used ar = 0 \<and> node \<noteq> 0 then do {
            s \<leftarrow> free mp node (s\<lparr>kh_map := mp_unmap mp (ar_address ar) (ar_length ar) (kh_map s)\<rparr>);
            sweep_nodes mp nodes (s\<lparr>kh_arenas := filter (\<lambda>(n, _). n \<noteq> node) (kh_arenas s)\<rparr>) }
          else sweep_nodes mp nodes s)"

definition sweep_allocator :: "'s mapper \<Rightarrow> 's kheap \<Rightarrow> 's kheap option" where
  "sweep_allocator mp s = sweep_nodes mp (map fst (kh_arenas s)) s"

definition kalloc :: "'s mapper \<Rightarrow> u32 \<Rightarrow> 's kheap \<Rightarrow> (nat \<times> 's kheap) option" where
  "kalloc mp sz s = (if \<not> sz \<le> PAGE_SIZE then None else malloc mp sz s)"

definition kfree :: "'s mapper \<Rightarrow> nat \<Rightarrow> 's kheap \<Rightarrow> 's kheap option" where
  "kfree mp ptr s = (if ptr = 0 then None else free mp ptr s)"

subsection \<open>The bytes that are left\<close>

lemma tiles_total: "tiles h a p l q cs \<Longrightarrow> a + (\<Sum>c\<in>set cs. ck_size (h c)) = l"
proof (induction cs arbitrary: a p)
  case (Cons c cs)
  have "distinct (c # cs)" using tiles_distinct [OF Cons.prems] .
  then show ?case using Cons.IH [of "c + ck_size (h c)" "ck_size (h c)"] Cons.prems by auto
qed simp

text \<open>The number that the allocator takes for the free bytes of an arena is right.\<close>

definition room_of :: "heap_arena \<Rightarrow> u32" where
  "room_of ar = of_nat (ar_length ar) - ar_used ar"

lemma room_of_ok:
  assumes "arena_ok h ar cs fs" "ar_length ar < 2 ^ 32"
  shows "(\<Sum>c\<in>set cs - set fs. ck_size (h c)) \<le> ar_length ar" "unat (room_of ar) = ar_length ar - (\<Sum>c\<in>set cs - set fs. ck_size (h c))"
proof -
  define u where "u = (\<Sum>c\<in>set cs - set fs. ck_size (h c))"
  obtain q where t: "tiles h (ar_address ar) 0 (ar_address ar + ar_length ar) q cs" and used: "ar_used ar = of_nat u"
    using assms(1) by (auto simp: arena_ok_def ar_inv_def u_def)
  have "u \<le> (\<Sum>c\<in>set cs. ck_size (h c))" unfolding u_def by (rule sum_mono2) auto
  then show le: "u \<le> ar_length ar" using tiles_total [OF t] by simp
  have "room_of ar = of_nat (ar_length ar - u)" using le by (simp add: room_of_def used of_nat_diff)
  then show "unat (room_of ar) = ar_length ar - u" using assms(2) by (simp add: unat_of_nat take_bit_nat_eq_self)
qed

text \<open>An allocation never adds to the free bytes.\<close>

lemma malloc_r_room:
  assumes "arena_ok h ar cs fs" "len \<le> 0xFFFFFFF0" "ar_length ar < 2 ^ 32"
  shows "\<exists>p e h' ar' cs' fs'. malloc_r ar len h = Some (p, e, h', ar') \<and> arena_ok h' ar' cs' fs' \<and> ar_length ar' = ar_length ar \<and> room_of ar' \<le> room_of ar"
proof -
  obtain p e h' ar' cs' fs' where m: "malloc_r ar len h = Some (p, e, h', ar')" "arena_ok h' ar' cs' fs'" "ar_length ar' = ar_length ar"
      "if p \<noteq> 0 then set cs' - set fs' = insert (p - 8) (set cs - set fs) \<and> (\<forall>x\<in>set cs - set fs. ck_size (h' x) = ck_size (h x))
       else h' = h \<and> cs' = cs \<and> fs' = fs"
    using malloc_r_spec [OF assms(1,2)] by (elim exE conjE) (rule that, assumption, assumption, assumption, meson)
  have "(\<Sum>c\<in>set cs - set fs. ck_size (h c)) \<le> (\<Sum>c\<in>set cs' - set fs'. ck_size (h' c))"
  proof (cases "p = 0")
    case False
    then have "set cs' - set fs' = insert (p - 8) (set cs - set fs)" "\<forall>x\<in>set cs - set fs. ck_size (h' x) = ck_size (h x)" using m(4) by auto
    then have "(\<Sum>c\<in>set cs - set fs. ck_size (h c)) = (\<Sum>c\<in>set cs - set fs. ck_size (h' c))" "set cs - set fs \<subseteq> set cs' - set fs'" by auto
    then show ?thesis using sum_mono2 [of "set cs' - set fs'" "set cs - set fs" "\<lambda>c. ck_size (h' c)"] by simp
  qed (use m(4) in simp)
  then have "unat (room_of ar') \<le> unat (room_of ar)"
    using room_of_ok [OF assms(1,3)] room_of_ok [OF m(2)] m(3) assms(3) by simp
  then show ?thesis using m(1-3) by (auto simp: word_le_nat_alt)
qed

subsection \<open>The allocator that calls itself\<close>

definition low_on_memory :: "u32 \<Rightarrow> 's kheap \<Rightarrow> bool" where
  "low_on_memory sz s \<longleftrightarrow> (\<exists>node ar cs fs. kh_arenas s = [(node, ar)] \<and> arena_ok (kh_chunks s) ar cs fs \<and> ar_length ar < 2 ^ 32 \<and>
     room_of ar < 4096 \<and> sz \<le> arena_chunk_size_limit \<and>
     (kh_empty s = 1 \<and> (sz \<le> room_of ar \<or> sz = SIZEOF_ARENA) \<or> sz = SIZEOF_ARENA \<and> room_of ar < SIZEOF_ARENA))"

text \<open>One pass over the arena leads back to the same situation.\<close>

lemma low_try_all:
  assumes "low_on_memory sz s"
  shows "\<exists>p s'. try_all sz s = Some (p, s') \<and> (p = 0 \<or> kh_empty s' = 0) \<and> low_on_memory SIZEOF_ARENA (count_empty s')"
proof -
  obtain node ar cs fs where a: "kh_arenas s = [(node, ar)]" "arena_ok (kh_chunks s) ar cs fs" "ar_length ar < 2 ^ 32" "room_of ar < 4096"
      "sz \<le> arena_chunk_size_limit" "kh_empty s = 1 \<and> (sz \<le> room_of ar \<or> sz = SIZEOF_ARENA) \<or> sz = SIZEOF_ARENA \<and> room_of ar < SIZEOF_ARENA"
    using assms unfolding low_on_memory_def by blast
  have lim: "SIZEOF_ARENA \<le> arena_chunk_size_limit" by (simp add: SIZEOF_ARENA_def arena_chunk_size_limit_def)
  show ?thesis
  proof (cases "room_of ar < sz")
    case True
    then have "try_all sz s = Some (0, s)" using a(1) by (simp add: try_all_def room_of_def Let_def)
    moreover have "low_on_memory SIZEOF_ARENA (count_empty s)"
      using a(1-4) lim a(6) True leD by (fastforce simp: low_on_memory_def count_empty_def)
    ultimately show ?thesis by auto
  next
    case False
    then have e: "kh_empty s = 1" using a(6) by auto
    have "sz \<le> 0xFFFFFFF0" using a(5) order_trans [of sz arena_chunk_size_limit] by (simp add: arena_chunk_size_limit_def)
    from malloc_r_room [OF a(2) this a(3)]
    obtain p er h' ar' cs' fs' where m: "malloc_r ar sz (kh_chunks s) = Some (p, er, h', ar')" "arena_ok h' ar' cs' fs'" "ar_length ar' = ar_length ar"
        "room_of ar' \<le> room_of ar" by blast
    define s' where "s' = s\<lparr>kh_arenas := [(node, ar')], kh_chunks := h', kh_empty := 0\<rparr>"
    have "try_all sz s = Some (p, s')" using False a(1,4) m(1) e by (simp add: try_all_def room_of_def Let_def s'_def)
    moreover have "low_on_memory SIZEOF_ARENA (count_empty s')"
      using m(2-4) a(3,4) lim by (fastforce simp: low_on_memory_def count_empty_def s'_def)
    ultimately show ?thesis by (auto simp: s'_def)
  qed
qed

lemma low_diverges: "malloc mp sz s = Some r \<Longrightarrow> \<not> low_on_memory sz s"
proof (induction rule: malloc.raw_induct [rotated, consumes 1, case_names step])
  case (step malloc mp sz s r)
  show ?case
  proof
    assume l: "low_on_memory sz s"
    obtain p s' where t: "try_all sz s = Some (p, s')" "p = 0 \<or> kh_empty s' = 0" "low_on_memory SIZEOF_ARENA (count_empty s')"
      using low_try_all [OF l] by blast
    have "\<not> sz > arena_chunk_size_limit" using l by (auto simp: low_on_memory_def)
    then have "\<exists>y. malloc mp SIZEOF_ARENA (count_empty s') = Some y"
      using step(2) t(1,2) by (auto simp: bind_eq_Some_conv split: if_splits)
    then show False using step(1) t(3) by blast
  qed
qed

text \<open>C21: The allocator does not survive its first arena getting low. The conditions are that there is a single arena, that less than
  a page of it is free, that the count of empty arenas is one, as \<^verbatim>\<open>setup_allocator\<close> leaves it, and that the request is not larger than the
  free bytes. The request then lowers the count to zero, so a new arena is created; its structure is requested from the
  same allocator, which finds the same situation again. The call never returns, whatever the mapping would have answered.\<close>

theorem malloc_recurses_forever:
  assumes "kh_arenas s = [(node, ar)]" "arena_ok (kh_chunks s) ar cs fs" "kh_empty s = 1"
    "room_of ar < 4096" "sz \<le> room_of ar"
  shows "malloc mp sz s = None"
proof (rule ccontr)
  assume "malloc mp sz s \<noteq> None"
  moreover have "sz \<le> arena_chunk_size_limit" using assms(4,5) by (simp add: arena_chunk_size_limit_def word_less_nat_alt word_le_nat_alt)
  moreover have "ar_length ar < 2 ^ 32" using assms(2) by (simp add: arena_ok_def ar_inv_def)
  ultimately show False using low_diverges [of mp sz s] assms unfolding low_on_memory_def by blast
qed

definition sample_heap :: "unit kheap" where
  "sample_heap = \<lparr>kh_empty = 1, kh_arenas = [(0, sample_arena)], kh_chunks = sample_chunks, kh_map = ()\<rparr>"

definition sample_mapper :: "unit mapper" where
  "sample_mapper = \<lparr>mp_mmap = (\<lambda>_ _. (0x800000, ())), mp_unmap = (\<lambda>_ _ _. ())\<rparr>"

theorem malloc_recurses_forever_witness: "room_of sample_arena = 80 \<and> malloc sample_mapper 40 sample_heap = None"
proof -
  have r: "room_of sample_arena = 80" by (simp add: room_of_def sample_arena_def)
  have "malloc sample_mapper 40 sample_heap = None"
    by (rule malloc_recurses_forever [where node = 0 and ar = sample_arena])
      (use sample_arena_ok r in \<open>auto simp: sample_heap_def\<close>)
  then show ?thesis using r by simp
qed

text \<open>A request above the limit of a chunk fails on an assertion that expects the mapping to have failed,
  so no block above 16 KiB can be allocated.\<close>

theorem malloc_large_fails:
  assumes "sz > arena_chunk_size_limit" "\<And>n st. fst (mp_mmap mp n st) \<noteq> 0xFFFFFFFF"
  shows "malloc mp sz s = None"
proof -
  have "map_block mp sz node s = None" for node s
    using assms(2) [of "ALIGN_UP sz PAGE_SIZE" "kh_map s"] by (auto simp: map_block_def Let_def split: prod.splits)
  then show ?thesis using assms(1) by (subst malloc.simps) (auto split: bind_split)
qed

end
