(* ===== verification/Pipe.thy ===== *)
theory Pipe
  imports Strings Sync
begin

section \<open>Pipes (\<^verbatim>\<open>src/vfs/pipe.c\<close>)\<close>

text \<open>
  A ring buffer in kernel memory with a read and a write pen. The buffer is mapped with \<^verbatim>\<open>kmap\<close> and grows by being
  mapped again at twice the size. The kernel window is a pair of functions on a state of its own; the
  contents of a new mapping are part of its answer. A call runs undisturbed up to its first wait, and a
  wait is an outcome that carries what the call still has to do.
\<close>

subsection \<open>Model\<close>

record pipe =
  pi_base :: nat
  pi_rpen :: nat
  pi_wpen :: nat
  pi_end :: nat
  pi_size :: u32
  pi_max :: u32
  pi_avail :: u32
  pi_hangup :: bool
  pi_mutex :: int
  pi_rd_cond :: cnd
  pi_wr_cond :: cnd
  pi_readers :: int
  pi_writers :: int

record 's window =
  win_map :: "u32 \<Rightarrow> 's \<Rightarrow> nat \<times> bytes \<times> 's"
  win_unmap :: "nat \<Rightarrow> u32 \<Rightarrow> 's \<Rightarrow> 's"

text \<open>The memory and the state of the window.\<close>

type_synonym 's kmem = "bytes \<times> 's"

definition kmap_pipe :: "'s window \<Rightarrow> u32 \<Rightarrow> 's kmem \<Rightarrow> nat \<times> 's kmem" where
  "kmap_pipe w len k =
     (case win_map w len (snd k) of (a, fresh, st) \<Rightarrow> (a, (\<lambda>x. if a \<le> x \<and> x < a + unat len then fresh x else fst k x), st))"

definition kunmap_pipe :: "'s window \<Rightarrow> nat \<Rightarrow> u32 \<Rightarrow> 's kmem \<Rightarrow> 's kmem" where
  "kunmap_pipe w a len k = (fst k, win_unmap w a len (snd k))"

definition kcopy :: "nat \<Rightarrow> nat \<Rightarrow> u32 \<Rightarrow> 's kmem \<Rightarrow> 's kmem" where
  "kcopy dest src len k = (memcpy (fst k) dest src len, snd k)"

text \<open>The difference of two pointers as a \<^verbatim>\<open>size_t\<close>.\<close>

definition ptr_diff :: "nat \<Rightarrow> nat \<Rightarrow> u32" where
  "ptr_diff a b = word_of_int (int a - int b)"

definition move_buffer :: "'s window \<Rightarrow> nat \<Rightarrow> u32 \<Rightarrow> pipe \<Rightarrow> 's kmem \<Rightarrow> int \<times> pipe \<times> 's kmem" where
  "move_buffer w remap sz p k =
     (let k = kunmap_pipe w (pi_base p) (pi_size p) k
      in (0, p\<lparr>pi_base := remap, pi_size := sz, pi_end := remap + unat sz\<rparr>, k))"

definition rebase_pens :: "nat \<Rightarrow> pipe \<Rightarrow> pipe" where
  "rebase_pens remap p = p\<lparr>pi_rpen := remap + (pi_rpen p - pi_base p), pi_wpen := remap + (pi_wpen p - pi_base p)\<rparr>"

definition pipe_resize_unlock' :: "'s window \<Rightarrow> u32 \<Rightarrow> pipe \<Rightarrow> 's kmem \<Rightarrow> int \<times> pipe \<times> 's kmem" where
  "pipe_resize_unlock' w sz p k =
     (if sz < pi_avail p \<or> sz > pi_max p then (- 1, p, k)
      else
        let (remap, k) = kmap_pipe w sz k in
        if sz > pi_size p then
          let k = kcopy remap (pi_base p) (pi_size p) k in
          if pi_rpen p < pi_wpen p then move_buffer w remap sz (rebase_pens remap p) k
          else if ptr_diff (pi_wpen p) (pi_base p) < sz - pi_size p then
            let k = kcopy (remap + unat (pi_size p)) (pi_base p) (ptr_diff (pi_wpen p) (pi_base p)) k;
                p = p\<lparr>pi_wpen := pi_wpen p + unat (pi_size p)\<rparr>
            in move_buffer w remap sz (rebase_pens remap p) k
          else
            let k = kcopy (remap + unat (pi_size p)) (pi_base p) (sz - pi_size p) k;
                k = kcopy remap (pi_base p + unat (sz - pi_size p)) (ptr_diff (pi_wpen p) (pi_base p) - (sz - pi_size p)) k
            in (- 1, p\<lparr>pi_wpen := 0\<rparr>, k)
        else if sz > pi_avail p then
          let k = kcopy remap (pi_rpen p) (pi_avail p) k
          in move_buffer w remap sz (p\<lparr>pi_rpen := remap, pi_wpen := remap + unat (pi_avail p)\<rparr>) k
        else (- 1, p, k))"

text \<open>The erased bytes are added to the available ones, and the pen stays at the end. The loop ends
  because the pen cannot pass the end.\<close>

partial_function (option) pipe_erase_unlock' :: "u32 \<Rightarrow> pipe \<Rightarrow> int \<Rightarrow> (int \<times> pipe) option" where
  "pipe_erase_unlock' len p bytes =
     (if len > 0 then
        let cap = MIN3 len (ptr_diff (pi_end p) (pi_rpen p)) (pi_avail p) in
        if cap = 0 then Some (bytes, p)
        else
          let p = p\<lparr>pi_rpen := pi_rpen p + unat cap, pi_avail := pi_avail p + cap\<rparr>;
              p = (if pi_rpen p = pi_end p then p\<lparr>pi_rpen := pi_end p\<rparr> else p)
          in pipe_erase_unlock' (len - cap) p (bytes + uint cap)
      else Some (bytes, p))"

definition enter :: "pipe \<Rightarrow> pipe" where
  "enter p = p\<lparr>pi_mutex := snd (mtx_lock alone (pi_mutex p))\<rparr>"

definition leave :: "pipe \<Rightarrow> pipe" where
  "leave p = p\<lparr>pi_mutex := snd (mtx_unlock alone (pi_mutex p))\<rparr>"

definition pipe_resize :: "'s window \<Rightarrow> u32 \<Rightarrow> pipe \<Rightarrow> 's kmem \<Rightarrow> int \<times> pipe \<times> 's kmem" where
  "pipe_resize w sz p k = (let (ret, p, k) = pipe_resize_unlock' w sz (enter p) k in (ret, leave p, k))"

definition pipe_erase :: "u32 \<Rightarrow> pipe \<Rightarrow> (int \<times> pipe) option" where
  "pipe_erase len p = do { (ret, p) \<leftarrow> pipe_erase_unlock' len (enter p) 0; Some (ret, leave p) }"

definition wake_readers :: "pipe \<Rightarrow> pipe" where
  "wake_readers p = p\<lparr>pi_rd_cond := fst (cnd_broadcast (pi_rd_cond p))\<rparr>"

definition wake_writers :: "pipe \<Rightarrow> pipe" where
  "wake_writers p = p\<lparr>pi_wr_cond := fst (cnd_broadcast (pi_wr_cond p))\<rparr>"

definition pipe_hangup :: "pipe \<Rightarrow> pipe" where
  "pipe_hangup p = wake_readers (p\<lparr>pi_hangup := True\<rparr>)"

text \<open>\<^verbatim>\<open>cnd_wait\<close> on one of the conditions, with the mutex of the pipe.\<close>

definition wait_write :: "pipe \<Rightarrow> pipe" where
  "wait_write p = (let (_, c, v) = cnd_wait alone (pi_wr_cond p) 0 (pi_mutex p) in p\<lparr>pi_wr_cond := c, pi_mutex := v\<rparr>)"

definition wait_read :: "pipe \<Rightarrow> pipe" where
  "wait_read p = (let (_, c, v) = cnd_wait alone (pi_rd_cond p) 0 (pi_mutex p) in p\<lparr>pi_rd_cond := c, pi_mutex := v\<rparr>)"

definition IO_NOBLOCK :: u32 where "IO_NOBLOCK = 4"
definition IO_ATOMIC :: u32 where "IO_ATOMIC = 8"

text \<open>The value that is returned, or a wait for room for the whole of a write, or one in the middle of it.\<close>

datatype wr_out = Wrote "errno + int" | WaitRoom "u8 list" | WaitWrite "u8 list" int

definition grown :: "pipe \<Rightarrow> u32" where
  "grown p = min (pi_size p * 2) (pi_max p)"

partial_function (option) make_room :: "'s window \<Rightarrow> u32 \<Rightarrow> pipe \<Rightarrow> 's kmem \<Rightarrow> (pipe \<times> 's kmem) option" where
  "make_room w len p k =
     (if len > pi_size p - pi_avail p \<and> pi_size p * 2 \<le> pi_max p then
        let (_, p, k) = pipe_resize_unlock' w (grown p) p k in make_room w len p k
      else Some (p, k))"

partial_function (option) write_loop :: "'s window \<Rightarrow> u32 \<Rightarrow> u8 list \<Rightarrow> int \<Rightarrow> pipe \<Rightarrow> 's kmem \<Rightarrow> (wr_out \<times> pipe \<times> 's kmem) option" where
  "write_loop w flags buf bytes p k =
     (let len = of_nat (length buf) :: u32 in
      if len > 0 then
        let cap = MIN3 len (ptr_diff (pi_end p) (pi_wpen p)) (pi_size p - pi_avail p) in
        if cap = 0 then
          if pi_size p < pi_max p then
            let (_, p, k) = pipe_resize_unlock' w (grown p) p k in write_loop w flags buf bytes p k
          else
            let p = wake_readers p in
            if flags AND IO_NOBLOCK \<noteq> 0 then Some (Wrote (Inr bytes), leave (wake_readers p), k)
            else Some (WaitWrite buf bytes, wait_write p, k)
        else
          let k = (put_bytes (fst k) (pi_wpen p) (take (unat cap) buf), snd k);
              p = p\<lparr>pi_wpen := pi_wpen p + unat cap, pi_avail := pi_avail p + cap\<rparr>;
              p = (if pi_wpen p = pi_end p then p\<lparr>pi_wpen := pi_base p\<rparr> else p)
          in write_loop w flags (drop (unat cap) buf) (bytes + uint cap) p k
      else Some (Wrote (Inr bytes), leave (wake_readers p), k))"

definition pipe_write :: "'s window \<Rightarrow> u32 \<Rightarrow> u8 list \<Rightarrow> pipe \<Rightarrow> 's kmem \<Rightarrow> (wr_out \<times> pipe \<times> 's kmem) option" where
  "pipe_write w flags buf p k =
     (let len = of_nat (length buf) in
      if pi_hangup p then Some (Wrote (Inl EPIPE), p, k)
      else
        let p = enter p in
        if flags AND IO_NOBLOCK \<noteq> 0 \<and> len > pi_size p - pi_avail p then do {
          (p, k) \<leftarrow> make_room w len p k;
          if len > pi_size p - pi_avail p then Some (Wrote (Inl EWOULDBLOCK), leave p, k)
          else write_loop w flags buf 0 p k }
        else if flags AND IO_ATOMIC \<noteq> 0 then
          if len > pi_max p then Some (Wrote (Inl E2BIG), p, k)
          else do {
            (p, k) \<leftarrow> make_room w len p k;
            if len > pi_size p - pi_avail p then Some (WaitRoom buf, wait_write p, k)
            else write_loop w flags buf 0 p k }
        else write_loop w flags buf 0 p k)"

datatype rd_out = Got "errno + u8 list" | WaitFill u32 | WaitRead u32

partial_function (option) read_loop :: "u32 \<Rightarrow> u32 \<Rightarrow> u8 list \<Rightarrow> pipe \<Rightarrow> bytes \<Rightarrow> (rd_out \<times> pipe) option" where
  "read_loop flags len got p m =
     (if len > 0 then
        let cap = MIN3 len (ptr_diff (pi_end p) (pi_rpen p)) (pi_avail p) in
        if cap = 0 then
          if got \<noteq> [] \<or> pi_hangup p \<and> pi_avail p = 0 \<or> flags AND IO_NOBLOCK \<noteq> 0 then Some (Got (Inr got), leave (wake_writers p))
          else Some (WaitRead len, wait_read (wake_writers p))
        else
          let got = got @ get_bytes m (pi_rpen p) (unat cap);
              p = p\<lparr>pi_rpen := pi_rpen p + unat cap, pi_avail := pi_avail p - cap\<rparr>;
              p = (if pi_rpen p = pi_end p then p\<lparr>pi_rpen := pi_base p\<rparr> else p)
          in read_loop flags (len - cap) got p m
      else Some (Got (Inr got), leave (wake_writers p)))"

definition pipe_read :: "u32 \<Rightarrow> u32 \<Rightarrow> pipe \<Rightarrow> bytes \<Rightarrow> (rd_out \<times> pipe) option" where
  "pipe_read flags len p m =
     (let p = enter p in
      if flags AND IO_NOBLOCK \<noteq> 0 \<and> len > pi_avail p then Some (Got (Inl EWOULDBLOCK), leave p)
      else if flags AND IO_ATOMIC \<noteq> 0 then
        if len > pi_max p then Some (Got (Inl E2BIG), p)
        else if len > pi_avail p then Some (WaitFill len, wait_read p)
        else read_loop flags len [] p m
      else read_loop flags len [] p m)"

definition pipe_usage :: "bool \<Rightarrow> bool \<Rightarrow> int \<Rightarrow> pipe \<Rightarrow> pipe" where
  "pipe_usage rd wr use p =
     (if use > 0 then
        let p = (if rd then p\<lparr>pi_readers := pi_readers p + 1\<rparr> else p)
        in if wr then p\<lparr>pi_writers := pi_writers p + 1\<rparr> else p
      else
        let p = (if rd then p\<lparr>pi_readers := pi_readers p - 1\<rparr> else p)
        in if wr then
             let last = (pi_writers p = 1); p = p\<lparr>pi_writers := pi_writers p - 1\<rparr>
             in if last then pipe_hangup p else p
           else p)"

definition pipe_destroy :: "'s window \<Rightarrow> pipe \<Rightarrow> 's kmem \<Rightarrow> 's kmem" where
  "pipe_destroy w p k = kunmap_pipe w (pi_base p) (pi_size p) k"

definition pipe_create :: "'s window \<Rightarrow> 's kmem \<Rightarrow> pipe \<times> 's kmem" where
  "pipe_create w k =
     (let (base, k) = kmap_pipe w PAGE_SIZE k
      in (\<lparr>pi_base = base, pi_rpen = base, pi_wpen = base, pi_end = base + 4096, pi_size = PAGE_SIZE, pi_max = 64 * PAGE_SIZE, pi_avail = 0,
           pi_hangup = False, pi_mutex = mtx_init, pi_rd_cond = cnd_init, pi_wr_cond = cnd_init, pi_readers = 0, pi_writers = 0\<rparr>, k))"

text \<open>A character device without a function of its own uses those of the pipe.\<close>

definition chr_write ::
    "('s window \<Rightarrow> u32 \<Rightarrow> u8 list \<Rightarrow> pipe \<Rightarrow> 's kmem \<Rightarrow> (wr_out \<times> pipe \<times> 's kmem) option) option \<Rightarrow>
     's window \<Rightarrow> u32 \<Rightarrow> u8 list \<Rightarrow> pipe \<Rightarrow> 's kmem \<Rightarrow> (wr_out \<times> pipe \<times> 's kmem) option" where
  "chr_write ops w flags buf p k = (case ops of Some write \<Rightarrow> write w flags buf p k | None \<Rightarrow> pipe_write w flags buf p k)"

definition chr_read ::
    "(u32 \<Rightarrow> u32 \<Rightarrow> pipe \<Rightarrow> bytes \<Rightarrow> (rd_out \<times> pipe) option) option \<Rightarrow> u32 \<Rightarrow> u32 \<Rightarrow> pipe \<Rightarrow> bytes \<Rightarrow> (rd_out \<times> pipe) option" where
  "chr_read ops flags len p m = (case ops of Some read \<Rightarrow> read flags len p m | None \<Rightarrow> pipe_read flags len p m)"

subsection \<open>The ring\<close>

definition pipe_inv :: "pipe \<Rightarrow> bool" where
  "pipe_inv p \<longleftrightarrow> 0 < pi_size p \<and> pi_base p + unat (pi_size p) < 2 ^ 32 \<and> pi_base p \<le> pi_rpen p \<and> pi_rpen p < pi_base p + unat (pi_size p) \<and>
     pi_end p = pi_base p + unat (pi_size p) \<and> pi_avail p \<le> pi_size p \<and>
     pi_wpen p = pi_base p + (pi_rpen p - pi_base p + unat (pi_avail p)) mod unat (pi_size p)"

text \<open>The bytes in the pipe, in the order in which they will be read.\<close>

definition contents :: "pipe \<Rightarrow> bytes \<Rightarrow> u8 list" where
  "contents p m = map (\<lambda>i. m (pi_base p + (pi_rpen p - pi_base p + i) mod unat (pi_size p))) [0..<unat (pi_avail p)]"

lemma length_contents [simp]: "length (contents p m) = unat (pi_avail p)"
  by (simp add: contents_def)

lemma upt_split: "[0..<a + c] = [0..<a] @ map (\<lambda>j. a + j) [0..<c]"
  by (induction c) auto

lemma mod_apart: "x < y \<Longrightarrow> y - x < s \<Longrightarrow> x mod s \<noteq> y mod (s :: nat)"
  using mod_eq_dvd_iff_nat [of x y s] by (metis dvd_imp_le leD less_imp_le_nat zero_less_diff)

lemma ptr_diff_eq: "b \<le> a \<Longrightarrow> a < 2 ^ 32 \<Longrightarrow> unat (ptr_diff a b) = a - b"
proof -
  assume a: "b \<le> a" "a < 2 ^ 32"
  then have e: "ptr_diff a b = of_nat (a - b)" by (simp add: ptr_diff_def of_nat_diff)
  show ?thesis unfolding e unat_of_nat using a by (simp add: take_bit_nat_eq_self)
qed

lemma pipe_invD:
  assumes "pipe_inv p"
  shows "0 < unat (pi_size p)" "unat (pi_avail p) \<le> unat (pi_size p)" "pi_wpen p < pi_end p" "pi_base p \<le> pi_wpen p"
    "unat (ptr_diff (pi_end p) (pi_wpen p)) = pi_end p - pi_wpen p" "unat (ptr_diff (pi_end p) (pi_rpen p)) = pi_end p - pi_rpen p"
    "unat (pi_size p - pi_avail p) = unat (pi_size p) - unat (pi_avail p)"
proof -
  show s: "0 < unat (pi_size p)" using assms by (simp add: pipe_inv_def word_less_nat_alt)
  show "unat (pi_avail p) \<le> unat (pi_size p)" using assms by (simp add: pipe_inv_def word_le_nat_alt)
  show w: "pi_wpen p < pi_end p" "pi_base p \<le> pi_wpen p" using assms s by (simp_all add: pipe_inv_def)
  show "unat (ptr_diff (pi_end p) (pi_wpen p)) = pi_end p - pi_wpen p" "unat (ptr_diff (pi_end p) (pi_rpen p)) = pi_end p - pi_rpen p"
    using ptr_diff_eq [of "pi_wpen p" "pi_end p"] ptr_diff_eq [of "pi_rpen p" "pi_end p"] assms less_imp_le [OF w(1)]
    by (simp_all add: pipe_inv_def)
  show "unat (pi_size p - pi_avail p) = unat (pi_size p) - unat (pi_avail p)" using assms by (simp add: pipe_inv_def unat_sub)
qed

lemma unat_add_le: "unat (a :: u32) + n \<le> unat (b :: u32) \<Longrightarrow> n = unat c \<Longrightarrow> unat (a + c) = unat a + unat c"
  using le_less_trans [OF _ unat_u32 [of b]] by (subst unat_add_lem [THEN iffD1]) auto

definition put_chunk :: "u8 list \<Rightarrow> u32 \<Rightarrow> pipe \<Rightarrow> pipe" where
  "put_chunk buf cap p = (let p = p\<lparr>pi_wpen := pi_wpen p + unat cap, pi_avail := pi_avail p + cap\<rparr>
      in if pi_wpen p = pi_end p then p\<lparr>pi_wpen := pi_base p\<rparr> else p)"

lemma put_chunk_appends:
  fixes m :: bytes
  assumes "pipe_inv p" "unat cap \<le> length buf" "unat cap \<le> pi_end p - pi_wpen p" "unat cap \<le> unat (pi_size p) - unat (pi_avail p)"
  defines "m' \<equiv> put_bytes m (pi_wpen p) (take (unat cap) buf)" and "p' \<equiv> put_chunk buf cap p"
  shows "pipe_inv p'" "contents p' m' = contents p m @ take (unat cap) buf"
    "pi_base p' = pi_base p" "pi_size p' = pi_size p" "pi_max p' = pi_max p" "unat (pi_avail p') = unat (pi_avail p) + unat cap"
proof -
  let ?s = "unat (pi_size p)" let ?a = "unat (pi_avail p)" let ?c = "unat cap" let ?b = "pi_base p" let ?r = "pi_rpen p - pi_base p"
  define x where "x = (?r + ?a) mod ?s"
  note d = pipe_invD [OF assms(1)]
  have x: "x < ?s" "pi_wpen p = ?b + x" "pi_end p = ?b + ?s" using assms(1) d(1) by (simp_all add: pipe_inv_def x_def)
  have xc: "x + ?c \<le> ?s" using assms(3) x by simp
  have av: "unat (pi_avail p + cap) = ?a + ?c" using unat_add_le [of "pi_avail p" ?c "pi_size p" cap] assms(4) d(2) by simp
  show same: "pi_base p' = pi_base p" "pi_size p' = pi_size p" "pi_max p' = pi_max p" "unat (pi_avail p') = ?a + ?c"
    using av by (simp_all add: p'_def put_chunk_def Let_def)
  have more: "pi_rpen p' = pi_rpen p" "pi_end p' = pi_end p" by (simp_all add: p'_def put_chunk_def Let_def)
  have "pi_wpen p' = ?b + (x + ?c) mod ?s"
    using x(1) xc by (cases "x + ?c = ?s") (simp_all add: p'_def put_chunk_def Let_def x(2,3))
  also have "(x + ?c) mod ?s = (?r + unat (pi_avail p')) mod ?s" unfolding same(4) x_def by (simp add: mod_add_left_eq add.assoc)
  finally have w: "pi_wpen p' = ?b + (?r + unat (pi_avail p')) mod ?s" .
  have "pi_avail p' \<le> pi_size p'" using same(2,4) assms(4) d(2) by (simp add: word_le_nat_alt)
  then show "pipe_inv p'" using assms(1) w same more unfolding pipe_inv_def by simp
  have old: "m' (?b + (?r + i) mod ?s) = m (?b + (?r + i) mod ?s)" if "i < ?a" for i
  proof -
    have "(?r + i) mod ?s \<noteq> x + j" if "j < ?c" for j
    proof -
      have "(?r + (?a + j)) mod ?s = x + j"
        using that xc mod_add_left_eq [of "?r + ?a" ?s j] by (simp add: x_def [symmetric] add.assoc [symmetric])
      moreover have "(?r + i) mod ?s \<noteq> (?r + (?a + j)) mod ?s" using \<open>i < ?a\<close> that assms(4) d(2) by (intro mod_apart) auto
      ultimately show ?thesis by simp
    qed
    then have "\<not> (x \<le> (?r + i) mod ?s \<and> (?r + i) mod ?s < x + ?c)" by (metis add_less_cancel_left le_Suc_ex)
    then show ?thesis using assms(2) by (auto simp: m'_def put_bytes_def x(2))
  qed
  have new: "m' (?b + (?r + (?a + j)) mod ?s) = buf ! j" if "j < ?c" for j
  proof -
    have "(?r + (?a + j)) mod ?s = x + j"
      using that xc mod_add_left_eq [of "?r + ?a" ?s j] by (simp add: x_def [symmetric] add.assoc [symmetric])
    then show ?thesis using that assms(2) by (simp add: m'_def put_bytes_def x(2))
  qed
  define g where "g i = m' (?b + (?r + i) mod ?s)" for i
  have "contents p' m' = map g [0..<?a] @ map (\<lambda>j. g (?a + j)) [0..<?c]"
    unfolding contents_def same more upt_split map_append map_map comp_def g_def ..
  moreover have "map g [0..<?a] = contents p m" unfolding contents_def g_def by (rule map_cong) (use old in auto)
  moreover have "map (\<lambda>j. g (?a + j)) [0..<?c] = take ?c buf" by (rule nth_equalityI) (use assms(2) new in \<open>auto simp: g_def\<close>)
  ultimately show "contents p' m' = contents p m @ take ?c buf" by simp
qed

subsection \<open>Growing\<close>

text \<open>What the pipe relies on: a new mapping lies apart from the buffer that is mapped, and takes its place when that one
  is unmapped. The predicate says which buffer is mapped in a state of the window.\<close>

definition window_law :: "'s window \<Rightarrow> ('s \<Rightarrow> nat \<Rightarrow> u32 \<Rightarrow> bool) \<Rightarrow> u32 \<Rightarrow> bool" where
  "window_law w holds mx \<longleftrightarrow> (\<forall>st b n len. holds st b n \<longrightarrow> 0 < len \<longrightarrow> len \<le> mx \<longrightarrow>
     (case win_map w len st of (a, fresh, st') \<Rightarrow>
        a + unat len < 2 ^ 32 \<and> (a + unat len \<le> b \<or> b + unat n \<le> a) \<and> holds (win_unmap w b n st') a len))"

lemma kcopy_apart:
  "d + unat len \<le> s \<or> s + unat len \<le> d \<Longrightarrow> kcopy d s len (m, st) = (put_bytes m d (get_bytes m s (unat len)), st)"
  by (simp add: kcopy_def memcpy_forward) (rule forward_copy_exact, auto)

lemma resize_grows:
  assumes "pipe_inv p" "0 < pi_avail p" "window_law w holds (pi_max p)" "holds st (pi_base p) (pi_size p)"
    "unat sz = 2 * unat (pi_size p)" "sz \<le> pi_max p"
  shows "\<exists>p' m' st'. pipe_resize_unlock' w sz p (m, st) = (0, p', m', st') \<and> pipe_inv p' \<and> contents p' m' = contents p m \<and>
    pi_size p' = sz \<and> pi_max p' = pi_max p \<and> pi_avail p' = pi_avail p \<and> pi_hangup p' = pi_hangup p \<and> holds st' (pi_base p') sz"
proof -
  define b where "b = pi_base p"
  define r where "r = pi_rpen p - b"
  define s where "s = unat (pi_size p)"
  define a where "a = unat (pi_avail p)"
  note d = pipe_invD [OF assms(1)]
  have p: "0 < s" "a \<le> s" "0 < a" "r < s" "pi_rpen p = b + r" "pi_wpen p = b + (r + a) mod s" "b + s < 2 ^ 32" "pi_end p = b + s"
    using assms(1,2) d(1,2) by (auto simp: pipe_inv_def b_def r_def s_def a_def word_less_nat_alt)
  obtain n fresh st1 where wm: "win_map w sz st = (n, fresh, st1)" by (cases "win_map w sz st") auto
  have sz: "0 < sz" "unat sz = 2 * s" using assms(5) p(1) by (simp_all add: word_less_nat_alt s_def)
  have new: "n + 2 * s < 2 ^ 32" "n + 2 * s \<le> b \<or> b + s \<le> n" "holds (win_unmap w b (pi_size p) st1) n sz"
    using assms(3,4) sz(1,2) assms(6) wm unfolding window_law_def b_def s_def by fastforce+
  define m1 where "m1 = (\<lambda>x. if n \<le> x \<and> x < n + 2 * s then fresh x else m x)"
  define m2 where "m2 = put_bytes m1 n (get_bytes m1 b s)"
  have k1: "kmap_pipe w sz (m, st) = (n, m1, st1)" by (simp add: kmap_pipe_def wm m1_def sz(2) fun_eq_iff)
  have k2: "kcopy n b (pi_size p) (m1, st1) = (m2, st1)" using new(2) kcopy_apart [of n "pi_size p" b m1 st1] by (auto simp: m2_def s_def)
  have m2: "x < s \<Longrightarrow> m2 (n + x) = m (b + x)" "x < s \<Longrightarrow> m2 (b + x) = m (b + x)" for x
    using new(2) by (auto simp: m2_def m1_def put_bytes_def)
  have sg: "sz > pi_size p" "\<not> sz < pi_avail p" "\<not> sz > pi_max p" "unat (sz - pi_size p) = s"
    using sz(2) p(1,2) assms(6) by (auto simp: word_less_nat_alt word_le_nat_alt s_def a_def unat_sub not_less)
  have pens: "\<exists>p' m' st'. pipe_resize_unlock' w sz p (m, st) = (0, p', m', st') \<and>
      p' = p\<lparr>pi_rpen := n + r, pi_wpen := n + r + a, pi_base := n, pi_size := sz, pi_end := n + 2 * s\<rparr> \<and> st' = win_unmap w b (pi_size p) st1 \<and>
      (\<forall>x < r + a. m' (n + x) = m (b + x mod s))"
  proof (cases "r + a < s")
    case True
    then have "pi_rpen p < pi_wpen p" using p by simp
    then have "pipe_resize_unlock' w sz p (m, st) = (0, p\<lparr>pi_rpen := n + r, pi_wpen := n + r + a, pi_base := n, pi_size := sz, pi_end := n + 2 * s\<rparr>, m2, win_unmap w b (pi_size p) st1)"
      using sg k1 k2 True p(5,6) sz(2)
      by (simp add: pipe_resize_unlock'_def Let_def b_def [symmetric] rebase_pens_def move_buffer_def kunmap_pipe_def)
    then show ?thesis using m2(1) True by auto
  next
    case False
    define x where "x = r + a - s"
    have x: "(r + a) mod s = x" "x \<le> r" "x < s" using False p by (auto simp: x_def mod_if)
    have nl: "\<not> pi_rpen p < pi_wpen p" using p(5,6) x by simp
    have df: "unat (ptr_diff (pi_wpen p) b) = x" using ptr_diff_eq [of b "pi_wpen p"] p(6,7) x by simp
    then have lt: "ptr_diff (pi_wpen p) b < sz - pi_size p" using sg(4) x(3) by (simp add: word_less_nat_alt)
    define m3 where "m3 = put_bytes m2 (n + s) (get_bytes m2 b x)"
    have k3: "kcopy (n + s) b (ptr_diff (pi_wpen p) b) (m2, st1) = (m3, st1)"
      using kcopy_apart [of "n + s" "ptr_diff (pi_wpen p) b" b m2 st1] new(2) x(3) by (auto simp: df m3_def)
    have "pipe_resize_unlock' w sz p (m, st) = (0, p\<lparr>pi_rpen := n + r, pi_wpen := n + r + a, pi_base := n, pi_size := sz, pi_end := n + 2 * s\<rparr>, m3, win_unmap w b (pi_size p) st1)"
      using sg k1 k2 k3 nl lt p(5,6) x sz(2) False
      by (simp add: pipe_resize_unlock'_def Let_def b_def [symmetric] s_def [symmetric] rebase_pens_def move_buffer_def kunmap_pipe_def x_def)
    moreover have "m3 (n + y) = m (b + y mod s)" if "y < r + a" for y
    proof (cases "y < s")
      case True
      then show ?thesis using m2(1) x by (simp add: m3_def put_bytes_def)
    next
      case F: False
      then obtain z where z: "y = s + z" using le_Suc_ex [of s y] by auto
      then have "z < x" using that p x by (simp add: x_def)
      then show ?thesis using z m2(2) [of z] x(3) by (simp add: m3_def put_bytes_def)
    qed
    ultimately show ?thesis by auto
  qed
  then obtain m' where run: "pipe_resize_unlock' w sz p (m, st) =
      (0, p\<lparr>pi_rpen := n + r, pi_wpen := n + r + a, pi_base := n, pi_size := sz, pi_end := n + 2 * s\<rparr>, m', win_unmap w b (pi_size p) st1)"
      "\<forall>x < r + a. m' (n + x) = m (b + x mod s)" by auto
  let ?p = "p\<lparr>pi_rpen := n + r, pi_wpen := n + r + a, pi_base := n, pi_size := sz, pi_end := n + 2 * s\<rparr>"
  have "pi_avail p \<le> sz" using sg(2) by simp
  then have "pipe_inv ?p" using new(1) sz p by (auto simp: pipe_inv_def a_def [symmetric])
  moreover have "contents ?p m' = contents p m"
    unfolding contents_def by (rule map_cong) (use run(2) p sz in \<open>auto simp: a_def [symmetric] s_def [symmetric] b_def [symmetric]\<close>)
  ultimately show ?thesis using run(1) new(3) by auto
qed

subsection \<open>Writing and reading\<close>

lemma unat_MIN3: "unat (MIN3 a b (c :: u32)) = min (unat a) (min (unat b) (unat c))"
  by (simp add: MIN3_def word_le_nat_alt)

lemma pipe_leave [simp]:
  "pipe_inv (leave p) = pipe_inv p" "pipe_inv (enter p) = pipe_inv p" "pipe_inv (wake_readers p) = pipe_inv p" "pipe_inv (wake_writers p) = pipe_inv p"
  "contents (leave p) m = contents p m" "contents (enter p) m = contents p m" "contents (wake_readers p) m = contents p m"
  "contents (wake_writers p) m = contents p m"
  by (simp_all add: pipe_inv_def contents_def leave_def enter_def wake_readers_def wake_writers_def)

lemma pipe_sels [simp]:
  "pi_base (leave p) = pi_base p" "pi_base (enter p) = pi_base p" "pi_base (wake_readers p) = pi_base p" "pi_base (wake_writers p) = pi_base p"
  "pi_size (leave p) = pi_size p" "pi_size (enter p) = pi_size p" "pi_size (wake_readers p) = pi_size p" "pi_size (wake_writers p) = pi_size p"
  "pi_max (leave p) = pi_max p" "pi_max (enter p) = pi_max p" "pi_max (wake_readers p) = pi_max p" "pi_max (wake_writers p) = pi_max p"
  "pi_avail (leave p) = pi_avail p" "pi_avail (enter p) = pi_avail p" "pi_avail (wake_readers p) = pi_avail p" "pi_avail (wake_writers p) = pi_avail p"
  "pi_hangup (leave p) = pi_hangup p" "pi_hangup (enter p) = pi_hangup p"
  "pi_rpen (leave p) = pi_rpen p" "pi_rpen (enter p) = pi_rpen p" "pi_rpen (wake_readers p) = pi_rpen p"
  "pi_wpen (enter p) = pi_wpen p" "pi_end (enter p) = pi_end p"
  by (simp_all add: leave_def enter_def wake_readers_def wake_writers_def)

definition doubles :: "pipe \<Rightarrow> bool" where
  "doubles p \<longleftrightarrow> (\<exists>k. unat (pi_max p) = unat (pi_size p) * 2 ^ k)"

text \<open>A pipe in use: well-formed, with its buffer mapped.\<close>

definition pipe_ok :: "'s window \<Rightarrow> ('s \<Rightarrow> nat \<Rightarrow> u32 \<Rightarrow> bool) \<Rightarrow> pipe \<Rightarrow> 's \<Rightarrow> bool" where
  "pipe_ok w holds p st \<longleftrightarrow> pipe_inv p \<and> doubles p \<and> window_law w holds (pi_max p) \<and> holds st (pi_base p) (pi_size p)"

lemma write_loop_chunk:
  assumes "cap = MIN3 (of_nat (length buf)) (ptr_diff (pi_end p) (pi_wpen p)) (pi_size p - pi_avail p)" "buf \<noteq> []" "length buf < 2 ^ 32" "0 < unat cap"
  shows "write_loop w flags buf n p (m, st) =
    write_loop w flags (drop (unat cap) buf) (n + int (unat cap)) (put_chunk buf cap p) (put_bytes m (pi_wpen p) (take (unat cap) buf), st)"
proof -
  have "cap \<noteq> 0" "(of_nat (length buf) :: u32) > 0"
    using assms(2-4) by (auto simp: word_less_nat_alt unat_of_nat take_bit_nat_eq_self)
  then show ?thesis by (subst write_loop.simps) (simp add: assms(1) [symmetric] Let_def put_chunk_def)
qed

lemma write_step:
  assumes "pipe_ok w holds p st" "buf \<noteq> []" "length buf < 2 ^ 32" "pi_avail p \<noteq> pi_size p"
  shows "\<exists>c p' m'. 0 < c \<and> c \<le> length buf \<and> write_loop w flags buf n p (m, st) = write_loop w flags (drop c buf) (n + int c) p' (m', st) \<and>
    pipe_ok w holds p' st \<and> contents p' m' = contents p m @ take c buf \<and> pi_max p' = pi_max p \<and> unat (pi_avail p') = unat (pi_avail p) + c"
proof -
  have inv: "pipe_inv p" using assms(1) by (simp add: pipe_ok_def)
  note d = pipe_invD [OF inv]
  define len where "len = (of_nat (length buf) :: u32)"
  define cap where "cap = MIN3 len (ptr_diff (pi_end p) (pi_wpen p)) (pi_size p - pi_avail p)"
  have len: "unat len = length buf" using assms(3) by (simp add: len_def unat_of_nat take_bit_nat_eq_self)
  have cap: "unat cap = min (length buf) (min (pi_end p - pi_wpen p) (unat (pi_size p) - unat (pi_avail p)))"
    unfolding cap_def unat_MIN3 len d(5,7) ..
  have "unat (pi_avail p) \<noteq> unat (pi_size p)" using assms(4) by (metis unsigned_word_eqI)
  then have pos: "0 < unat cap" using cap d(2,3) assms(2) by simp
  then have run: "write_loop w flags buf n p (m, st) =
      write_loop w flags (drop (unat cap) buf) (n + int (unat cap)) (put_chunk buf cap p) (put_bytes m (pi_wpen p) (take (unat cap) buf), st)"
    using write_loop_chunk [OF cap_def [unfolded len_def] assms(2,3)] by simp
  have cl: "unat cap \<le> length buf" "unat cap \<le> pi_end p - pi_wpen p" "unat cap \<le> unat (pi_size p) - unat (pi_avail p)" unfolding cap by linarith+
  note a = put_chunk_appends [OF inv cl]
  have "pipe_ok w holds (put_chunk buf cap p) st" using assms(1) a(1,3-5) by (simp add: pipe_ok_def doubles_def)
  then show ?thesis using pos cl(1) run a(2) [of m] a(5,6) by blast
qed

lemma write_loop_appends:
  assumes "pipe_ok w holds p st" "unat (pi_avail p) + length buf \<le> unat (pi_max p)"
  shows "\<exists>p' m' st'. write_loop w flags buf n p (m, st) = Some (Wrote (Inr (n + int (length buf))), p', m', st') \<and>
    pipe_ok w holds p' st' \<and> contents p' m' = contents p m @ buf"
  using assms
proof (induction "length buf" arbitrary: buf n p m st rule: less_induct)
  case less
  have mx: "length buf < 2 ^ 32" using less.prems(2) unat_u32 [of "pi_max p"] by simp
  have room: ?case if "buf \<noteq> []" "pi_avail q \<noteq> pi_size q" "pipe_ok w holds q t" "contents q m1 = contents p m" "pi_max q = pi_max p" "pi_avail q = pi_avail p"
      "write_loop w flags buf n p (m, st) = write_loop w flags buf n q (m1, t)" for q m1 t
  proof -
    note pre = that
    obtain c p' m' where c: "0 < c" "c \<le> length buf" "write_loop w flags buf n q (m1, t) = write_loop w flags (drop c buf) (n + int c) p' (m', t)"
        "pipe_ok w holds p' t" "contents p' m' = contents q m1 @ take c buf" "pi_max p' = pi_max q" "unat (pi_avail p') = unat (pi_avail q) + c"
      using write_step [OF pre(3,1) mx pre(2)] by blast
    have "length (drop c buf) < length buf" "unat (pi_avail p') + length (drop c buf) \<le> unat (pi_max p')"
      using c(1,2,6,7) pre(1,5,6) less.prems(2) by auto
    from less.hyps [OF this(1) c(4) this(2), of "n + int c" m']
    show ?thesis using c(2,3,5) pre(4,7) by auto
  qed
  show ?case
  proof (cases "buf = []")
    case True
    then show ?thesis using less.prems(1) by (subst write_loop.simps) (simp add: pipe_ok_def doubles_def)
  next
    case ne: False
    show ?thesis
    proof (cases "pi_avail p = pi_size p")
      case False
      then show ?thesis using room [OF ne _ less.prems(1)] by blast
    next
      case True
      have ok: "pipe_inv p" "window_law w holds (pi_max p)" "holds st (pi_base p) (pi_size p)" using less.prems(1) by (simp_all add: pipe_ok_def)
      note d = pipe_invD [OF ok(1)]
      obtain k where k: "unat (pi_max p) = unat (pi_size p) * 2 ^ k" using less.prems(1) by (auto simp: pipe_ok_def doubles_def)
      have lt: "unat (pi_size p) < unat (pi_max p)" using less.prems(2) ne True by (cases buf) auto
      then obtain j where j: "k = Suc j" using k by (cases k) auto
      then have "2 * unat (pi_size p) \<le> unat (pi_max p)" using k d(1) by simp
      then have db: "unat (pi_size p * 2) = 2 * unat (pi_size p)" using unat_u32 [of "pi_max p"] by (subst unat_mult_lem [THEN iffD1]) auto
      have g: "grown p = pi_size p * 2" "pi_size p * 2 \<le> pi_max p"
        using \<open>2 * unat (pi_size p) \<le> unat (pi_max p)\<close> db by (auto simp: grown_def min_def word_le_nat_alt)
      have "0 < pi_avail p" using True d(1) by (simp add: word_less_nat_alt)
      from resize_grows [OF ok(1) this ok(2,3) db g(2), of m]
      obtain p' m' st' where r: "pipe_resize_unlock' w (pi_size p * 2) p (m, st) = (0, p', m', st')" "pipe_inv p'" "contents p' m' = contents p m"
          "pi_size p' = pi_size p * 2" "pi_max p' = pi_max p" "pi_avail p' = pi_avail p" "holds st' (pi_base p') (pi_size p * 2)" by blast
      have "(of_nat (length buf) :: u32) > 0" using ne mx by (simp add: word_less_nat_alt unat_of_nat take_bit_nat_eq_self)
      moreover have "MIN3 (of_nat (length buf)) (ptr_diff (pi_end p) (pi_wpen p)) (pi_size p - pi_avail p) = 0" using True by (simp add: MIN3_def)
      ultimately have "write_loop w flags buf n p (m, st) = write_loop w flags buf n p' (m', st')"
        using lt r(1) g(1) by (subst write_loop.simps) (simp add: Let_def word_less_nat_alt)
      moreover have "pi_avail p' \<noteq> pi_size p'" using r(4,6) True db d(1) by (metis add_cancel_right_right less_irrefl mult_2)
      moreover have "pipe_ok w holds p' st'" using r(2,4,5,7) ok(2) k j db by (auto simp: pipe_ok_def doubles_def)
      ultimately show ?thesis using room [OF ne] r(3,5,6) by blast
    qed
  qed
qed

text \<open>C13: A pipe is a queue for its writers. When the bytes fit into the largest buffer the pipe may have, a
  plain write returns at once with all of them written; they are appended behind the bytes that were in the pipe, in order, however often
  the ring wraps around and however often the buffer has to be moved to a larger one.\<close>

theorem pipe_write_appends:
  assumes "pipe_ok w holds p st" "\<not> pi_hangup p" "unat (pi_avail p) + length buf \<le> unat (pi_max p)"
  shows "\<exists>p' m' st'. pipe_write w 0 buf p (m, st) = Some (Wrote (Inr (int (length buf))), p', m', st') \<and>
    pipe_ok w holds p' st' \<and> contents p' m' = contents p m @ buf"
proof -
  have "pipe_ok w holds (enter p) st" using assms(1) by (simp add: pipe_ok_def doubles_def)
  from write_loop_appends [OF this, of buf 0 0 m] show ?thesis using assms(2,3) by (simp add: pipe_write_def)
qed

definition get_chunk :: "u32 \<Rightarrow> pipe \<Rightarrow> pipe" where
  "get_chunk cap p = (let p = p\<lparr>pi_rpen := pi_rpen p + unat cap, pi_avail := pi_avail p - cap\<rparr>
      in if pi_rpen p = pi_end p then p\<lparr>pi_rpen := pi_base p\<rparr> else p)"

lemma get_chunk_drops:
  fixes m :: bytes
  assumes "pipe_inv p" "unat cap \<le> pi_end p - pi_rpen p" "unat cap \<le> unat (pi_avail p)"
  defines "p' \<equiv> get_chunk cap p"
  shows "pipe_inv p'" "contents p' m = drop (unat cap) (contents p m)" "get_bytes m (pi_rpen p) (unat cap) = take (unat cap) (contents p m)"
    "unat (pi_avail p') = unat (pi_avail p) - unat cap"
proof -
  let ?s = "unat (pi_size p)" let ?a = "unat (pi_avail p)" let ?c = "unat cap" let ?b = "pi_base p"
  define r where "r = pi_rpen p - pi_base p"
  note d = pipe_invD [OF assms(1)]
  have x: "r < ?s" "pi_rpen p = ?b + r" "pi_end p = ?b + ?s" "pi_wpen p = ?b + (r + ?a) mod ?s" using assms(1) d(1) by (auto simp: pipe_inv_def r_def)
  have rc: "r + ?c \<le> ?s" using assms(2) x by simp
  have av: "unat (pi_avail p - cap) = ?a - ?c" using assms(3) by (simp add: unat_sub word_le_nat_alt)
  show a': "unat (pi_avail p') = ?a - ?c" using av by (simp add: p'_def get_chunk_def Let_def)
  have same: "pi_base p' = ?b" "pi_size p' = pi_size p" "pi_end p' = pi_end p" "pi_wpen p' = pi_wpen p"
    by (simp_all add: p'_def get_chunk_def Let_def)
  have rp: "pi_rpen p' = ?b + (r + ?c) mod ?s"
    using x(1) rc by (cases "r + ?c = ?s") (simp_all add: p'_def get_chunk_def Let_def x(2,3))
  have sh: "((r + ?c) mod ?s + i) mod ?s = (r + (?c + i)) mod ?s" for i by (simp add: mod_add_left_eq add.assoc)
  have "pi_avail p' \<le> pi_size p" using a' d(2) by (simp add: word_le_nat_alt)
  moreover have "pi_wpen p' = ?b + ((r + ?c) mod ?s + unat (pi_avail p')) mod ?s" unfolding sh a' same x(4) using assms(3) by simp
  ultimately show "pipe_inv p'" using assms(1) d(1) rp same unfolding pipe_inv_def by simp
  have nth: "contents p m ! i = m (?b + (r + i) mod ?s)" if "i < ?a" for i using that by (simp add: contents_def r_def)
  show "contents p' m = drop ?c (contents p m)"
    by (rule nth_equalityI) (use a' assms(3) nth in \<open>auto simp: contents_def same rp sh r_def [symmetric]\<close>)
  show "get_bytes m (pi_rpen p) ?c = take ?c (contents p m)"
    by (rule nth_equalityI) (use assms(3) nth rc in \<open>auto simp: x(2) add.assoc\<close>)
qed

lemma read_loop_takes:
  assumes "pipe_inv p" "unat len \<le> unat (pi_avail p) \<or> got \<noteq> [] \<or> 0 < pi_avail p"
  shows "\<exists>p'. read_loop flags len got p m = Some (Got (Inr (got @ take (unat len) (contents p m))), p') \<and> pipe_inv p' \<and>
    contents p' m = drop (unat len) (contents p m)"
  using assms
proof (induction "unat len" arbitrary: len got p rule: less_induct)
  case less
  note d = pipe_invD [OF less.prems(1)]
  define cap where "cap = MIN3 len (ptr_diff (pi_end p) (pi_rpen p)) (pi_avail p)"
  have cap: "unat cap = min (unat len) (min (pi_end p - pi_rpen p) (unat (pi_avail p)))" unfolding cap_def unat_MIN3 d(6) ..
  have "0 < pi_end p - pi_rpen p" using less.prems(1) by (simp add: pipe_inv_def)
  show ?case
  proof (cases "len = 0")
    case True
    then show ?thesis using less.prems(1) by (subst read_loop.simps) simp
  next
    case l: False
    then have pos: "0 < len" "0 < unat len" by (simp_all add: word_less_nat_alt unat_gt_0)
    show ?thesis
    proof (cases "pi_avail p = 0")
      case True
      then have "cap = 0" using cap by (simp add: unat_eq_0)
      moreover have "got \<noteq> []" using less.prems(2) True pos by auto
      ultimately have "read_loop flags len got p m = Some (Got (Inr got), leave (wake_writers p))"
        using pos(1) by (subst read_loop.simps) (simp add: cap_def [symmetric] Let_def)
      then show ?thesis using True less.prems(1) by (simp add: contents_def)
    next
      case False
      then have c: "0 < unat cap" using cap pos(2) \<open>0 < pi_end p - pi_rpen p\<close> by (simp add: unat_gt_0)
      have cl: "unat cap \<le> pi_end p - pi_rpen p" "unat cap \<le> unat (pi_avail p)" "unat cap \<le> unat len" unfolding cap by linarith+
      note g = get_chunk_drops [OF less.prems(1) cl(1,2)]
      have run: "read_loop flags len got p m = read_loop flags (len - cap) (got @ take (unat cap) (contents p m)) (get_chunk cap p) m"
        using pos(1) c g(3) [of m] by (subst read_loop.simps) (auto simp: cap_def [symmetric] Let_def get_chunk_def)
      have lc: "unat (len - cap) = unat len - unat cap" using cl(3) by (simp add: unat_sub word_le_nat_alt)
      have "got @ take (unat cap) (contents p m) \<noteq> []" using c cl(2) by (metis append_is_Nil_conv length_contents length_take list.size(3) min.absorb2 less_irrefl)
      with less.hyps [OF _ g(1), of "len - cap" "got @ take (unat cap) (contents p m)"] lc c pos
      obtain p' where "read_loop flags (len - cap) (got @ take (unat cap) (contents p m)) (get_chunk cap p) m =
          Some (Got (Inr ((got @ take (unat cap) (contents p m)) @ take (unat len - unat cap) (drop (unat cap) (contents p m)))), p')" "pipe_inv p'"
          "contents p' m = drop (unat len - unat cap) (drop (unat cap) (contents p m))"
        unfolding g(2) [of m] by auto
      then show ?thesis unfolding run using cl(3) by (auto simp: take_add [symmetric])
    qed
  qed
qed

text \<open>C14: A pipe is a queue for its readers. A plain read on a pipe that is not empty returns at once: it takes the oldest bytes, as many as were
  asked for or all there are, and leaves the others in order.\<close>

theorem pipe_read_takes:
  assumes "pipe_inv p" "0 < pi_avail p"
  shows "\<exists>p'. pipe_read 0 len p m = Some (Got (Inr (take (unat len) (contents p m))), p') \<and> pipe_inv p' \<and>
    contents p' m = drop (unat len) (contents p m)"
  using read_loop_takes [of "enter p" len "[]" 0 m] assms by (simp add: pipe_read_def)

text \<open>The buffer of an empty pipe is moved as if it were full: the write pen is put one old length behind the
  read pen.\<close>

lemma resize_empty:
  assumes "pipe_inv p" "pi_avail p = 0" "window_law w holds (pi_max p)" "holds st (pi_base p) (pi_size p)"
    "unat sz = 2 * unat (pi_size p)" "sz \<le> pi_max p"
  shows "\<exists>n m' st'. pipe_resize_unlock' w sz p (m, st) =
      (0, p\<lparr>pi_rpen := n + (pi_rpen p - pi_base p), pi_wpen := n + (pi_rpen p - pi_base p) + unat (pi_size p), pi_base := n, pi_size := sz,
            pi_end := n + 2 * unat (pi_size p)\<rparr>, m', st') \<and> n + 2 * unat (pi_size p) < 2 ^ 32"
proof -
  note d = pipe_invD [OF assms(1)]
  have p: "pi_wpen p = pi_rpen p" "pi_base p \<le> pi_rpen p" "pi_rpen p - pi_base p < unat (pi_size p)" "pi_rpen p < 2 ^ 32"
    using assms(1,2) d(1) by (auto simp: pipe_inv_def)
  obtain n fresh st1 where wm: "win_map w sz st = (n, fresh, st1)" by (cases "win_map w sz st") auto
  have "0 < sz" using assms(5) d(1) by (simp add: word_less_nat_alt)
  then have nb: "n + 2 * unat (pi_size p) < 2 ^ 32" using assms(3,4,6) wm unfolding window_law_def assms(5) [symmetric] by fastforce
  have sg: "sz > pi_size p" "\<not> sz > pi_max p" "unat (sz - pi_size p) = unat (pi_size p)"
    using assms(5,6) d(1) by (auto simp: word_less_nat_alt word_le_nat_alt unat_sub not_less)
  have "unat (ptr_diff (pi_rpen p) (pi_base p)) = pi_rpen p - pi_base p" using ptr_diff_eq [OF p(2,4)] .
  then have "ptr_diff (pi_rpen p) (pi_base p) < sz - pi_size p" using sg(3) p(3) by (simp add: word_less_nat_alt)
  then show ?thesis using sg(1,2) wm assms(2) p(1,2) nb
    by (intro exI [of _ n]) (auto simp: add.assoc pipe_resize_unlock'_def Let_def kmap_pipe_def kcopy_def rebase_pens_def move_buffer_def kunmap_pipe_def assms(5))
qed

text \<open>C34: Growing an empty pipe breaks the order. A write that must not block and is larger than the buffer of an empty pipe reports success,
  but the pens are one old buffer length apart although the pipe was empty: the first byte a reader gets is not the first byte that was written
  but the one at the index of the old size.\<close>

theorem pipe_grow_empty_garbles:
  assumes "pipe_ok w holds p st" "\<not> pi_hangup p" "pi_avail p = 0" "unat (pi_size p) < length buf" "length buf \<le> 2 * unat (pi_size p)"
    "2 * unat (pi_size p) \<le> unat (pi_max p)"
  shows "\<exists>p' m' st'. pipe_write w IO_NOBLOCK buf p (m, st) = Some (Wrote (Inr (int (length buf))), p', m', st') \<and>
    unat (pi_avail p') = length buf \<and> m' (pi_rpen p') = buf ! unat (pi_size p)"
proof -
  define s where "s = unat (pi_size p)"
  define r where "r = pi_rpen p - pi_base p"
  define len where "len = (of_nat (length buf) :: u32)"
  define sz where "sz = pi_size p * 2"
  have ok: "pipe_inv (enter p)" "window_law w holds (pi_max p)" "holds st (pi_base p) (pi_size p)" using assms(1) by (simp_all add: pipe_ok_def)
  have rs: "r < s" using ok(1) by (auto simp: pipe_inv_def r_def s_def)
  have s32: "2 * s < 2 ^ 32" using assms(6) unat_u32 [of "pi_max p"] by (simp add: s_def)
  have sz: "unat sz = 2 * s" unfolding sz_def s_def using s32 by (subst unat_mult_lem [THEN iffD1]) (auto simp: s_def)
  have le: "sz \<le> pi_max p" using assms(6) sz by (simp add: word_le_nat_alt s_def)
  have ln: "unat len = length buf" using assms(5) s32 by (simp add: len_def s_def unat_of_nat take_bit_nat_eq_self)
  obtain n m1 st1 where rz: "pipe_resize_unlock' w sz (enter p) (m, st) = (0, (enter p)\<lparr>pi_rpen := n + r, pi_wpen := n + r + s, pi_base := n, pi_size := sz,
        pi_end := n + 2 * s\<rparr>, m1, st1)" and nb: "n + 2 * s < 2 ^ 32"
    using resize_empty [OF ok(1), of w holds st sz m] assms(3) ok(2,3) sz le by (auto simp: s_def r_def)
  define p1 where "p1 = (enter p)\<lparr>pi_rpen := n + r, pi_wpen := n + r + s, pi_base := n, pi_size := sz, pi_end := n + 2 * s\<rparr>"
  have p1: "pi_rpen p1 = n + r" "pi_wpen p1 = n + r + s" "pi_base p1 = n" "pi_size p1 = sz" "pi_end p1 = n + 2 * s" "pi_avail p1 = 0" "pi_max p1 = pi_max p"
    using assms(3) by (simp_all add: p1_def)
  have g: "len > pi_size p" "grown (enter p) = sz" "\<not> len > sz"
    using ln assms(4,5) le sz by (auto simp: word_less_nat_alt grown_def sz_def min_def s_def)
  have "make_room w len p1 (m1, st1) = Some (p1, m1, st1)" using g(3) p1 by (subst make_room.simps) simp
  then have room: "make_room w len (enter p) (m, st) = Some (p1, m1, st1)"
    using g(1,2) le assms(3) rz by (subst make_room.simps) (simp add: p1_def sz_def)
  define c1 where "c1 = MIN3 len (ptr_diff (pi_end p1) (pi_wpen p1)) (pi_size p1 - pi_avail p1)"
  have c1: "unat c1 = s - r"
    unfolding c1_def unat_MIN3 p1 using ptr_diff_eq [of "n + r + s" "n + 2 * s"] nb rs ln sz assms(4) by (simp add: s_def)
  define p2 where "p2 = put_chunk buf c1 p1"
  have p2: "pi_rpen p2 = n + r" "pi_wpen p2 = n" "pi_base p2 = n" "pi_size p2 = sz" "pi_end p2 = n + 2 * s" "unat (pi_avail p2) = s - r" 
    using c1 rs by (simp_all add: p2_def put_chunk_def Let_def p1)
  define b2 where "b2 = drop (s - r) buf"
  define c2 where "c2 = MIN3 (of_nat (length b2)) (ptr_diff (pi_end p2) (pi_wpen p2)) (pi_size p2 - pi_avail p2)"
  have b2: "length b2 = length buf - (s - r)" "r < length b2" "length b2 < 2 ^ 32" using assms(4,5) rs s32 by (auto simp: b2_def s_def)
  have av2: "unat (sz - pi_avail p2) = s + r" using p2(6) sz rs by (subst unat_sub) (auto simp: word_le_nat_alt)
  have l2: "unat (of_nat (length b2) :: u32) = length b2" using b2(3) by (simp only: unat_of_nat) (simp add: take_bit_nat_eq_self)
  have pd: "unat (ptr_diff (n + 2 * s) n) = 2 * s" using ptr_diff_eq [of n "n + 2 * s"] nb by simp
  have "length b2 \<le> s + r" "s + r \<le> 2 * s" using b2(1) assms(5) rs by (auto simp: s_def)
  then have c2: "unat c2 = length b2" unfolding c2_def unat_MIN3 p2 l2 pd av2 by simp
  define m2 where "m2 = put_bytes m1 (pi_wpen p1) (take (unat c1) buf)"
  define m3 where "m3 = put_bytes m2 (pi_wpen p2) (take (unat c2) b2)"
  define p3 where "p3 = put_chunk b2 c2 p2"
  have ne: "buf \<noteq> []" "b2 \<noteq> []" using assms(4) b2(2) by auto
  have "write_loop w IO_NOBLOCK buf 0 p1 (m1, st1) = write_loop w IO_NOBLOCK b2 (int (s - r)) p2 (m2, st1)"
    using write_loop_chunk [OF c1_def [unfolded len_def], of w IO_NOBLOCK 0 m1 st1] c1 rs assms(4,5) s32 ne(1)
    by (simp add: b2_def p2_def m2_def s_def)
  also have "\<dots> = write_loop w IO_NOBLOCK [] (int (length buf)) p3 (m3, st1)"
    using write_loop_chunk [OF c2_def, of w IO_NOBLOCK "int (s - r)" m2 st1] c2 b2 rs assms(4) ne(2) by (auto simp: p3_def m3_def s_def of_nat_diff)
  also have "\<dots> = Some (Wrote (Inr (int (length buf))), leave (wake_readers p3), m3, st1)" by (subst write_loop.simps) simp
  finally have "pipe_write w IO_NOBLOCK buf p (m, st) = Some (Wrote (Inr (int (length buf))), leave (wake_readers p3), m3, st1)"
    using assms(2,3) g room p1 by (simp add: pipe_write_def len_def [symmetric] IO_NOBLOCK_def)
  moreover have "unat (pi_avail p3) = length buf"
  proof -
    have "unat (pi_avail p2 + c2) = unat (pi_avail p2) + unat c2" by (rule unat_add_le [of _ _ sz]) (use p2(6) c2 b2 sz assms(4,5) rs in \<open>auto simp: s_def\<close>)
    then show ?thesis using p2(6) c2 b2 rs assms(4) by (simp add: p3_def put_chunk_def Let_def s_def)
  qed
  moreover have "pi_rpen p3 = n + r" by (simp add: p3_def put_chunk_def Let_def p2(1))
  moreover have "m3 (n + r) = buf ! s"
  proof -
    have "m3 (n + r) = b2 ! r" using b2(2) c2 by (simp add: m3_def put_bytes_def p2(2))
    also have "\<dots> = buf ! s" using rs assms(4) by (simp add: b2_def s_def)
    finally show ?thesis .
  qed
  ultimately show ?thesis by (auto simp: s_def)
qed

subsection \<open>Examples\<close>

text \<open>A window with two places of 16 bytes that are used in turn, and an empty pipe of 4 bytes that may
  grow to 16.\<close>

definition sample_window :: "bool window" where
  "sample_window = \<lparr>win_map = (\<lambda>len second. (if second then 200 else 100, (\<lambda>_. 0), second)), win_unmap = (\<lambda>a len second. \<not> second)\<rparr>"

definition sample_holds :: "bool \<Rightarrow> nat \<Rightarrow> u32 \<Rightarrow> bool" where
  "sample_holds second b n \<longleftrightarrow> b = (if second then 100 else 200) \<and> n \<le> 16"

definition sample_pipe :: pipe where
  "sample_pipe = \<lparr>pi_base = 100, pi_rpen = 102, pi_wpen = 102, pi_end = 104, pi_size = 4, pi_max = 16, pi_avail = 0, pi_hangup = False,
     pi_mutex = mtx_init, pi_rd_cond = cnd_init, pi_wr_cond = cnd_init, pi_readers = 1, pi_writers = 1\<rparr>"

lemma sample_pipe_ok: "pipe_ok sample_window sample_holds sample_pipe True"
proof -
  have "unat (pi_max sample_pipe) = unat (pi_size sample_pipe) * 2 ^ 2" by (simp add: sample_pipe_def)
  then have "doubles sample_pipe" unfolding doubles_def by blast
  moreover have "pipe_inv sample_pipe" by (simp add: pipe_inv_def sample_pipe_def)
  moreover have "window_law sample_window sample_holds 16"
    unfolding window_law_def by (auto simp: sample_window_def sample_holds_def word_le_nat_alt)
  ultimately show ?thesis by (simp add: pipe_ok_def sample_pipe_def sample_holds_def)
qed

lemma sample_empty: "contents sample_pipe m = []" "\<not> pi_hangup sample_pipe" "pi_avail sample_pipe = 0" "pi_size sample_pipe = 4" "pi_max sample_pipe = 16"
  by (simp_all add: contents_def sample_pipe_def)

theorem pipe_write_appends_witness:
  "\<exists>p' m' st'. pipe_write sample_window 0 [1, 2, 3, 4, 5, 6] sample_pipe ((\<lambda>_. 9), True) = Some (Wrote (Inr 6), p', m', st') \<and>
     contents p' m' = [1, 2, 3, 4, 5, 6]"
  using pipe_write_appends [OF sample_pipe_ok sample_empty(2), of "[1, 2, 3, 4, 5, 6]" "\<lambda>_. 9"] by (auto simp: sample_empty)

definition sample_full :: pipe where
  "sample_full = sample_pipe\<lparr>pi_avail := 4\<rparr>"

theorem pipe_read_takes_witness:
  "\<exists>p'. pipe_read 0 3 sample_full ((\<lambda>_. 9)(100 := 7, 101 := 8, 102 := 5, 103 := 6)) = Some (Got (Inr [5, 6, 7]), p') \<and>
     contents p' ((\<lambda>_. 9)(100 := 7, 101 := 8, 102 := 5, 103 := 6)) = [8]"
proof -
  have "pipe_inv sample_full" "0 < pi_avail sample_full" by (simp_all add: pipe_inv_def sample_full_def sample_pipe_def)
  moreover have "contents sample_full ((\<lambda>_. 9)(100 := 7, 101 := 8, 102 := 5, 103 := 6)) = [5, 6, 7, 8]"
    by (simp add: contents_def sample_full_def sample_pipe_def upt_rec)
  ultimately show ?thesis using pipe_read_takes [of sample_full 3 "(\<lambda>_. 9)(100 := 7, 101 := 8, 102 := 5, 103 := 6)"] by auto
qed

theorem pipe_grow_empty_garbles_witness:
  "\<exists>p' m' st'. pipe_write sample_window IO_NOBLOCK [1, 2, 3, 4, 5, 6] sample_pipe ((\<lambda>_. 9), True) = Some (Wrote (Inr 6), p', m', st') \<and>
     m' (pi_rpen p') = 5"
  using pipe_grow_empty_garbles [OF sample_pipe_ok sample_empty(2,3), of "[1, 2, 3, 4, 5, 6]" "\<lambda>_. 9"] by (auto simp: sample_empty)

end
