(* ===== verification/Tasks.thy ===== *)
theory Tasks
  imports LList BBTree
begin

section \<open>Tasks and scheduling (\<^verbatim>\<open>src/tasks/scheduler.c\<close>, \<^verbatim>\<open>src/tasks/threads.c\<close>, \<^verbatim>\<open>clock_state\<close> of \<^verbatim>\<open>src/tasks/clock.c\<close>)\<close>

text \<open>
  A task is named by its address, which is also that of its queue node; 0 is the null pointer. The run queue and the queue
  of zombies are linked lists of theory \<open>LList\<close>, the index of the tasks by number is a tree of theory \<open>BBTree\<close>.
  There is one processor: taking a lock that is held means to spin for ever, which is \<open>None\<close>, like a failed assertion
  and an access through the null pointer. A switch is followed up to the point where the next task is current; saving and
  restoring the registers, and the count of the masked interrupts, are not part of the state. Times are \<open>int\<close>
  (\<^verbatim>\<open>long long\<close> in the code). The system call log of a task is a string that fits its array; what is printed
  of it is not part of the state.
\<close>

subsection \<open>Model\<close>

datatype task_status = TS_ZOMBIE | TS_BLOCKED | TS_INTERRUPTIBLE | TS_READY | TS_RUNNING | TS_ABORTED

datatype clock_mode = CKS_NONE | CKS_IDLE | CKS_USER | CKS_SYS | CKS_IRQ

record task =
  tk_pid :: u32
  tk_status :: task_status
  tk_lock :: bool
  tk_parent :: nat
  tk_ret_code :: int
  tk_raised :: u32
  tk_sc_log :: string
  tk_elapsed_counters :: "clock_mode \<Rightarrow> int"
  tk_start_time :: int

record sched =
  sc_tasks :: "nat \<Rightarrow> task"
  sc_tree :: "(u32, nat) bbt"
  sc_lock :: bool
  sc_sch_lock :: bool
  sc_nodes :: llheap
  sc_queue :: llhead
  sc_zombie :: llhead
  sc_current :: nat
  ck_wall :: int
  ck_last_state :: clock_mode
  ck_last_time :: int
  ck_elapsed_counters :: "clock_mode \<Rightarrow> int"

definition SIGCHLD :: nat where "SIGCHLD = 17"

definition set_task :: "nat \<Rightarrow> (task \<Rightarrow> task) \<Rightarrow> sched \<Rightarrow> sched" where
  "set_task t f s = s\<lparr>sc_tasks := (sc_tasks s)(t := f (sc_tasks s t))\<rparr>"

definition set_status :: "nat \<Rightarrow> task_status \<Rightarrow> sched \<Rightarrow> sched" where
  "set_status t st s = set_task t (tk_status_update (\<lambda>_. st)) s"

definition lock_queue :: "sched \<Rightarrow> sched option" where
  "lock_queue s = (if sc_sch_lock s then None else Some (s\<lparr>sc_sch_lock := True\<rparr>))"

definition unlock_queue :: "sched \<Rightarrow> sched" where
  "unlock_queue s = s\<lparr>sc_sch_lock := False\<rparr>"

definition enqueue_ready :: "nat \<Rightarrow> sched \<Rightarrow> sched" where
  "enqueue_ready t s = (let (h, l) = ll_push_front (sc_nodes s) (sc_queue s) t in s\<lparr>sc_nodes := h, sc_queue := l\<rparr>)"

definition enqueue_zombie :: "nat \<Rightarrow> sched \<Rightarrow> sched" where
  "enqueue_zombie t s = (let (h, l) = ll_push_front (sc_nodes s) (sc_zombie s) t in s\<lparr>sc_nodes := h, sc_zombie := l\<rparr>)"

definition dequeue_ready :: "sched \<Rightarrow> (nat \<times> sched) option" where
  "dequeue_ready s = do { (t, h, l) \<leftarrow> ll_pop_back (sc_nodes s) (sc_queue s); Some (t, s\<lparr>sc_nodes := h, sc_queue := l\<rparr>) }"

definition scheduler_init :: "sched \<Rightarrow> sched" where
  "scheduler_init s = s\<lparr>sc_lock := False, sc_sch_lock := False, sc_tree := Tip, sc_queue := llist_init\<rparr>"

text \<open>Both clocks that are read here are \<^verbatim>\<open>XTIME_CLOCK\<close>, which is the wall time.\<close>

definition xtime_read :: "sched \<Rightarrow> int" where
  "xtime_read s = ck_wall s"

definition scheduler_add :: "nat \<Rightarrow> sched \<Rightarrow> sched option" where
  "scheduler_add t s =
     do { s \<leftarrow> lock_queue s;
          let s = set_status t TS_READY (enqueue_ready t s);
          let s = (if tk_start_time (sc_tasks s t) = 0 then set_task t (tk_start_time_update (\<lambda>_. xtime_read s)) s else s);
          Some (unlock_queue s) }"

definition scheduler_rm :: "nat \<Rightarrow> task_status \<Rightarrow> sched \<Rightarrow> sched option" where
  "scheduler_rm t status s =
     (if status = TS_READY then None
      else do {
        s \<leftarrow> lock_queue s;
        (h, l) \<leftarrow> ll_remove (sc_nodes s) (sc_queue s) t;
        Some (unlock_queue (set_status t status (s\<lparr>sc_nodes := h, sc_queue := l\<rparr>))) })"

definition task_raise :: "nat \<Rightarrow> nat \<Rightarrow> sched \<Rightarrow> sched option" where
  "task_raise t signum s =
     (if \<not> (signum > 0 \<and> signum < 31) then None
      else if t = 0 then Some s
      else if tk_lock (sc_tasks s t) then None
      else do {
        let s = set_task t (tk_lock_update (\<lambda>_. True)) s;
        let s = set_task t (tk_raised_update (\<lambda>r. r OR push_bit signum 1)) s;
        s \<leftarrow> (if tk_status (sc_tasks s t) = TS_INTERRUPTIBLE then scheduler_add t (set_status t TS_READY s) else Some s);
        Some (set_task t (tk_lock_update (\<lambda>_. False)) s) })"

text \<open>Counter 0, which is that of \<^verbatim>\<open>CKS_NONE\<close>, holds the total.\<close>

definition count_elapsed :: "clock_mode \<Rightarrow> int \<Rightarrow> (clock_mode \<Rightarrow> int) \<Rightarrow> clock_mode \<Rightarrow> int" where
  "count_elapsed st e c = (let c = c(CKS_NONE := c CKS_NONE + e) in c(st := c st + e))"

definition clock_state :: "clock_mode \<Rightarrow> sched \<Rightarrow> (clock_mode \<times> sched) option" where
  "clock_state st s =
     (let prev = ck_last_state s; now = xtime_read s; elapsed = now - ck_last_time s in do {
        s \<leftarrow> (if prev \<noteq> CKS_NONE then
                let s = s\<lparr>ck_elapsed_counters := count_elapsed prev elapsed (ck_elapsed_counters s)\<rparr>
                in if prev = CKS_SYS \<or> prev = CKS_USER then
                     if sc_current s = 0 then None
                     else Some (set_task (sc_current s) (tk_elapsed_counters_update (count_elapsed prev elapsed)) s)
                   else Some s
              else Some s);
        Some (prev, s\<lparr>ck_last_time := now, ck_last_state := st\<rparr>) })"

text \<open>The two halves of \<^verbatim>\<open>scheduler_switch\<close>: the current task is put away, which leaves the queue locked, and
  the next one is taken from it. The time is charged to the task that is put away.\<close>

definition put_away :: "task_status \<Rightarrow> sched \<Rightarrow> sched option" where
  "put_away status s =
     (let t = sc_current s in
      if t \<noteq> 0 then do {
        s \<leftarrow> lock_queue s;
        if tk_status (sc_tasks s t) = TS_ABORTED \<or> status = TS_ZOMBIE then
          let s = set_status t TS_ZOMBIE (enqueue_zombie t s) in task_raise (tk_parent (sc_tasks s t)) SIGCHLD s
        else if status = TS_READY then
          Some (set_task t (tk_sc_log_update (\<lambda>_. [])) (set_status t TS_READY (enqueue_ready t s)))
        else Some (set_status t status s) }
      else lock_queue s)"

definition take_next :: "sched \<Rightarrow> sched option" where
  "take_next s = do {
     (t, s) \<leftarrow> dequeue_ready s;
     let s = (if t \<noteq> 0 then set_status t TS_RUNNING s else s);
     (_, s) \<leftarrow> clock_state (if t = 0 then CKS_IDLE else CKS_SYS) (unlock_queue s);
     Some (s\<lparr>sc_current := t\<rparr>) }"

definition scheduler_switch :: "task_status \<Rightarrow> sched \<Rightarrow> sched option" where
  "scheduler_switch status s =
     (if status = TS_RUNNING \<or> status = TS_ABORTED then None else do { s \<leftarrow> put_away status s; take_next s })"

definition next_pid :: "sched \<Rightarrow> u32" where
  "next_pid s = (case bb_right (sc_tree s) of Some (_, l) \<Rightarrow> tk_pid (sc_tasks s l) + 1 | None \<Rightarrow> 1)"

text \<open>The allocation, the number and the index entry of a new task; \<open>t\<close> is the address that \<^verbatim>\<open>kalloc\<close> returns for it,
  with every byte 0. Its stack, address space, files and name are not part of the state.\<close>

definition task_create :: "nat \<Rightarrow> nat \<Rightarrow> sched \<Rightarrow> sched option" where
  "task_create t parent s =
     (if sc_lock s then None
      else
        let pid = next_pid s;
            s = set_task t (\<lambda>_. \<lparr>tk_pid = pid, tk_status = TS_ZOMBIE, tk_lock = False, tk_parent = parent, tk_ret_code = 0, tk_raised = 0,
                  tk_sc_log = [], tk_elapsed_counters = (\<lambda>_. 0), tk_start_time = 0\<rparr>) s
        in Some (s\<lparr>sc_tree := fst (bb_insert pid t (sc_tree s))\<rparr>))"

definition task_search :: "u32 \<Rightarrow> sched \<Rightarrow> nat option" where
  "task_search pid s =
     (if sc_lock s then None
      else Some (case (if pid = 0 then bb_left (sc_tree s) else bb_search (sc_tree s) pid 0) of Some (_, t) \<Rightarrow> t | None \<Rightarrow> 0))"

definition task_next :: "u32 \<Rightarrow> sched \<Rightarrow> nat option" where
  "task_next pid s =
     (if sc_lock s then None
      else Some (case bb_search (sc_tree s) pid 0 of
                   None \<Rightarrow> 0
                 | Some (k, _) \<Rightarrow> (case bb_next (sc_tree s) k of Some (_, t) \<Rightarrow> t | None \<Rightarrow> 0)))"

definition task_start :: "nat \<Rightarrow> sched \<Rightarrow> (u32 \<times> sched) option" where
  "task_start t s =
     do { s \<leftarrow> task_create t (sc_current s) s;
          s \<leftarrow> scheduler_add t s;
          Some (tk_pid (sc_tasks s t), s) }"

definition task_stop :: "int \<Rightarrow> sched \<Rightarrow> sched option" where
  "task_stop code s =
     (if sc_current s = 0 then None
      else scheduler_switch TS_ZOMBIE (set_task (sc_current s) (tk_ret_code_update (\<lambda>_. code)) s))"

text \<open>A run in which the current task gives way after each of the given spans of time.\<close>

fun turns :: "int list \<Rightarrow> sched \<Rightarrow> sched option" where
  "turns [] s = Some s"
| "turns (e # es) s = do { s \<leftarrow> scheduler_switch TS_READY (s\<lparr>ck_wall := ck_wall s + e\<rparr>); turns es s }"

subsection \<open>The queues\<close>

text \<open>\<open>ts\<close> is the current task and the ready ones, the next one to run first; there is no current task only when there
  is none that is ready. \<open>zs\<close> are the zombies, the last one to end first.\<close>

definition sched_ok :: "sched \<Rightarrow> nat list \<Rightarrow> nat list \<Rightarrow> bool" where
  "sched_ok s ts zs \<longleftrightarrow> sc_current s = hd0 ts 0 \<and> 0 \<notin> set ts \<and> list_ok (sc_nodes s) (sc_queue s) (rev (tl ts)) \<and>
     list_ok (sc_nodes s) (sc_zombie s) zs \<and> distinct (ts @ zs) \<and> \<not> sc_sch_lock s \<and>
     (\<forall>t\<in>set ts. tk_status (sc_tasks s t) \<noteq> TS_ABORTED)"

lemma set_task_sel [simp]:
  "sc_nodes (set_task t f s) = sc_nodes s" "sc_queue (set_task t f s) = sc_queue s" "sc_current (set_task t f s) = sc_current s"
  "sc_sch_lock (set_task t f s) = sc_sch_lock s" "sc_zombie (set_task t f s) = sc_zombie s" "sc_lock (set_task t f s) = sc_lock s"
  "sc_tree (set_task t f s) = sc_tree s" "ck_last_state (set_task t f s) = ck_last_state s" "ck_wall (set_task t f s) = ck_wall s"
  "sc_tasks (set_task t f s) x = (if x = t then f (sc_tasks s t) else sc_tasks s x)"
  by (simp_all add: set_task_def)

lemma list_ok_frame: "list_ok h l xs \<Longrightarrow> unchanged S h h' \<Longrightarrow> S \<inter> set xs = {} \<Longrightarrow> list_ok h' l xs"
  using lseg_frame [of xs h' h NULL NULL] by (auto simp: list_ok_def unchanged_def)

text \<open>Charging the elapsed time disturbs nothing the scheduler looks at.\<close>

lemma clock_state_ok:
  assumes "sc_current s \<noteq> 0"
  shows "\<exists>prev s'. clock_state st s = Some (prev, s') \<and> sc_nodes s' = sc_nodes s \<and> sc_queue s' = sc_queue s \<and> sc_zombie s' = sc_zombie s \<and>
    sc_sch_lock s' = sc_sch_lock s \<and> (\<forall>x. tk_status (sc_tasks s' x) = tk_status (sc_tasks s x) \<and> tk_ret_code (sc_tasks s' x) = tk_ret_code (sc_tasks s x))"
  using assms by (simp add: clock_state_def Let_def)

text \<open>The second half of a switch, from a state in which the queue is locked and the old task is still the current one.\<close>

lemma take_next_ok:
  assumes cur: "sc_current s \<noteq> 0" and q: "list_ok (sc_nodes s) (sc_queue s) (rev ts)" and z: "list_ok (sc_nodes s) (sc_zombie s) zs"
    and d: "distinct (ts @ zs)" and st: "\<forall>t\<in>set ts. tk_status (sc_tasks s t) \<noteq> TS_ABORTED"
  shows "\<exists>s'. take_next s = Some s' \<and> sched_ok s' ts zs \<and>
    (\<forall>x. x \<notin> set ts \<longrightarrow> tk_status (sc_tasks s' x) = tk_status (sc_tasks s x)) \<and> (\<forall>x. tk_ret_code (sc_tasks s' x) = tk_ret_code (sc_tasks s x))"
proof (cases ts)
  case Nil
  have pb: "ll_pop_back (sc_nodes s) (sc_queue s) = Some (0, sc_nodes s, sc_queue s)" using pop_back_empty q Nil by simp
  obtain prev s' where "clock_state CKS_IDLE (unlock_queue s) = Some (prev, s')" "sc_nodes s' = sc_nodes s" "sc_queue s' = sc_queue s"
      "sc_zombie s' = sc_zombie s" "\<not> sc_sch_lock s'"
      "\<forall>x. tk_status (sc_tasks s' x) = tk_status (sc_tasks s x) \<and> tk_ret_code (sc_tasks s' x) = tk_ret_code (sc_tasks s x)"
    using clock_state_ok [of "unlock_queue s" CKS_IDLE] cur by (auto simp: unlock_queue_def)
  then show ?thesis using pb q z d Nil by (auto simp: take_next_def dequeue_ready_def sched_ok_def)
next
  case (Cons n r)
  have "list_ok (sc_nodes s) (sc_queue s) (rev r @ [n])" using q Cons by simp
  from pop_back_ok [OF this] obtain h l where pb: "ll_pop_back (sc_nodes s) (sc_queue s) = Some (n, h, l)" "list_ok h l (rev r)"
      and un: "unchanged (set (n # rev r)) (sc_nodes s) h" by blast
  have z': "list_ok h (sc_zombie s) zs" using list_ok_frame [OF z un] d Cons by auto
  have n0: "0 \<notin> set ts" using list_okD(6) [OF q] by simp
  define s1 where "s1 = unlock_queue (set_status n TS_RUNNING (s\<lparr>sc_nodes := h, sc_queue := l\<rparr>))"
  have s1: "sc_nodes s1 = h" "sc_queue s1 = l" "sc_zombie s1 = sc_zombie s" "sc_current s1 = sc_current s" "\<not> sc_sch_lock s1"
      "\<And>x. tk_status (sc_tasks s1 x) = (if x = n then TS_RUNNING else tk_status (sc_tasks s x))"
      "\<And>x. tk_ret_code (sc_tasks s1 x) = tk_ret_code (sc_tasks s x)"
    by (simp_all add: s1_def unlock_queue_def set_status_def)
  obtain prev s' where ck: "clock_state CKS_SYS s1 = Some (prev, s')" "sc_nodes s' = h" "sc_queue s' = l" "sc_zombie s' = sc_zombie s"
      "\<not> sc_sch_lock s'" "\<forall>x. tk_status (sc_tasks s' x) = tk_status (sc_tasks s1 x) \<and> tk_ret_code (sc_tasks s' x) = tk_ret_code (sc_tasks s1 x)"
    using clock_state_ok [of s1 CKS_SYS] cur s1 by auto
  have "take_next s = Some (s'\<lparr>sc_current := n\<rparr>)"
    using pb(1) n0 Cons ck(1) by (simp add: take_next_def dequeue_ready_def s1_def)
  moreover have "sched_ok (s'\<lparr>sc_current := n\<rparr>) ts zs"
    using pb(2) n0 Cons ck(2-6) s1(6) z' d st by (auto simp: sched_ok_def)
  ultimately show ?thesis using ck(6) s1(6,7) Cons by auto
qed

subsection \<open>Giving way\<close>

lemma switch_rotates:
  assumes ok: "sched_ok s (c # q) zs"
  shows "\<exists>s'. scheduler_switch TS_READY s = Some s' \<and> sched_ok s' (q @ [c]) zs"
proof -
  have a: "sc_current s = c" "c \<noteq> 0" "list_ok (sc_nodes s) (sc_queue s) (rev q)" "list_ok (sc_nodes s) (sc_zombie s) zs"
      "distinct (c # q @ zs)" "\<not> sc_sch_lock s" "\<forall>t\<in>set (c # q). tk_status (sc_tasks s t) \<noteq> TS_ABORTED"
    using ok by (auto simp: sched_ok_def)
  obtain h l where pf: "ll_push_front (sc_nodes s) (sc_queue s) c = (h, l)" "list_ok h l (c # rev q)"
      and un: "unchanged (insert c (set (rev q))) (sc_nodes s) h"
    using push_front_ok [OF a(3), of c] a(2,5) by auto
  define s1 where "s1 = set_task c (tk_sc_log_update (\<lambda>_. [])) (set_status c TS_READY (s\<lparr>sc_sch_lock := True, sc_nodes := h, sc_queue := l\<rparr>))"
  have pa: "put_away TS_READY s = Some s1"
    using a pf(1) by (simp add: put_away_def lock_queue_def enqueue_ready_def Let_def s1_def)
  have s1: "sc_nodes s1 = h" "sc_queue s1 = l" "sc_zombie s1 = sc_zombie s" "sc_current s1 = c"
      "\<And>x. tk_status (sc_tasks s1 x) = (if x = c then TS_READY else tk_status (sc_tasks s x))"
    using a(1) by (simp_all add: s1_def set_status_def)
  have z: "list_ok h (sc_zombie s) zs" using list_ok_frame [OF a(4) un] a(5) by auto
  have "\<forall>t\<in>set (q @ [c]). tk_status (sc_tasks s1 t) \<noteq> TS_ABORTED" using a(7) s1(5) by simp
  then have "\<exists>s'. take_next s1 = Some s' \<and> sched_ok s' (q @ [c]) zs"
    using take_next_ok [of s1 "q @ [c]" zs] s1(1-4) a(2,5) pf(2) z by auto
  then show ?thesis using pa by (simp add: scheduler_switch_def)
qed

lemma turns_rotate:
  "sched_ok s ts zs \<Longrightarrow> ts \<noteq> [] \<Longrightarrow> \<exists>s'. turns es s = Some s' \<and> sched_ok s' (rotate (length es) ts) zs"
proof (induction es arbitrary: s ts)
  case (Cons e es)
  obtain c q where ts: "ts = c # q" using Cons.prems(2) by (cases ts) auto
  have "sched_ok (s\<lparr>ck_wall := ck_wall s + e\<rparr>) (c # q) zs" using Cons.prems(1) by (simp add: sched_ok_def ts)
  from switch_rotates [OF this] obtain s1 where
    s1: "scheduler_switch TS_READY (s\<lparr>ck_wall := ck_wall s + e\<rparr>) = Some s1" "sched_ok s1 (rotate1 ts) zs" by (auto simp: ts)
  then show ?case using Cons.IH [OF s1(2)] ts by (simp add: rotate1_rotate_swap)
qed simp

text \<open>C10: Scheduling is fair. As long as the tasks only give way to each other, every switch returns, and after \<open>n\<close> of them
  the task that stood at place \<open>n\<close> of the round (modulo its length) is running: with \<open>k\<close> tasks each one runs
  once in every \<open>k\<close> turns, in a fixed order, however long the turns are, and no task is lost.\<close>

theorem round_robin:
  assumes "sched_ok s ts zs" and "ts \<noteq> []"
  shows "\<exists>s'. turns es s = Some s' \<and> sched_ok s' (rotate (length es) ts) zs \<and> sc_current s' = ts ! (length es mod length ts)"
proof -
  obtain s' where s': "turns es s = Some s'" "sched_ok s' (rotate (length es) ts) zs" using turns_rotate [OF assms] by blast
  then show ?thesis using hd_rotate_conv_nth [OF assms(2)] assms(2) by (auto simp: sched_ok_def hd0_def)
qed

subsection \<open>The end of a task\<close>

lemma raise_ok:
  assumes "p = 0 \<or> \<not> tk_lock (sc_tasks s p) \<and> tk_status (sc_tasks s p) \<noteq> TS_INTERRUPTIBLE"
  shows "\<exists>s'. task_raise p SIGCHLD s = Some s' \<and> sc_nodes s' = sc_nodes s \<and> sc_queue s' = sc_queue s \<and> sc_zombie s' = sc_zombie s \<and>
    sc_current s' = sc_current s \<and> (\<forall>x. tk_status (sc_tasks s' x) = tk_status (sc_tasks s x) \<and> tk_ret_code (sc_tasks s' x) = tk_ret_code (sc_tasks s x))"
  using assms by (auto simp: task_raise_def SIGCHLD_def)

text \<open>C11: The current task ends when its parent does not wait to be interrupted: the call returns in the next ready task (or idle), the
  ended task is the newest zombie with its exit code, and the other ready tasks keep their order.\<close>

theorem task_stop_ends:
  assumes ok: "sched_ok s (c # q) zs"
    and par: "p = tk_parent (sc_tasks s c)" "p = 0 \<or> \<not> tk_lock (sc_tasks s p) \<and> tk_status (sc_tasks s p) \<noteq> TS_INTERRUPTIBLE"
  shows "\<exists>s'. task_stop code s = Some s' \<and> sched_ok s' q (c # zs) \<and> tk_status (sc_tasks s' c) = TS_ZOMBIE \<and> tk_ret_code (sc_tasks s' c) = code"
proof -
  have a: "sc_current s = c" "c \<noteq> 0" "list_ok (sc_nodes s) (sc_queue s) (rev q)" "list_ok (sc_nodes s) (sc_zombie s) zs"
      "distinct (c # q @ zs)" "\<not> sc_sch_lock s" "\<forall>t\<in>set (c # q). tk_status (sc_tasks s t) \<noteq> TS_ABORTED"
    using ok by (auto simp: sched_ok_def)
  obtain h l where pf: "ll_push_front (sc_nodes s) (sc_zombie s) c = (h, l)" "list_ok h l (c # zs)"
      and un: "unchanged (insert c (set zs)) (sc_nodes s) h"
    using push_front_ok [OF a(4), of c] a(2,5) by auto
  define s0 where "s0 = set_task c (tk_ret_code_update (\<lambda>_. code)) s"
  define s1 where "s1 = set_status c TS_ZOMBIE (s0\<lparr>sc_sch_lock := True, sc_nodes := h, sc_zombie := l\<rparr>)"
  have s1: "sc_nodes s1 = h" "sc_queue s1 = sc_queue s" "sc_zombie s1 = l" "sc_current s1 = c"
      "\<And>x. tk_status (sc_tasks s1 x) = (if x = c then TS_ZOMBIE else tk_status (sc_tasks s x))"
      "tk_ret_code (sc_tasks s1 c) = code" "tk_parent (sc_tasks s1 c) = p" "\<And>x. tk_lock (sc_tasks s1 x) = tk_lock (sc_tasks s x)"
    using a(1) par(1) by (simp_all add: s1_def s0_def set_status_def)
  have "p = 0 \<or> \<not> tk_lock (sc_tasks s1 p) \<and> tk_status (sc_tasks s1 p) \<noteq> TS_INTERRUPTIBLE" using par(2) s1(5,8) by auto
  from raise_ok [OF this] obtain s2 where s2: "task_raise p SIGCHLD s1 = Some s2" "sc_nodes s2 = h" "sc_queue s2 = sc_queue s"
      "sc_zombie s2 = l" "sc_current s2 = c"
      "\<forall>x. tk_status (sc_tasks s2 x) = tk_status (sc_tasks s1 x) \<and> tk_ret_code (sc_tasks s2 x) = tk_ret_code (sc_tasks s1 x)"
    using s1 by auto
  have pa: "put_away TS_ZOMBIE s0 = Some s2"
    using a pf(1) s2(1) s1(7) by (simp add: put_away_def lock_queue_def enqueue_zombie_def Let_def s1_def s0_def)
  have q: "list_ok h (sc_queue s) (rev q)" using list_ok_frame [OF a(3) un] a(5) by auto
  have "\<forall>t\<in>set q. tk_status (sc_tasks s2 t) \<noteq> TS_ABORTED" using s2(6) s1(5) a(7) by simp
  then obtain s' where t: "take_next s2 = Some s'" "sched_ok s' q (c # zs)"
      "\<forall>x. x \<notin> set q \<longrightarrow> tk_status (sc_tasks s' x) = tk_status (sc_tasks s2 x)" "\<forall>x. tk_ret_code (sc_tasks s' x) = tk_ret_code (sc_tasks s2 x)"
    using take_next_ok [of s2 q "c # zs"] s2(2-5) a(2,5) q pf(2) by auto
  have "task_stop code s = Some s'" using pa t(1) a(1,2) by (simp add: task_stop_def scheduler_switch_def s0_def)
  then show ?thesis using t(2-4) s2(6) s1(5,6) a(5) by simp
qed

text \<open>C33: A task cannot end while its parent waits for any event. The queue is locked when the end is reported to the
  parent, and waking the parent locks it again: the processor spins for ever.\<close>

theorem task_stop_deadlocks:
  assumes "tk_parent (sc_tasks s (sc_current s)) = p" "p \<noteq> 0" "p \<noteq> sc_current s" "tk_status (sc_tasks s p) = TS_INTERRUPTIBLE"
  shows "task_stop code s = None"
  using assms by (auto simp: task_stop_def scheduler_switch_def put_away_def lock_queue_def Let_def task_raise_def scheduler_add_def
      enqueue_zombie_def set_status_def split: prod.splits)

subsection \<open>The numbers of the tasks\<close>

definition task_index_ok :: "sched \<Rightarrow> bool" where
  "task_index_ok s \<longleftrightarrow> bb_inv (sc_tree s) \<and> \<not> sc_lock s \<and> (\<forall>(k, t)\<in>set (entries (sc_tree s)). k \<noteq> 0 \<and> tk_pid (sc_tasks s t) = k)"

lemma search_lookup:
  assumes "bb_inv (sc_tree s)" "\<not> sc_lock s" "pid \<noteq> 0"
  shows "task_search pid s = Some (case bb.lookup (sc_tree s) pid of Some t \<Rightarrow> t | None \<Rightarrow> 0)"
proof (cases "bb_search (sc_tree s) pid 0")
  case None
  then have "pid \<notin> fst ` set (entries (sc_tree s))" using bb.search_eq [OF assms(1), of pid] by (auto simp: eq_spec_def)
  then show ?thesis using None assms(2,3) by (simp add: task_search_def bb.lookup_None [THEN iffD2])
next
  case (Some e)
  then have "(pid, snd e) \<in> set (entries (sc_tree s))" using bb.search_eq [OF assms(1), of pid] by (auto simp: eq_spec_def)
  then have "bb.lookup (sc_tree s) pid = Some (snd e)" using bb.lookup_iff [OF assms(1)] by simp
  then show ?thesis using Some assms(2,3) by (simp add: task_search_def split: prod.splits)
qed

text \<open>The number of a new task exceeds all others, unless it wraps around.\<close>

lemma next_pid_fresh:
  assumes "task_index_ok s" "next_pid s \<noteq> 0"
  shows "bb.lookup (sc_tree s) (next_pid s) = None"
proof (cases "entries (sc_tree s)" rule: rev_cases)
  case (snoc es e)
  obtain k l where e: "e = (k, l)" by (cases e)
  have "tk_pid (sc_tasks s l) = k" using assms(1) by (auto simp: task_index_ok_def snoc e)
  then have n: "next_pid s = k + 1" by (simp add: next_pid_def bb_right_entries snoc e)
  have "sorted_keys (entries (sc_tree s))" using assms(1) unfolding task_index_ok_def by (blast intro: bb.sorted_items)
  then have "j \<le> k" if "j \<in> fst ` set (entries (sc_tree s))" for j using that by (auto simp: snoc e sorted_wrt_append)
  moreover have "k < k + 1" using assms(2) n unatSuc [of k] by (simp add: word_less_nat_alt add.commute)
  ultimately show ?thesis unfolding bb.lookup_None n by (meson leD)
qed (simp add: bb.lookup_None)

text \<open>Starting a task, when its address is new and the numbers are not used up.\<close>

lemma task_create_ok:
  assumes "task_index_ok s" "next_pid s \<noteq> 0" "t \<notin> snd ` set (entries (sc_tree s))"
  shows "\<exists>s'. task_create t p s = Some s' \<and> task_index_ok s' \<and> bb.lookup (sc_tree s') = (bb.lookup (sc_tree s))(next_pid s \<mapsto> t) \<and>
    sc_nodes s' = sc_nodes s \<and> sc_queue s' = sc_queue s \<and> sc_zombie s' = sc_zombie s \<and> sc_current s' = sc_current s \<and> sc_sch_lock s' = sc_sch_lock s \<and>
    tk_pid (sc_tasks s' t) = next_pid s \<and> (\<forall>x. x \<noteq> t \<longrightarrow> sc_tasks s' x = sc_tasks s x)"
proof -
  define s1 where "s1 = set_task t (\<lambda>_. \<lparr>tk_pid = next_pid s, tk_status = TS_ZOMBIE, tk_lock = False, tk_parent = p, tk_ret_code = 0, tk_raised = 0,
    tk_sc_log = [], tk_elapsed_counters = (\<lambda>_. 0), tk_start_time = 0\<rparr>) s"
  have i: "bb_inv (sc_tree s)" "\<not> sc_lock s" "\<And>k x. (k, x) \<in> set (entries (sc_tree s)) \<Longrightarrow> k \<noteq> 0 \<and> tk_pid (sc_tasks s x) = k"
    using assms(1) by (auto simp: task_index_ok_def)
  have f: "bb.lookup (sc_tree s) (next_pid s) = None" by (rule next_pid_fresh [OF assms(1,2)])
  then have f': "next_pid s \<notin> fst ` set (entries (sc_tree s))" by (simp add: bb.lookup_None)
  have "task_index_ok (s1\<lparr>sc_tree := fst (bb_insert (next_pid s) t (sc_tree s))\<rparr>)"
    unfolding task_index_ok_def
  proof (intro conjI ballI)
    fix e assume "e \<in> set (entries (sc_tree (s1\<lparr>sc_tree := fst (bb_insert (next_pid s) t (sc_tree s))\<rparr>)))"
    then have "e = (next_pid s, t) \<or> e \<in> set (entries (sc_tree s))" using bb.ins_items [OF i(1) f', of t] by simp
    then show "case e of (k, x) \<Rightarrow> k \<noteq> 0 \<and> tk_pid (sc_tasks (s1\<lparr>sc_tree := fst (bb_insert (next_pid s) t (sc_tree s))\<rparr>) x) = k"
    proof
      assume "e \<in> set (entries (sc_tree s))"
      moreover from this have "snd e \<noteq> t" using assms(3) by blast
      ultimately show ?thesis using i(3) [of "fst e" "snd e"] by (simp add: s1_def split_beta)
    qed (simp add: s1_def assms(2))
  qed (simp_all add: s1_def i(2) bb.ins_inv [OF i(1)])
  then show ?thesis using i(2) bb.lookup_ins [OF i(1) f] by (simp add: task_create_def Let_def s1_def)
qed

lemma scheduler_add_ok:
  assumes ok: "sched_ok s ts zs" and new: "ts \<noteq> []" "t \<noteq> 0" "t \<notin> set (ts @ zs)"
  shows "\<exists>s'. scheduler_add t s = Some s' \<and> sched_ok s' (ts @ [t]) zs \<and> sc_tree s' = sc_tree s \<and> sc_lock s' = sc_lock s \<and>
    (\<forall>x. tk_pid (sc_tasks s' x) = tk_pid (sc_tasks s x))"
proof -
  obtain c q where ts: "ts = c # q" using new(1) by (cases ts) auto
  have a: "sc_current s = c" "0 \<notin> set ts" "list_ok (sc_nodes s) (sc_queue s) (rev q)" "list_ok (sc_nodes s) (sc_zombie s) zs"
      "distinct (ts @ zs)" "\<not> sc_sch_lock s" "\<forall>t\<in>set ts. tk_status (sc_tasks s t) \<noteq> TS_ABORTED"
    using ok by (auto simp: sched_ok_def ts)
  obtain h l where pf: "ll_push_front (sc_nodes s) (sc_queue s) t = (h, l)" "list_ok h l (t # rev q)"
      and un: "unchanged (insert t (set (rev q))) (sc_nodes s) h"
    using push_front_ok [OF a(3), of t] new by (auto simp: ts)
  have z: "list_ok h (sc_zombie s) zs" using list_ok_frame [OF a(4) un] a(5) new(3) by (auto simp: ts)
  obtain s' where s': "scheduler_add t s = Some s'" "sc_nodes s' = h" "sc_queue s' = l" "sc_zombie s' = sc_zombie s" "sc_current s' = c"
      "\<not> sc_sch_lock s'" "sc_tree s' = sc_tree s" "sc_lock s' = sc_lock s" "\<forall>x. tk_pid (sc_tasks s' x) = tk_pid (sc_tasks s x)"
      "\<forall>x. tk_status (sc_tasks s' x) = (if x = t then TS_READY else tk_status (sc_tasks s x))"
    using a(1,6) pf(1) by (simp add: scheduler_add_def lock_queue_def enqueue_ready_def unlock_queue_def set_status_def Let_def)
  have "sched_ok s' (ts @ [t]) zs"
    using s'(2-6,10) pf(2) z a(2,5,7) new(2,3) by (simp add: sched_ok_def ts)
  then show ?thesis using s' by blast
qed

text \<open>C12: A started task gets a number that no task had, is found under it, and runs after all tasks that are ready; every other
  task is found as before. The numbers must not have been used up: after the last one the count wraps to 0.\<close>

theorem task_start_found:
  assumes ok: "sched_ok s ts zs" "task_index_ok s" and new: "ts \<noteq> []" "t \<noteq> 0" "t \<notin> set (ts @ zs)" "t \<notin> snd ` set (entries (sc_tree s))"
    and pid: "next_pid s \<noteq> 0"
  shows "\<exists>s'. task_start t s = Some (next_pid s, s') \<and> sched_ok s' (ts @ [t]) zs \<and> task_index_ok s' \<and>
    task_search (next_pid s) s = Some 0 \<and> task_search (next_pid s) s' = Some t \<and>
    (\<forall>j. j \<noteq> 0 \<and> j \<noteq> next_pid s \<longrightarrow> task_search j s' = task_search j s)"
proof -
  obtain s1 where s1: "task_create t (sc_current s) s = Some s1" "task_index_ok s1" "bb.lookup (sc_tree s1) = (bb.lookup (sc_tree s))(next_pid s \<mapsto> t)"
      "sc_nodes s1 = sc_nodes s" "sc_queue s1 = sc_queue s" "sc_zombie s1 = sc_zombie s" "sc_current s1 = sc_current s" "sc_sch_lock s1 = sc_sch_lock s"
      "tk_pid (sc_tasks s1 t) = next_pid s" "\<forall>x. x \<noteq> t \<longrightarrow> sc_tasks s1 x = sc_tasks s x"
    using task_create_ok [OF ok(2) pid new(4), of "sc_current s"] by (elim exE conjE) (rule that; assumption)
  have "\<forall>x\<in>set ts. sc_tasks s1 x = sc_tasks s x" using s1(10) new(3) by auto
  then have "sched_ok s1 ts zs" using ok(1) s1(4-8) by (simp add: sched_ok_def)
  from scheduler_add_ok [OF this new(1-3)] obtain s2 where s2: "scheduler_add t s1 = Some s2" "sched_ok s2 (ts @ [t]) zs"
      "sc_tree s2 = sc_tree s1" "sc_lock s2 = sc_lock s1" "\<forall>x. tk_pid (sc_tasks s2 x) = tk_pid (sc_tasks s1 x)" by blast
  have i: "bb_inv (sc_tree s)" "\<not> sc_lock s" "bb_inv (sc_tree s2)" "\<not> sc_lock s2" using ok(2) s1(2) s2(3,4) by (auto simp: task_index_ok_def)
  have "task_index_ok s2" using s1(2) s2(3-5) by (simp add: task_index_ok_def)
  moreover have "task_start t s = Some (next_pid s, s2)" using s1(1,9) s2(1,5) by (simp add: task_start_def)
  ultimately show ?thesis
    using s2(2,3) s1(3) search_lookup [OF i(1,2)] search_lookup [OF i(3,4)] next_pid_fresh [OF ok(2) pid] pid by simp
qed

subsection \<open>Examples\<close>

definition sample_task :: task where
  "sample_task = \<lparr>tk_pid = 1, tk_status = TS_READY, tk_lock = False, tk_parent = 0, tk_ret_code = 0, tk_raised = 0, tk_sc_log = [],
     tk_elapsed_counters = (\<lambda>_. 0), tk_start_time = 0\<rparr>"

text \<open>Task 8 runs, tasks 6 and 4 are ready; task 8 is the child of task \<open>p\<close>, and task 10 waits for any event.\<close>

definition sample_sched :: "nat \<Rightarrow> sched" where
  "sample_sched p = \<lparr>sc_tasks = (\<lambda>_. sample_task)(8 := sample_task\<lparr>tk_status := TS_RUNNING, tk_parent := p\<rparr>,
       10 := sample_task\<lparr>tk_status := TS_INTERRUPTIBLE\<rparr>),
     sc_tree = fst (bb_insert 1 8 Tip), sc_lock = False, sc_sch_lock = False, sc_nodes = pair_heap, sc_queue = pair_head, sc_zombie = llist_init,
     sc_current = 8, ck_wall = 0, ck_last_state = CKS_SYS, ck_last_time = 0, ck_elapsed_counters = (\<lambda>_. 0)\<rparr>"

lemma sample_sched_ok: "sched_ok (sample_sched p) [8, 6, 4] []"
  using pair_ok list_ok_init by (simp add: sched_ok_def sample_sched_def sample_task_def)

lemma sample_sched_index: "task_index_ok (sample_sched p)"
  using bb.ins_inv [OF bb.inv_empty] by (simp add: task_index_ok_def sample_sched_def sample_task_def)

theorem round_robin_witness: "\<exists>s'. turns [5, 7, 1, 2] (sample_sched 4) = Some s' \<and> sc_current s' = 6"
  using round_robin [OF sample_sched_ok, of "[5, 7, 1, 2]" 4] by auto

theorem task_stop_ends_witness: "\<exists>s'. task_stop 3 (sample_sched 4) = Some s' \<and> sched_ok s' [6, 4] [8] \<and> tk_ret_code (sc_tasks s' 8) = 3"
proof -
  have "4 = tk_parent (sc_tasks (sample_sched 4) 8)" "\<not> tk_lock (sc_tasks (sample_sched 4) 4) \<and> tk_status (sc_tasks (sample_sched 4) 4) \<noteq> TS_INTERRUPTIBLE"
    by (simp_all add: sample_sched_def sample_task_def)
  then show ?thesis using task_stop_ends [OF sample_sched_ok, of 4 4 3] by blast
qed

theorem task_stop_deadlocks_witness: "task_stop 3 (sample_sched 10) = None"
  by (rule task_stop_deadlocks [where p = 10]) (simp_all add: sample_sched_def sample_task_def)

theorem task_start_found_witness:
  "\<exists>s'. task_start 12 (sample_sched 4) = Some (2, s') \<and> sched_ok s' [8, 6, 4, 12] [] \<and> task_search 2 s' = Some 12"
proof -
  have n: "next_pid (sample_sched 4) = 2" by (simp add: next_pid_def sample_sched_def sample_task_def)
  have "12 \<notin> snd ` set (entries (sc_tree (sample_sched 4)))" by (simp add: sample_sched_def)
  then show ?thesis using task_start_found [OF sample_sched_ok sample_sched_index, of 12 4] n by auto
qed

end
