(* ===== verification/Spec2Isabelle.thy ===== *)
theory Spec2Isabelle
  imports Prelude Bits Pages BBHeap LList HMap PageShare Strings FormatInt Calendar Mmu Vma Vmsp Mcheck Rwlock Sync Arena Heap Pipe Tasks
begin

text \<open>
  Kora is a small monolithic kernel written in C. This library models the parts of it that
  carry its state: the data structures and string routines that everything is built on, the
  memory manager from physical pages to address spaces, the heap, the synchronisation primitives, pipes, and
  the scheduler.

  \<^bold>\<open>The program.\<close> At the bottom are freestanding containers (\<^verbatim>\<open>src/stdc/bits.c\<close>, \<^verbatim>\<open>bbtree.c\<close>,
  \<^verbatim>\<open>hmap.c\<close>, \<^verbatim>\<open>include/kora/llist.h\<close>) and the C library (\<^verbatim>\<open>string.c\<close>, \<^verbatim>\<open>format_integer.c\<close>,
  \<^verbatim>\<open>time.c\<close>). The physical page allocator (\<^verbatim>\<open>src/mem/pages.c\<close>) keeps zones of bitmaps; the page
  tables (\<^verbatim>\<open>arch/i386/boot/mmu.c\<close>) take their pages from it. An address space (\<^verbatim>\<open>src/mem/vmsp.c\<close>) is a
  balanced tree of areas, keyed by address, and each area has a table of operations for its kind of
  mapping (\<^verbatim>\<open>vma_anon.c\<close>, \<^verbatim>\<open>vma_file.c\<close>, \<^verbatim>\<open>vma_dlib.c\<close>, \<^verbatim>\<open>vma_misc.c\<close>); a hash table counts the owners of a
  shared page. The kernel opens windows on pages with \<^verbatim>\<open>kmap\<close> and \<^verbatim>\<open>kunmap\<close>, which are mappings in its
  own space. The heap (\<^verbatim>\<open>src/stdc/arena.c\<close>, \<^verbatim>\<open>heap.c\<close>) cuts such windows into chunks for \<^verbatim>\<open>kalloc\<close>, and a pipe
  (\<^verbatim>\<open>src/vfs/pipe.c\<close>) is a ring of bytes in one. Tasks (\<^verbatim>\<open>src/tasks/threads.c\<close>) are indexed by number in a balanced
  tree; the scheduler (\<^verbatim>\<open>src/tasks/scheduler.c\<close>) keeps the ready ones and the zombies in linked lists and
  charges the time through \<^verbatim>\<open>clock_state\<close> (\<^verbatim>\<open>src/tasks/clock.c\<close>).

  \<^bold>\<open>The theories\<close>, each with its definitions first, in the order of the code, and then its lemmas.
  \<^item> \<open>Prelude\<close>: machine integers, macros, error numbers, shared lemmas.
  \<^item> \<open>Bits\<close>: the bitmap routines, byte by byte.
  \<^item> \<open>Pages\<close>: \<^verbatim>\<open>page_range\<close>, \<^verbatim>\<open>page_new\<close>, \<^verbatim>\<open>page_release\<close> on zones; the locale \<open>frame_allocator\<close> is the contract
    the memory manager uses, interpreted on them. \<open>PageShare\<close>: \<^verbatim>\<open>page_shared\<close> over the hash map.
  \<^item> \<open>BBTree\<close>: the balanced tree as a value, with the locale \<open>ordered_index\<close>; \<open>BBHeap\<close>: \<^verbatim>\<open>bbtree.c\<close> itself,
    assignment by assignment on a heap of nodes with parent links, refining \<open>BBTree\<close>.
  \<^item> \<open>LList\<close>: \<^verbatim>\<open>llist.h\<close> on a heap of nodes, with the locale \<open>deque\<close>. \<open>HMap\<close>: \<^verbatim>\<open>hmap.c\<close>, with the locale
    \<open>finite_map\<close>.
  \<^item> \<open>Strings\<close>, \<open>FormatInt\<close>, \<open>Calendar\<close>: the C library on a shared byte memory.
  \<^item> \<open>Mmu\<close>: directory and tables as the recursive mapping shows them. \<open>Vma\<close>: the operations of the eight
    kinds of mappings. \<open>Vmsp\<close>: spaces and areas, \<^verbatim>\<open>vmsp_map\<close> to \<^verbatim>\<open>vmsp_close\<close>, page faults, \<^verbatim>\<open>kmap\<close>.
    \<open>Mcheck\<close>: checks of user pointers.
  \<^item> \<open>Rwlock\<close>: the read/write lock as interleaved steps of any number of threads. \<open>Sync\<close>: mutexes,
    condition variables, semaphores.
  \<^item> \<open>Arena\<close>: chunks of an arena, \<^verbatim>\<open>malloc_r\<close> and \<^verbatim>\<open>free_r\<close>. \<open>Heap\<close>: \<^verbatim>\<open>malloc\<close> and \<^verbatim>\<open>free\<close> over arenas, \<^verbatim>\<open>kalloc\<close>.
  \<^item> \<open>Pipe\<close>: every operation of a pipe on a byte memory, up to its first wait.
  \<^item> \<open>Tasks\<close>: the run queue, a switch up to the point where the next task is current, start, end and
    signals of tasks, over \<open>LList\<close> and \<open>BBTree\<close>.

  \<^bold>\<open>Conventions.\<close> Integers have the width of the i386 port where they can overflow: sizes and addresses of the memory
  manager are machine words, the page numbers of \<open>Pages\<close> are narrowed where the code narrows them, and the headers of \<open>Arena\<close> are cut
  to their bits when they are written. Positions in a byte memory, bit numbers in \<open>Bits\<close>, the addresses of \<open>Arena\<close>, the
  counts of \<open>PageShare\<close> and the times of \<open>Tasks\<close> are unbounded numbers. \<open>None\<close> means that the call does not return:
  a failed assertion, an endless loop, a spin on a lock that its own caller holds; in \<open>HMap\<close> it is a read past the end of a key. Loops that need not
  end are partial functions into \<open>option\<close>, so that every result below includes that the
  loop ends. No fuel is used; the bounded retry loops of the locks have the bounds of the code.
  Names of the code that end in an underscore end in a prime here.

  \<^bold>\<open>What the lemmas show.\<close> For the containers: every operation on a well-formed structure returns, keeps it
  well-formed and has the effect of the same operation on the abstract value. For the page
  allocator: allocated frames are distinct, and released ones become free, as long as the memory lies below 4 GiB. For page tables: an
  operation on a page leaves every other page below the windows on the tables alone. For address
  spaces: areas never overlap unless a range wraps around, the search finds a free range whenever there is one, and unmapping
  frees exactly the frames of the area. For the C library: functional behaviour, the tokens of a whole string, and round trips. For the
  read/write lock: mutual exclusion in every interleaving. For the heap: an allocation is a chunk of its own, and
  allocating and freeing keep the arena well formed. For pipes: writing appends to a queue of bytes, and reading takes from its
  front. For tasks: scheduling is fair, an ended task becomes a zombie, and a started one is found by its number. Several lemmas show where the code
  falls short of its purpose: the mutex that never excludes, the copy on write that never returns, the range
  that wraps around the address space, the request for memory that wraps around to a small one, and others that are listed with them.

  \<^bold>\<open>Parameters.\<close> What the file system and the libraries answer when a page is
  fetched is an argument of the model that may depend on the whole history of requests. Interference of other threads
  with a mutex is an arbitrary function. The kernel window that the heap and the pipes ask for memory is an argument; what they
  need of it is shown for \<^verbatim>\<open>kmap\<close> in \<open>Vmsp\<close> (\<open>kmap_apart\<close>). The address of a new task is an argument of its creation.

  \<^bold>\<open>Not modelled.\<close> Device drivers, descriptor tables and assembly are input and output on hardware.
  Formatted printing is variadic and only used for messages. Program loading, the file systems, the
  network, timers and futexes, and the handles of open streams are outside this library, as are the saved registers and user
  stacks of tasks; the files \<^verbatim>\<open>src/mem/vma.c\<close> and \<^verbatim>\<open>src/mem/mspace.c\<close> are
  commented out as a whole. The memory model has one processor; caches and the translation buffer
  are left out.
\<close>

end
